(* ===== verification/Prelude.thy ===== *)
theory Prelude
  imports Main "HOL-Library.Word"
begin

text \<open>
  Shared vocabulary of the development: machine types, the outcome of a C++ function, the
  effect trace of a process, and the generic facts about lists and cardinalities that the
  component theories use.

  A function of the source that can only return is a HOL function. One that can also end in
  another way returns an \<open>outcome\<close>: \<open>Val\<close> for a normal return, \<open>Throw\<close> for a
  C++ exception, \<open>Abort\<close> for a fatal log line or a failed check (both end in
  \<^verbatim>\<open>std::abort\<close>), \<open>Exit\<close> for \<^verbatim>\<open>std::exit\<close>, \<open>Undefined\<close> where the C++ standard gives the
  execution no meaning, and \<open>Blocked\<close> when the recorded answers of the kernel are used up,
  i.e. the process is still waiting in a system call.

  A process is an \<open>act\<close>: the list of the externally visible calls it made, in order,
  together with its outcome.
\<close>

type_synonym byte = "8 word"
type_synonym u32 = "32 word"
type_synonym u64 = "64 word"

section \<open>Outcomes\<close>

datatype 'a outcome =
    Val 'a
  | Throw string
  | Abort string
  | Exit int
  | Undefined string
  | Blocked

primrec obind :: "'a outcome \<Rightarrow> ('a \<Rightarrow> 'b outcome) \<Rightarrow> 'b outcome" where
  "obind (Val x) f = f x"
| "obind (Throw e) f = Throw e"
| "obind (Abort m) f = Abort m"
| "obind (Exit c) f = Exit c"
| "obind (Undefined m) f = Undefined m"
| "obind Blocked f = Blocked"

lemma obind_Val_iff: "obind m f = Val y \<longleftrightarrow> (\<exists>x. m = Val x \<and> f x = Val y)"
  by (cases m) auto

lemma obind_assoc: "obind (obind m f) g = obind m (\<lambda>x. obind (f x) g)"
  by (cases m) auto

section \<open>Traces of externally visible calls\<close>

text \<open>
  \<open>BarrierNew\<close>, \<open>BarrierWait\<close> and \<open>BarrierDelete\<close> are the construction, a
  \<^verbatim>\<open>Wait()\<close> and the destruction of a \<open>SenseReversingBarrier\<close>; \<open>BarrierClear\<close> is
  \<^verbatim>\<open>ClearResource\<close>; \<open>Call\<close> is any other call with an effect outside the process, by name.
\<close>

datatype event =
    BarrierNew
  | BarrierWait
  | BarrierDelete
  | BarrierClear
  | Call string

type_synonym 'a act = "event list \<times> 'a outcome"

definition ret :: "'a \<Rightarrow> 'a act" where
  "ret x = ([], Val x)"

definition lift :: "'a outcome \<Rightarrow> 'a act" where
  "lift r = ([], r)"

definition emit :: "event \<Rightarrow> unit act" where
  "emit e = ([e], Val ())"

definition abind :: "'a act \<Rightarrow> ('a \<Rightarrow> 'b act) \<Rightarrow> 'b act" where
  "abind m f =
     (case snd m of
        Val x \<Rightarrow> (fst m @ fst (f x), snd (f x))
      | Throw e \<Rightarrow> (fst m, Throw e)
      | Abort s \<Rightarrow> (fst m, Abort s)
      | Exit c \<Rightarrow> (fst m, Exit c)
      | Undefined s \<Rightarrow> (fst m, Undefined s)
      | Blocked \<Rightarrow> (fst m, Blocked))"

definition andthen :: "unit act \<Rightarrow> 'b act \<Rightarrow> 'b act" where
  "andthen m k = abind m (\<lambda>_. k)"

lemma abind_simps [simp]:
  "abind (es, Val x) f = (es @ fst (f x), snd (f x))"
  "abind (es, Throw e) f = (es, Throw e)"
  "abind (es, Abort m) f = (es, Abort m)"
  "abind (es, Exit c) f = (es, Exit c)"
  "abind (es, Undefined m) f = (es, Undefined m)"
  "abind (es, Blocked) f = (es, Blocked)"
  by (simp_all add: abind_def)

lemma abind_ret [simp]: "abind (ret x) f = f x"
  by (simp add: ret_def)

lemma abind_lift_Val [simp]: "abind (lift (Val x)) f = f x"
  by (simp add: lift_def)

lemma andthen_emit [simp]: "andthen (emit e) k = (e # fst k, snd k)"
  by (simp add: andthen_def emit_def)

lemma abind_emit [simp]: "abind (emit e) f = (e # fst (f ()), snd (f ()))"
  by (simp add: emit_def)

lemma ret_sel [simp]: "fst (ret x) = []" "snd (ret x) = Val x"
  by (simp_all add: ret_def)

lemma lift_sel [simp]: "fst (lift r) = []" "snd (lift r) = r"
  by (simp_all add: lift_def)

lemma abind_Val_iff:
  "snd (abind m f) = Val y \<longleftrightarrow> (\<exists>x. snd m = Val x \<and> snd (f x) = Val y)"
  by (cases "snd m") (auto simp: abind_def)

text \<open>Evaluated forms of the calls, for use with already evaluated arguments.\<close>

lemmas act_defs = ret_def lift_def emit_def andthen_def

section \<open>Machine arithmetic\<close>

text \<open>
  The value range of \<^verbatim>\<open>int\<close> (32 bits on every platform the program targets). An addition of
  two \<^verbatim>\<open>int\<close>s that leaves it is undefined behaviour.
\<close>

definition int32_range :: "int \<Rightarrow> bool" where
  "int32_range i \<longleftrightarrow> - (2 ^ 31) \<le> i \<and> i < 2 ^ 31"

definition add_int32 :: "int \<Rightarrow> int \<Rightarrow> int outcome" where
  "add_int32 a b =
     (if int32_range (a + b) then Val (a + b) else Undefined ''signed integer overflow'')"

section \<open>Lists\<close>

lemma take_add_drop: "take m xs @ take n (drop m xs) = take (m + n) xs"
  by (simp add: take_add)

lemma drop_take_append: "n \<le> length xs \<Longrightarrow> take n xs @ drop n xs = xs"
  by simp

lemma replicate_two: "replicate 2 x = [x, x]"
  by (simp add: numeral_2_eq_2)

text \<open>
  \<^verbatim>\<open>memcpy\<close> of \<open>src\<close> into the vector \<open>dst\<close> at offset \<open>off\<close>: undefined when the
  copied range does not fit.
\<close>

definition copy_into :: "'a list \<Rightarrow> nat \<Rightarrow> 'a list \<Rightarrow> 'a list outcome" where
  "copy_into dst off src =
     (if off + length src \<le> length dst
      then Val (take off dst @ src @ drop (off + length src) dst)
      else Undefined ''copy out of bounds'')"

lemma copy_into_Val_length: "copy_into dst off src = Val d \<Longrightarrow> length d = length dst"
  by (auto simp: copy_into_def split: if_splits)

section \<open>Counting processes\<close>

text \<open>Number of the processes \<open>0..<n\<close> whose local state satisfies \<open>P\<close>.\<close>

definition cnt :: "nat \<Rightarrow> ('l \<Rightarrow> bool) \<Rightarrow> (nat \<Rightarrow> 'l) \<Rightarrow> nat" where
  "cnt n P f = card {p. p < n \<and> P (f p)}"

lemma cnt_le: "cnt n P f \<le> n"
proof -
  have "card {p. p < n \<and> P (f p)} \<le> card {..<n}"
    by (rule card_mono) auto
  then show ?thesis by (simp add: cnt_def)
qed

lemma cnt_upd:
  assumes "p < n"
  shows "cnt n P (f(p := l)) + of_bool (P (f p)) = cnt n P f + of_bool (P l)"
proof -
  let ?A = "{q. q < n \<and> q \<noteq> p \<and> P (f q)}"
  have fin: "finite ?A" and notin: "p \<notin> ?A" by auto
  have new: "{q. q < n \<and> P ((f(p := l)) q)} = (if P l then insert p ?A else ?A)"
    using assms by auto
  have old: "{q. q < n \<and> P (f q)} = (if P (f p) then insert p ?A else ?A)"
    using assms by auto
  show ?thesis
    unfolding cnt_def new old using fin notin by simp
qed

lemma cnt_upd_same:
  assumes "p < n" and "P (f p) = P l"
  shows "cnt n P (f(p := l)) = cnt n P f"
  using cnt_upd [OF assms(1), of P f l] assms(2) by simp

lemma cnt_upd_inc:
  assumes "p < n" and "\<not> P (f p)" and "P l"
  shows "cnt n P (f(p := l)) = Suc (cnt n P f)"
  using cnt_upd [OF assms(1), of P f l] assms(2,3) by simp

lemma cnt_upd_dec:
  assumes "p < n" and "P (f p)" and "\<not> P l"
  shows "Suc (cnt n P (f(p := l))) = cnt n P f"
  using cnt_upd [OF assms(1), of P f l] assms(2,3) by simp

lemma cnt_0_iff: "cnt n P f = 0 \<longleftrightarrow> (\<forall>p<n. \<not> P (f p))"
  by (auto simp: cnt_def)

lemma cnt_all_iff: "cnt n P f = n \<longleftrightarrow> (\<forall>p<n. P (f p))"
proof
  assume eq: "cnt n P f = n"
  have "{p. p < n \<and> P (f p)} = {..<n}"
    by (rule card_subset_eq) (use eq in \<open>auto simp: cnt_def\<close>)
  then show "\<forall>p<n. P (f p)" by blast
next
  assume "\<forall>p<n. P (f p)"
  then have "{p. p < n \<and> P (f p)} = {..<n}" by auto
  then show "cnt n P f = n" by (simp add: cnt_def)
qed

lemma cnt_pos: "p < n \<Longrightarrow> P (f p) \<Longrightarrow> 0 < cnt n P f"
  using cnt_0_iff [of n P f] by auto

lemma cnt_cong:
  "(\<And>p. p < n \<Longrightarrow> P (f p) = Q (g p)) \<Longrightarrow> cnt n P f = cnt n Q g"
  unfolding cnt_def by (rule arg_cong [where f = card]) auto

lemma cnt_1_unique:
  assumes "cnt n P f \<le> 1" "p < n" "q < n" "P (f p)" "P (f q)"
  shows "p = q"
proof -
  have "card {r. r < n \<and> P (f r)} \<le> 1" using assms(1) by (simp add: cnt_def)
  then show ?thesis
    using assms(2-) by (simp add: card_le_Suc0_iff_eq)
qed

end
