(* ===== verification/Text_Format.thy ===== *)
theory Text_Format
  imports Prelude "HOL-Library.Char_ord" "HOL-Library.List_Lexorder"
begin

text \<open>
  The part of the C++ standard library's text handling that the program uses, on strings as
  character lists: decimal and hexadecimal printing with zero padding (\<^verbatim>\<open>std::format\<close>,
  \<^verbatim>\<open>std::to_string\<close>), \<^verbatim>\<open>std::from_chars\<close> for unsigned and signed integers,
  \<^verbatim>\<open>std::string::find\<close> and \<^verbatim>\<open>rfind\<close>. Strings compare by unsigned characters,
  lexicographically, as \<^verbatim>\<open>std::string\<close> does.
\<close>

section \<open>Characters\<close>

definition code_of :: "char \<Rightarrow> nat" where
  "code_of c = of_char c"

definition digit_char :: "nat \<Rightarrow> char" where
  "digit_char d = char_of (48 + d)"

definition is_digit :: "char \<Rightarrow> bool" where
  "is_digit c \<longleftrightarrow> 48 \<le> code_of c \<and> code_of c \<le> 57"

definition hex_char :: "nat \<Rightarrow> char" where
  "hex_char d = (if d < 10 then char_of (48 + d) else char_of (87 + d))"

definition quote_char :: char where
  "quote_char = char_of (39 :: nat)"

lemma code_of_digit_char [simp]: "d < 10 \<Longrightarrow> code_of (digit_char d) = 48 + d"
  by (simp add: code_of_def digit_char_def)

lemma is_digit_digit_char [simp]: "d < 10 \<Longrightarrow> is_digit (digit_char d)"
  by (simp add: is_digit_def)

lemma code_of_hex_char: "d < 16 \<Longrightarrow> code_of (hex_char d) = (if d < 10 then 48 + d else 87 + d)"
  by (simp add: code_of_def hex_char_def)

lemma inj_hex_char: "a < 16 \<Longrightarrow> b < 16 \<Longrightarrow> hex_char a = hex_char b \<Longrightarrow> a = b"
  by (drule arg_cong [where f = code_of]) (auto simp: code_of_hex_char split: if_splits)

section \<open>Printing numbers\<close>

fun dec_nat :: "nat \<Rightarrow> string" where
  "dec_nat n = (if n < 10 then [digit_char n] else dec_nat (n div 10) @ [digit_char (n mod 10)])"

declare dec_nat.simps [simp del]

definition dec_int :: "int \<Rightarrow> string" where
  "dec_int i = (if i < 0 then CHR ''-'' # dec_nat (nat (- i)) else dec_nat (nat i))"

text \<open>Padding with zeros to a minimal width, the format \<^verbatim>\<open>{:0wd}\<close> for non-negative values.\<close>

definition zero_pad :: "nat \<Rightarrow> string \<Rightarrow> string" where
  "zero_pad w s = replicate (w - length s) (CHR ''0'') @ s"

text \<open>Eight lower-case hexadecimal digits of a 32-bit value, the format \<^verbatim>\<open>{:08x}\<close>.\<close>

definition hex8 :: "u32 \<Rightarrow> string" where
  "hex8 w = map (\<lambda>k. hex_char (unat w div 16 ^ k mod 16)) (rev [0..<8])"

lemma length_hex8 [simp]: "length (hex8 w) = 8"
  by (simp add: hex8_def)

lemma dec_nat_nonempty [simp]: "dec_nat n \<noteq> []"
  by (subst dec_nat.simps) simp

lemma dec_nat_digits: "c \<in> set (dec_nat n) \<Longrightarrow> is_digit c"
proof (induction n rule: dec_nat.induct)
  case (1 n)
  then show ?case
    by (subst (asm) (2) dec_nat.simps) (auto split: if_splits)
qed

lemma dec_nat_all_digits: "\<forall>c\<in>set (dec_nat n). is_digit c"
  using dec_nat_digits by blast

section \<open>Reading numbers: \<^verbatim>\<open>std::from_chars\<close>\<close>

definition digits_value :: "string \<Rightarrow> nat" where
  "digits_value ds = foldl (\<lambda>a c. a * 10 + (code_of c - 48)) 0 ds"

lemma digits_value_snoc: "digits_value (ds @ [c]) = digits_value ds * 10 + (code_of c - 48)"
  by (simp add: digits_value_def)

lemma digits_value_dec_nat [simp]: "digits_value (dec_nat n) = n"
proof (induction n rule: dec_nat.induct)
  case (1 n)
  show ?case
  proof (cases "n < 10")
    case True
    then show ?thesis
      by (subst dec_nat.simps) (simp add: digits_value_def)
  next
    case False
    with "1" show ?thesis
      by (subst dec_nat.simps) (simp add: digits_value_snoc)
  qed
qed

text \<open>
  The result of \<^verbatim>\<open>std::from_chars\<close>: the error \<^verbatim>\<open>invalid_argument\<close>, the error
  \<^verbatim>\<open>result_out_of_range\<close>, or a value with the text that was not consumed.
\<close>

datatype 'a chars_result = FcInvalid | FcRange | FcOk 'a string

definition from_chars_u64 :: "string \<Rightarrow> u64 chars_result" where
  "from_chars_u64 s =
     (let ds = takeWhile is_digit s; rest = dropWhile is_digit s
      in if ds = [] then FcInvalid
         else if digits_value ds < 2 ^ 64 then FcOk (of_nat (digits_value ds)) rest
         else FcRange)"

definition from_chars_int :: "string \<Rightarrow> int chars_result" where
  "from_chars_int s =
     (let neg = (s \<noteq> [] \<and> hd s = CHR ''-'');
          body = (if neg then tl s else s);
          ds = takeWhile is_digit body; rest = dropWhile is_digit body;
          v = (if neg then - int (digits_value ds) else int (digits_value ds))
      in if ds = [] then FcInvalid
         else if int32_range v then FcOk v rest
         else FcRange)"

lemma takeWhile_dec_nat [simp]: "takeWhile is_digit (dec_nat n) = dec_nat n"
  by (simp add: takeWhile_eq_all_conv dec_nat_digits)

lemma dropWhile_dec_nat [simp]: "dropWhile is_digit (dec_nat n) = []"
  by (simp add: dropWhile_eq_Nil_conv dec_nat_digits)

lemma from_chars_u64_dec: "n < 2 ^ 64 \<Longrightarrow> from_chars_u64 (dec_nat n) = FcOk (of_nat n) []"
  by (simp add: from_chars_u64_def Let_def)

lemma hd_dec_nat_not_minus: "hd (dec_nat n) \<noteq> CHR ''-''"
proof -
  have "is_digit (hd (dec_nat n))"
    by (rule dec_nat_digits [where n = n]) simp
  then show ?thesis by (auto simp: is_digit_def code_of_def)
qed

lemma from_chars_int_dec: "int32_range i \<Longrightarrow> from_chars_int (dec_int i) = FcOk i []"
  by (simp add: from_chars_int_def dec_int_def Let_def hd_dec_nat_not_minus dec_nat_all_digits)

section \<open>Searching\<close>

text \<open>First position of \<open>pat\<close> in a string, \<^verbatim>\<open>std::string::find\<close>.\<close>

definition starts_with :: "string \<Rightarrow> string \<Rightarrow> bool" where
  "starts_with pat s \<longleftrightarrow> take (length pat) s = pat"

fun find_str :: "string \<Rightarrow> string \<Rightarrow> nat option" where
  "find_str pat [] = (if pat = [] then Some 0 else None)"
| "find_str pat (c # s) =
     (if starts_with pat (c # s) then Some 0 else map_option Suc (find_str pat s))"

lemma find_str_0_iff: "find_str pat s = Some 0 \<longleftrightarrow> starts_with pat s"
  by (cases s) (auto simp: starts_with_def)

text \<open>Last position of a character, \<^verbatim>\<open>std::string::rfind\<close>.\<close>

fun rfind_char :: "char \<Rightarrow> string \<Rightarrow> nat option" where
  "rfind_char c [] = None"
| "rfind_char c (d # s) =
     (case rfind_char c s of
        Some i \<Rightarrow> Some (Suc i)
      | None \<Rightarrow> if d = c then Some 0 else None)"

lemma rfind_char_None_iff: "rfind_char c s = None \<longleftrightarrow> c \<notin> set s"
  by (induction s) (auto split: option.splits)

lemma rfind_char_SomeD:
  "rfind_char c s = Some i \<Longrightarrow> i < length s \<and> s ! i = c \<and> c \<notin> set (drop (Suc i) s)"
proof (induction s arbitrary: i)
  case (Cons d s)
  then show ?case
    by (auto split: option.splits if_splits simp: rfind_char_None_iff)
qed simp

end
