(* ===== verification/Getopt_Utils.thy ===== *)
theory Getopt_Utils
  imports Text_Format
begin

text \<open>
  \<^verbatim>\<open>akbench/getopt_utils.h\<close>: the conversion of option arguments. A thrown
  \<^verbatim>\<open>std::invalid_argument\<close> is the outcome \<open>Throw\<close>; a shift by 64 or more is undefined.
\<close>

definition ParseUint64 :: "string \<Rightarrow> u64 option outcome" where
  "ParseUint64 str =
     (if str = [] then Val None
      else
        let invalid = Throw (''Invalid uint64_t value: '' @ [quote_char] @ str @ [quote_char])
        in case from_chars_u64 str of
             FcOk value [] \<Rightarrow> Val (Some value)
           | _ \<Rightarrow>
             (case find_str ''<<'' str of
                None \<Rightarrow> invalid
              | Some pos \<Rightarrow>
                  let base_str = filter (\<lambda>c. c \<noteq> CHR '' '') (take pos str);
                      shift_str = filter (\<lambda>c. c \<noteq> CHR '' '') (drop (pos + 2) str)
                  in case (from_chars_u64 base_str, from_chars_u64 shift_str) of
                       (FcOk base [], FcOk shift []) \<Rightarrow>
                         if unat shift < 64 then Val (Some (push_bit (unat shift) base))
                         else Undefined ''shift count too large''
                     | _ \<Rightarrow> invalid))"

definition ParseInt :: "string \<Rightarrow> int outcome" where
  "ParseInt str =
     (if str = [] then Throw ''Empty string cannot be parsed as int''
      else case from_chars_int str of
             FcOk value [] \<Rightarrow> Val value
           | _ \<Rightarrow> Throw (''Invalid int value: '' @ [quote_char] @ str @ [quote_char]))"

text \<open>
  \<^verbatim>\<open>PrintErrorAndExit\<close>: the two lines written to \<^verbatim>\<open>stderr\<close> and the exit code.
\<close>

definition PrintErrorAndExit :: "string \<Rightarrow> string \<Rightarrow> string list \<times> 'a outcome" where
  "PrintErrorAndExit program_name error_msg =
     ([program_name @ '': '' @ error_msg,
       ''Try '' @ [quote_char] @ program_name @ '' --help'' @ [quote_char] @ '' for more information.''],
      Exit 1)"

section \<open>Facts\<close>

lemma from_chars_u64_OkD:
  "from_chars_u64 s = FcOk v [] \<Longrightarrow>
   s \<noteq> [] \<and> (\<forall>c\<in>set s. is_digit c) \<and> digits_value s < 2 ^ 64 \<and> v = of_nat (digits_value s)"
proof -
  assume ok: "from_chars_u64 s = FcOk v []"
  then have "dropWhile is_digit s = []"
    by (auto simp: from_chars_u64_def Let_def split: if_splits)
  then have all: "\<forall>c\<in>set s. is_digit c" by (simp add: dropWhile_eq_Nil_conv)
  then have "takeWhile is_digit s = s" by (simp add: takeWhile_eq_all_conv)
  with ok all show ?thesis
    by (auto simp: from_chars_u64_def Let_def split: if_splits)
qed

lemma not_digit_less [simp]: "\<not> is_digit (CHR ''<'')" "\<not> is_digit (CHR '' '')"
  by (simp_all add: is_digit_def code_of_def)

lemma find_shift_digits:
  "\<forall>c\<in>set ds. c \<noteq> CHR ''<'' \<Longrightarrow> find_str ''<<'' (ds @ ''<<'' @ s) = Some (length ds)"
proof (induction ds)
  case (Cons d ds)
  then have "\<not> starts_with ''<<'' ((d # ds) @ ''<<'' @ s)" by (simp add: starts_with_def)
  with Cons show ?case by simp
qed (simp add: starts_with_def)

lemma from_chars_u64_not_all:
  "c \<in> set s \<Longrightarrow> \<not> is_digit c \<Longrightarrow> from_chars_u64 s \<noteq> FcOk v []"
  by (blast dest: from_chars_u64_OkD)

lemma ParseUint64_direct:
  "from_chars_u64 s = FcOk v [] \<Longrightarrow> ParseUint64 s = Val (Some v)"
  using from_chars_u64_OkD [of s v] by (auto simp: ParseUint64_def Let_def)

text \<open>Once the direct conversion fails, the result depends on the shift expression alone.\<close>

lemma ParseUint64_shift:
  assumes "\<And>v. from_chars_u64 s \<noteq> FcOk v []" and "find_str ''<<'' s = Some pos"
    and "from_chars_u64 (filter (\<lambda>c. c \<noteq> CHR '' '') (take pos s)) = FcOk base []"
    and "from_chars_u64 (filter (\<lambda>c. c \<noteq> CHR '' '') (drop (pos + 2) s)) = FcOk shift []"
  shows "ParseUint64 s = (if unat shift < 64 then Val (Some (push_bit (unat shift) base))
                          else Undefined ''shift count too large'')"
proof -
  have ne: "s \<noteq> []" using assms(2) by (cases s) simp_all
  show ?thesis
  proof (cases "from_chars_u64 s")
    case (FcOk v r)
    then obtain c r' where "r = c # r'" using assms(1) by (cases r) auto
    with FcOk ne show ?thesis using assms(2-) by (simp add: ParseUint64_def Let_def)
  qed (use ne assms(2-) in \<open>simp_all add: ParseUint64_def Let_def\<close>)
qed

lemma dec_nat_no_less: "c \<in> set (dec_nat n) \<Longrightarrow> c \<noteq> CHR ''<'' \<and> c \<noteq> CHR '' ''"
  using dec_nat_digits [of c n] by auto

lemma filter_dec_nat [simp]: "filter (\<lambda>c. c \<noteq> CHR '' '') (dec_nat n) = dec_nat n"
  by (rule filter_True) (simp add: dec_nat_no_less)

lemma ParseInt_Val_iff: "ParseInt s = Val v \<longleftrightarrow> s \<noteq> [] \<and> from_chars_int s = FcOk v []"
  by (auto simp: ParseInt_def split: chars_result.splits list.splits)

lemma ParseUint64_small: "k < 2 ^ 64 \<Longrightarrow> ParseUint64 (dec_nat k) = Val (Some (of_nat k))"
  by (simp add: ParseUint64_direct from_chars_u64_dec)

lemma ParseUint64_dec: "ParseUint64 (dec_nat (unat w)) = Val (Some w)"
proof -
  have "unat w < 2 ^ 64" using unsigned_less [of w] by simp
  then show ?thesis by (simp add: ParseUint64_small)
qed

lemma ParseInt_dec: "int32_range i \<Longrightarrow> ParseInt (dec_int i) = Val i"
  using from_chars_int_dec by (auto simp: ParseInt_Val_iff dec_int_def)

text \<open>
  Decimal text reads back: every \<^verbatim>\<open>uint64_t\<close> printed in decimal parses to itself,
  every \<^verbatim>\<open>int\<close> as well (with its sign), and text whose value does not fit the type throws
  instead of wrapping.
\<close>

theorem parse_decimal_roundtrip:
  "ParseUint64 (dec_nat (unat w)) = Val (Some w)
   \<and> (if int32_range i then ParseInt (dec_int i) = Val i else \<exists>m. ParseInt (dec_int i) = Throw m)
   \<and> (if n < 2 ^ 64 then ParseUint64 (dec_nat n) = Val (Some (of_nat n))
      else \<exists>m. ParseUint64 (dec_nat n) = Throw m)"
proof (intro conjI)
  show "ParseUint64 (dec_nat (unat w)) = Val (Some w)" by (rule ParseUint64_dec)
  show "if int32_range i then ParseInt (dec_int i) = Val i else \<exists>m. ParseInt (dec_int i) = Throw m"
  proof (cases "int32_range i")
    case True
    then show ?thesis by (simp add: ParseInt_dec)
  next
    case False
    then have "from_chars_int (dec_int i) = FcRange"
      by (simp add: from_chars_int_def dec_int_def Let_def hd_dec_nat_not_minus dec_nat_all_digits)
    then show ?thesis using False by (simp add: ParseInt_def dec_int_def)
  qed
  show "if n < 2 ^ 64 then ParseUint64 (dec_nat n) = Val (Some (of_nat n))
        else \<exists>m. ParseUint64 (dec_nat n) = Throw m"
  proof (cases "n < 2 ^ 64")
    case False
    then have "from_chars_u64 (dec_nat n) = FcRange" by (simp add: from_chars_u64_def Let_def)
    moreover have "find_str ''<<'' (dec_nat n) = None"
    proof -
      have "find_str ''<<'' s = None" if "\<forall>c\<in>set s. c \<noteq> CHR ''<''" for s
        using that by (induction s) (auto simp: starts_with_def)
      then show ?thesis by (simp add: dec_nat_no_less)
    qed
    ultimately show ?thesis using False by (simp add: ParseUint64_def Let_def)
  qed (simp add: ParseUint64_small)
qed

text \<open>
  C39 (functional). Shift expressions: \<open>a<<b\<close>, with any spaces around the operands, reads as
  \<open>a * 2\<^sup>b\<close> reduced modulo \<open>2\<^sup>6\<^sup>4\<close>; a shift count of 64 or more is not rejected and is undefined
  behaviour of the program.
\<close>

theorem parse_shift_expression:
  assumes "a < 2 ^ 64" and "b < 2 ^ 64"
  shows "ParseUint64 (dec_nat a @ replicate k (CHR '' '') @ ''<<'' @ replicate l (CHR '' '') @ dec_nat b) =
     (if b < 64 then Val (Some (of_nat (a * 2 ^ b))) else Undefined ''shift count too large'')"
proof -
  let ?pre = "dec_nat a @ replicate k (CHR '' '')"
  let ?post = "replicate l (CHR '' '') @ dec_nat b"
  let ?s = "?pre @ ''<<'' @ ?post"
  have no: "from_chars_u64 ?s \<noteq> FcOk v []" for v
    by (rule from_chars_u64_not_all [where c = "CHR ''<''"]) simp_all
  have find: "find_str ''<<'' ?s = Some (length ?pre)"
    by (rule find_shift_digits) (auto dest: dec_nat_no_less)
  have base: "from_chars_u64 (filter (\<lambda>c. c \<noteq> CHR '' '') (take (length ?pre) ?s)) = FcOk (of_nat a) []"
    using assms(1) by (simp add: from_chars_u64_dec)
  have shift: "from_chars_u64 (filter (\<lambda>c. c \<noteq> CHR '' '') (drop (length ?pre + 2) ?s)) = FcOk (of_nat b) []"
    using assms(2) by (simp add: from_chars_u64_dec)
  have b: "unat (of_nat b :: u64) = b" using assms(2) by (simp add: unat_of_nat)
  have "ParseUint64 ?s = (if b < 64 then Val (Some (push_bit b (of_nat a)))
                          else Undefined ''shift count too large'')"
    using ParseUint64_shift [OF no find base shift] by (simp add: b)
  then show ?thesis by (simp add: push_bit_eq_mult)
qed

lemma dec_nat_1_30: "dec_nat 1 = ''1''" "dec_nat 30 = ''30''"
  by code_simp+

theorem parse_shift_expression_witness: "ParseUint64 ''1 << 30'' = Val (Some (2 ^ 30))"
  using parse_shift_expression [of 1 30 1 1] dec_nat_1_30 by simp

end
