(* ===== verification/Aklog.thy ===== *)
theory Aklog
  imports Text_Format
begin

text \<open>
  The logging library, \<^verbatim>\<open>akbench/aklog.h\<close> and \<^verbatim>\<open>aklog.cc\<close>: the level enumeration, the
  process-wide threshold \<^verbatim>\<open>g_log_level\<close>, \<^verbatim>\<open>log\<close> (filter, format, print to \<^verbatim>\<open>std::cerr\<close>,
  abort on FATAL) and \<^verbatim>\<open>check\<close>, the function behind the macro \<^verbatim>\<open>AKCHECK\<close>. The clock, the
  process id and the address that is printed as thread id come from the operating system and
  are the fields of a \<open>log_ctx\<close>.
\<close>

section \<open>Levels\<close>

datatype LogLevel = DEBUG | INFO | WARNING | ERROR | FATAL

primrec level_value :: "LogLevel \<Rightarrow> int" where
  "level_value DEBUG = 0"
| "level_value INFO = 1"
| "level_value WARNING = 2"
| "level_value ERROR = 3"
| "level_value FATAL = 4"

text \<open>Enumerators compare by their values.\<close>

instantiation LogLevel :: linorder
begin

definition less_eq_LogLevel :: "LogLevel \<Rightarrow> LogLevel \<Rightarrow> bool" where
  "less_eq_LogLevel a b \<longleftrightarrow> level_value a \<le> level_value b"

definition less_LogLevel :: "LogLevel \<Rightarrow> LogLevel \<Rightarrow> bool" where
  "less_LogLevel a b \<longleftrightarrow> level_value a < level_value b"

instance
proof
  fix x y z :: LogLevel
  show "x < y \<longleftrightarrow> x \<le> y \<and> \<not> y \<le> x"
    by (auto simp: less_eq_LogLevel_def less_LogLevel_def)
  show "x \<le> x" by (simp add: less_eq_LogLevel_def)
  show "x \<le> y \<Longrightarrow> y \<le> z \<Longrightarrow> x \<le> z" by (simp add: less_eq_LogLevel_def)
  show "x \<le> y \<Longrightarrow> y \<le> x \<Longrightarrow> x = y"
    by (cases x; cases y) (simp_all add: less_eq_LogLevel_def)
  show "x \<le> y \<or> y \<le> x" by (auto simp: less_eq_LogLevel_def)
qed

end

lemma LogLevel_le_FATAL [simp]: "l \<le> FATAL"
  by (cases l) (simp_all add: less_eq_LogLevel_def)

primrec logLevelToChar :: "LogLevel \<Rightarrow> char" where
  "logLevelToChar DEBUG = CHR ''D''"
| "logLevelToChar INFO = CHR ''I''"
| "logLevelToChar WARNING = CHR ''W''"
| "logLevelToChar ERROR = CHR ''E''"
| "logLevelToChar FATAL = CHR ''F''"

primrec logLevelToString :: "LogLevel \<Rightarrow> string" where
  "logLevelToString DEBUG = ''DEBUG''"
| "logLevelToString INFO = ''INFO''"
| "logLevelToString WARNING = ''WARNING''"
| "logLevelToString ERROR = ''ERROR''"
| "logLevelToString FATAL = ''FATAL''"

definition stringToLogLevel :: "string \<Rightarrow> LogLevel" where
  "stringToLogLevel s =
     (if s = ''DEBUG'' then DEBUG
      else if s = ''INFO'' then INFO
      else if s = ''WARNING'' then WARNING
      else if s = ''ERROR'' then ERROR
      else if s = ''FATAL'' then FATAL
      else INFO)"

section \<open>Log lines\<close>

record log_ctx =
  tm_mon :: nat
  tm_mday :: nat
  tm_hour :: nat
  tm_min :: nat
  tm_sec :: nat
  tm_usec :: nat
  log_pid :: int
  log_tid :: nat

definition getCurrentTimestamp :: "log_ctx \<Rightarrow> string" where
  "getCurrentTimestamp c =
     zero_pad 2 (dec_nat (tm_mon c + 1)) @ zero_pad 2 (dec_nat (tm_mday c)) @ '' '' @
     zero_pad 2 (dec_nat (tm_hour c)) @ '':'' @ zero_pad 2 (dec_nat (tm_min c)) @ '':'' @
     zero_pad 2 (dec_nat (tm_sec c)) @ ''.'' @ zero_pad 6 (dec_nat (tm_usec c))"

text \<open>The file name after the last slash of \<^verbatim>\<open>__FILE__\<close>.\<close>

definition base_filename :: "string \<Rightarrow> string" where
  "base_filename file =
     (case rfind_char (CHR ''/'') file of None \<Rightarrow> file | Some i \<Rightarrow> drop (Suc i) file)"

definition format_line :: "log_ctx \<Rightarrow> LogLevel \<Rightarrow> string \<Rightarrow> string \<Rightarrow> int \<Rightarrow> string" where
  "format_line c level message file line =
     [logLevelToChar level] @ getCurrentTimestamp c @ '' '' @ dec_int (log_pid c) @ ''  '' @
     dec_nat (log_tid c) @ '' '' @ base_filename file @ '':'' @ dec_int line @ ''] '' @ message"

section \<open>The logger\<close>

record log_state =
  g_log_level :: LogLevel
  cerr_lines :: "string list"

definition initial_log :: log_state where
  "initial_log = \<lparr>g_log_level = INFO, cerr_lines = []\<rparr>"

definition log_message ::
  "log_ctx \<Rightarrow> LogLevel \<Rightarrow> string \<Rightarrow> string \<Rightarrow> int \<Rightarrow> log_state \<Rightarrow> log_state \<times> unit outcome" where
  "log_message c level message file line st =
     (if level < g_log_level st then (st, Val ())
      else
        let st' = st\<lparr>cerr_lines := cerr_lines st @ [format_line c level message file line]\<rparr>
        in if level = FATAL then (st', Abort message) else (st', Val ()))"

definition setLogLevel :: "LogLevel \<Rightarrow> log_state \<Rightarrow> log_state" where
  "setLogLevel level st = st\<lparr>g_log_level := level\<rparr>"

definition getLogLevel :: "log_state \<Rightarrow> LogLevel" where
  "getLogLevel st = g_log_level st"

definition check ::
  "log_ctx \<Rightarrow> bool \<Rightarrow> string \<Rightarrow> string \<Rightarrow> int \<Rightarrow> log_state \<Rightarrow> log_state \<times> unit outcome" where
  "check c condition message file line st =
     (if \<not> condition then log_message c FATAL (''Check failed: '' @ message) file line st
      else (st, Val ()))"

section \<open>Facts\<close>

lemma rfind_drop_no_slash:
  "rfind_char c s = Some i \<Longrightarrow> c \<notin> set (drop (Suc i) s)"
  by (blast dest: rfind_char_SomeD)

lemma base_filename_no_slash: "CHR ''/'' \<notin> set (base_filename file)"
  by (auto simp: base_filename_def rfind_char_None_iff dest: rfind_drop_no_slash
      split: option.splits)

lemma base_filename_suffix: "\<exists>dir. file = dir @ base_filename file"
proof (cases "rfind_char (CHR ''/'') file")
  case (Some i)
  have "file = take (Suc i) file @ base_filename file"
    using Some by (simp add: base_filename_def)
  then show ?thesis by blast
qed (simp add: base_filename_def)

text \<open>
  C40 (safety). A log call at level FATAL and a failed check stop the process whatever threshold
  is set: no choice of \<^verbatim>\<open>setLogLevel\<close> filters them, the line is printed before the abort, and a
  check whose condition holds has no effect at all.
\<close>

theorem fatal_never_filtered:
  "log_message c FATAL m file line (setLogLevel l st) =
     ((setLogLevel l st)\<lparr>cerr_lines := cerr_lines st @ [format_line c FATAL m file line]\<rparr>, Abort m)
   \<and> snd (check c False m file line st) = Abort (''Check failed: '' @ m)
   \<and> check c True m file line st = (st, Val ())"
proof -
  have "\<not> FATAL < k" for k :: LogLevel
    by (simp add: not_less)
  then show ?thesis
    by (simp add: log_message_def check_def setLogLevel_def Let_def)
qed

text \<open>
  The threshold is a filter on the level order: a non-fatal message returns
  normally, appends exactly one line when its level is at least the threshold last set, and
  leaves the logger unchanged when it is below.
\<close>

theorem log_threshold:
  assumes "level \<noteq> FATAL"
  shows "log_message c level m file line (setLogLevel l st) =
     ((setLogLevel l st)\<lparr>cerr_lines :=
        (if l \<le> level then cerr_lines st @ [format_line c level m file line]
         else cerr_lines st)\<rparr>, Val ())"
  using assms by (auto simp: log_message_def setLogLevel_def Let_def)

definition sample_ctx :: log_ctx where
  "sample_ctx = \<lparr>tm_mon = 6, tm_mday = 4, tm_hour = 9, tm_min = 5, tm_sec = 7, tm_usec = 42,
     log_pid = 100, log_tid = 7\<rparr>"

theorem log_threshold_witness:
  "log_message sample_ctx INFO ''hi'' ''a/b.cc'' 3 (setLogLevel WARNING initial_log) =
     (\<lparr>g_log_level = WARNING, cerr_lines = []\<rparr>, Val ())"
  using log_threshold [of INFO sample_ctx "''hi''" "''a/b.cc''" 3 WARNING initial_log]
  by (simp add: setLogLevel_def initial_log_def less_eq_LogLevel_def)

lemma stringToLogLevel_other:
  assumes "s \<notin> range logLevelToString"
  shows "stringToLogLevel s = INFO"
proof -
  have "s \<noteq> logLevelToString k" for k using assms by blast
  from this [of DEBUG] this [of INFO] this [of WARNING] this [of ERROR] this [of FATAL]
  show ?thesis by (simp add: stringToLogLevel_def)
qed

lemma stringToLogLevel_print: "stringToLogLevel (logLevelToString l) = l"
  by (cases l) (simp_all add: stringToLogLevel_def)

text \<open>
  Parsing a printed level gives the level back, and a text that is no level's
  name reads as INFO.
\<close>

theorem level_string_roundtrip:
  "stringToLogLevel (logLevelToString l) = l
   \<and> (if s \<in> range logLevelToString then logLevelToString (stringToLogLevel s) = s
      else stringToLogLevel s = INFO)"
  using stringToLogLevel_other by (auto simp: stringToLogLevel_print)

end
