(* ===== verification/Common_Data.thy ===== *)
theory Common_Data
  imports Aklog
begin

unbundle bit_operations_syntax

text \<open>
  The payload functions of \<^verbatim>\<open>akbench/common.h\<close> and \<^verbatim>\<open>common.cc\<close>: a block of random bytes
  followed by a checksum of 128 bytes, byte \<open>j\<close> of which is the exclusive or of the
  content bytes whose index is \<open>j\<close> modulo 128; its verification; and the unique names of
  the shared objects. Random draws are a parameter (the generator is seeded by the system).
  Sizes are natural numbers: a byte vector of the program is an object in memory, so its size is
  far below the range of \<^verbatim>\<open>uint64_t\<close>.
\<close>

definition CHECKSUM_SIZE :: nat where
  "CHECKSUM_SIZE = 128"

section \<open>Checksum\<close>

definition checksum_step :: "byte list \<Rightarrow> byte list \<Rightarrow> nat \<Rightarrow> byte list" where
  "checksum_step data checksum i =
     checksum[i mod CHECKSUM_SIZE := checksum ! (i mod CHECKSUM_SIZE) XOR data ! i]"

definition CalcChecksum :: "byte list \<Rightarrow> nat \<Rightarrow> byte list outcome" where
  "CalcChecksum data data_size =
     (if \<not> CHECKSUM_SIZE < data_size
      then Abort ''data_size must be greater than CHECKSUM_SIZE''
      else
        let context_size = data_size - CHECKSUM_SIZE
        in if length data < context_size then Undefined ''vector index out of range''
           else Val (foldl (checksum_step data) (replicate CHECKSUM_SIZE 0) [0..<context_size]))"

section \<open>Generation\<close>

text \<open>The eight bytes of a 64-bit store on the little-endian targets of the program.\<close>

definition store_u64 :: "u64 \<Rightarrow> byte list" where
  "store_u64 w = map (\<lambda>k. ucast (drop_bit (8 * k) w)) [0..<8]"

text \<open>
  The first loop: while at least nine bytes of content are left, store one draw as eight bytes.
  \<open>k\<close> counts the draws. It returns the index, the number of draws used and the data.
\<close>

function fill_words ::
  "(nat \<Rightarrow> u64) \<Rightarrow> nat \<Rightarrow> nat \<Rightarrow> nat \<Rightarrow> byte list \<Rightarrow> nat \<times> nat \<times> byte list" where
  "fill_words draws context_size i k data =
     (if i + 8 < context_size
      then fill_words draws context_size (i + 8) (Suc k)
             (take i data @ store_u64 (draws k) @ drop (i + 8) data)
      else (i, k, data))"
  by pat_completeness auto
termination
  by (relation "measure (\<lambda>(draws, context_size, i, k, data). context_size - i)") auto

declare fill_words.simps [simp del]

text \<open>The second loop: one draw per remaining byte.\<close>

function fill_bytes :: "(nat \<Rightarrow> u64) \<Rightarrow> nat \<Rightarrow> nat \<Rightarrow> nat \<Rightarrow> byte list \<Rightarrow> byte list" where
  "fill_bytes draws context_size i k data =
     (if i < context_size
      then fill_bytes draws context_size (Suc i) (Suc k) (data[i := ucast (draws k AND 0xFF)])
      else data)"
  by pat_completeness auto
termination
  by (relation "measure (\<lambda>(draws, context_size, i, k, data). context_size - i)") auto

declare fill_bytes.simps [simp del]

definition GenerateDataToSend :: "(nat \<Rightarrow> u64) \<Rightarrow> nat \<Rightarrow> byte list outcome" where
  "GenerateDataToSend draws data_size =
     (if \<not> CHECKSUM_SIZE < data_size
      then Abort ''data_size must be greater than CHECKSUM_SIZE''
      else
        let context_size = data_size - CHECKSUM_SIZE;
            (i, k, data) = fill_words draws context_size 0 0 (replicate data_size 0);
            data = fill_bytes draws context_size i k data
        in obind (CalcChecksum data data_size)
             (\<lambda>checksum. Val (foldl (\<lambda>d j. d[context_size + j := checksum ! j]) data
                                    [0..<CHECKSUM_SIZE])))"

section \<open>Verification\<close>

definition VerifyDataReceived :: "byte list \<Rightarrow> nat \<Rightarrow> bool outcome" where
  "VerifyDataReceived data data_size =
     (if \<not> CHECKSUM_SIZE < data_size
      then Abort ''data_size must be greater than CHECKSUM_SIZE''
      else
        let context_size = data_size - CHECKSUM_SIZE
        in if length data \<noteq> data_size then Val False
           else obind (CalcChecksum data data_size)
             (\<lambda>checksum. Val (list_all (\<lambda>i. data ! (context_size + i) = checksum ! i)
                                       [0..<CHECKSUM_SIZE])))"

section \<open>Names\<close>

definition ReceivePrefix :: "int \<Rightarrow> int \<Rightarrow> string" where
  "ReceivePrefix pid iteration =
     ''Receive (PID '' @ dec_int pid @ '', iteration '' @ dec_int iteration @ ''): ''"

definition SendPrefix :: "int \<Rightarrow> int \<Rightarrow> string" where
  "SendPrefix pid iteration =
     ''Send (PID '' @ dec_int pid @ '', iteration '' @ dec_int iteration @ ''): ''"

definition GenerateUniqueName :: "u32 \<Rightarrow> string \<Rightarrow> string" where
  "GenerateUniqueName random_value base_name =
     (let hex_suffix = hex8 random_value
      in case rfind_char (CHR ''.'') base_name of
           Some dot_pos \<Rightarrow> take dot_pos base_name @ ''_'' @ hex_suffix @ drop dot_pos base_name
         | None \<Rightarrow> base_name @ ''_'' @ hex_suffix)"

section \<open>What the checksum loop computes\<close>

definition xor_list :: "byte list \<Rightarrow> byte" where
  "xor_list xs = foldr (XOR) xs 0"

lemma xor_list_simps [simp]:
  "xor_list [] = 0" "xor_list (x # xs) = x XOR xor_list xs"
  by (simp_all add: xor_list_def)

lemma xor_list_append [simp]: "xor_list (xs @ ys) = xor_list xs XOR xor_list ys"
  by (induction xs) (simp_all add: ac_simps)

lemma xor_list_replicate_0 [simp]: "xor_list (replicate n 0) = 0"
  by (induction n) simp_all

text \<open>The content bytes of column \<open>j\<close>, and the abstract checksum: their parity.\<close>

definition column :: "byte list \<Rightarrow> nat \<Rightarrow> nat \<Rightarrow> byte list" where
  "column data context_size j =
     map ((!) data) (filter (\<lambda>i. i mod CHECKSUM_SIZE = j) [0..<context_size])"

definition parity :: "byte list \<Rightarrow> nat \<Rightarrow> nat \<Rightarrow> byte" where
  "parity data context_size j = xor_list (column data context_size j)"

definition checksum_loop :: "byte list \<Rightarrow> nat \<Rightarrow> byte list" where
  "checksum_loop data context_size =
     foldl (checksum_step data) (replicate CHECKSUM_SIZE 0) [0..<context_size]"

lemma parity_0 [simp]: "parity data 0 j = 0"
  by (simp add: parity_def column_def)

lemma parity_Suc:
  "parity data (Suc n) j = parity data n j XOR (if n mod CHECKSUM_SIZE = j then data ! n else 0)"
  by (simp add: parity_def column_def)

lemma checksum_loop_Suc:
  "checksum_loop data (Suc n) = checksum_step data (checksum_loop data n) n"
  by (simp add: checksum_loop_def)

lemma length_checksum_loop [simp]: "length (checksum_loop data n) = CHECKSUM_SIZE"
  by (induction n)
    (simp_all add: checksum_loop_Suc checksum_step_def, simp add: checksum_loop_def)

lemma checksum_loop_nth: "j < CHECKSUM_SIZE \<Longrightarrow> checksum_loop data n ! j = parity data n j"
proof (induction n)
  case 0
  then show ?case by (simp add: checksum_loop_def)
next
  case (Suc n)
  then show ?case
    by (auto simp: checksum_loop_Suc checksum_step_def parity_Suc nth_list_update)
qed

lemma parity_cong:
  "(\<And>i. i < n \<Longrightarrow> data ! i = data' ! i) \<Longrightarrow> parity data n j = parity data' n j"
  by (induction n) (simp_all add: parity_Suc)

lemma parity_zero: "(\<And>i. i < n \<Longrightarrow> data ! i = 0) \<Longrightarrow> parity data n j = 0"
  by (induction n) (simp_all add: parity_Suc)

lemma parity_list_update:
  assumes "n \<le> length data" "i < n"
  shows "parity (data[i := b]) n j =
     parity data n j XOR (if i mod CHECKSUM_SIZE = j then data ! i XOR b else 0)"
  using assms
proof (induction n)
  case (Suc n)
  show ?case
  proof (cases "i = n")
    case True
    have "parity (data[i := b]) n j = parity data n j"
      by (rule parity_cong) (use True in simp)
    then show ?thesis
      using True Suc.prems by (simp add: parity_Suc ac_simps)
  next
    case False
    then show ?thesis
      using Suc by (simp add: parity_Suc ac_simps)
  qed
qed simp

lemma CalcChecksum_eq:
  "CHECKSUM_SIZE < n \<Longrightarrow> n - CHECKSUM_SIZE \<le> length data \<Longrightarrow>
   CalcChecksum data n = Val (checksum_loop data (n - CHECKSUM_SIZE))"
  by (simp add: CalcChecksum_def checksum_loop_def Let_def)

text \<open>
  Verification against the abstract checksum: the size is right and every checksum byte is the
  parity of its column.
\<close>

lemma VerifyDataReceived_eq:
  assumes "CHECKSUM_SIZE < n"
  shows "VerifyDataReceived data n =
     Val (length data = n \<and>
          (\<forall>j<CHECKSUM_SIZE. data ! (n - CHECKSUM_SIZE + j) = parity data (n - CHECKSUM_SIZE) j))"
proof (cases "length data = n")
  case True
  then have "CalcChecksum data n = Val (checksum_loop data (n - CHECKSUM_SIZE))"
    using assms by (simp add: CalcChecksum_eq)
  then show ?thesis
    using assms True
    by (simp add: VerifyDataReceived_def Let_def list_all_iff checksum_loop_nth Ball_def)
qed (use assms in \<open>simp add: VerifyDataReceived_def Let_def\<close>)

section \<open>What generation produces\<close>

lemma length_store_u64 [simp]: "length (store_u64 w) = 8"
  by (simp add: store_u64_def)

text \<open>Number of whole words the first loop stores into \<open>n\<close> content bytes.\<close>

definition word_count :: "nat \<Rightarrow> nat" where
  "word_count n = (n - 1) div 8"

lemma word_count_step: "8 < n \<Longrightarrow> word_count n = Suc (word_count (n - 8))"
proof -
  assume "8 < n"
  then have "n - 1 = (n - 8 - 1) + 8" by simp
  then show ?thesis unfolding word_count_def by (metis add.commute add_diff_cancel_right' div_add_self2 Suc_eq_plus1 zero_neq_numeral)
qed

lemma fill_words_eq:
  "i \<le> n \<Longrightarrow> n \<le> length data \<Longrightarrow>
   fill_words draws n i k data =
     (i + 8 * word_count (n - i), k + word_count (n - i),
      take i data @ concat (map (\<lambda>t. store_u64 (draws t)) [k..<k + word_count (n - i)])
        @ drop (i + 8 * word_count (n - i)) data)"
proof (induction draws n i k data rule: fill_words.induct)
  case (1 draws n i k data)
  show ?case
  proof (cases "i + 8 < n")
    case True
    let ?d = "take i data @ store_u64 (draws k) @ drop (i + 8) data"
    have len: "length ?d = length data" using True "1.prems" by simp
    have wc: "word_count (n - i) = Suc (word_count (n - (i + 8)))"
      using True word_count_step [of "n - i"] by (simp add: algebra_simps)
    have tk: "take (i + 8) ?d = take i data @ store_u64 (draws k)"
      using True "1.prems" by (simp add: min_def)
    have dr: "drop (i + 8 + m) ?d = drop (i + 8 + m) data" for m
      using True "1.prems" by (simp add: add.commute)
    have "fill_words draws n i k data = fill_words draws n (i + 8) (Suc k) ?d"
      using True by (simp add: fill_words.simps [of draws n i k data])
    also have "\<dots> = (i + 8 + 8 * word_count (n - (i + 8)), Suc k + word_count (n - (i + 8)),
        take (i + 8) ?d @ concat (map (\<lambda>t. store_u64 (draws t)) [Suc k..<Suc k + word_count (n - (i + 8))])
          @ drop (i + 8 + 8 * word_count (n - (i + 8))) ?d)"
      by (rule "1.IH") (use True "1.prems" len in auto)
    moreover have up: "[k..<k + Suc m] = k # [Suc k..<Suc k + m]" for m
      by (subst upt_conv_Cons) auto
    ultimately show ?thesis
      unfolding tk dr wc up by (simp add: add.assoc del: upt_Suc)
  next
    case False
    then have "word_count (n - i) = 0" by (simp add: word_count_def)
    then show ?thesis
      using False by (simp add: fill_words.simps [of draws n i k data])
  qed
qed

lemma fill_bytes_eq:
  "i \<le> n \<Longrightarrow> n \<le> length data \<Longrightarrow>
   fill_bytes draws n i k data =
     take i data @ map (\<lambda>t. ucast (draws (k + t) AND 0xFF)) [0..<n - i] @ drop n data"
proof (induction draws n i k data rule: fill_bytes.induct)
  case (1 draws n i k data)
  show ?case
  proof (cases "i < n")
    case True
    let ?b = "ucast (draws k AND 0xFF) :: byte"
    have "fill_bytes draws n i k data = fill_bytes draws n (Suc i) (Suc k) (data[i := ?b])"
      using True by (simp add: fill_bytes.simps [of draws n i k data])
    also have "\<dots> = take (Suc i) (data[i := ?b])
        @ map (\<lambda>t. ucast (draws (Suc k + t) AND 0xFF)) [0..<n - Suc i] @ drop n (data[i := ?b])"
      by (rule "1.IH") (use True "1.prems" in auto)
    also have "take (Suc i) (data[i := ?b]) = take i data @ [?b]"
      using True "1.prems" by (simp add: take_Suc_conv_app_nth)
    also have "drop n (data[i := ?b]) = drop n data"
      using True by simp
    also have "[0..<n - i] = 0 # map Suc [0..<n - Suc i]"
      using True by (simp add: map_Suc_upt upt_conv_Cons Suc_diff_Suc)
    then have "(take i data @ [?b]) @ map (\<lambda>t. ucast (draws (Suc k + t) AND 0xFF)) [0..<n - Suc i]
        @ drop n data =
      take i data @ map (\<lambda>t. ucast (draws (k + t) AND 0xFF)) [0..<n - i] @ drop n data"
      by simp
    finally show ?thesis .
  next
    case False
    then have "fill_bytes draws n i k data = data"
      by (subst fill_bytes.simps) simp
    then show ?thesis using False "1.prems" by simp
  qed
qed

text \<open>The random content: whole words, then single bytes.\<close>

definition random_content :: "(nat \<Rightarrow> u64) \<Rightarrow> nat \<Rightarrow> byte list" where
  "random_content draws n =
     concat (map (\<lambda>t. store_u64 (draws t)) [0..<word_count n])
     @ map (\<lambda>t. ucast (draws (word_count n + t) AND 0xFF)) [0..<n - 8 * word_count n]"

lemma length_concat_store: "length (concat (map (\<lambda>t. store_u64 (f t)) xs)) = 8 * length xs"
  by (induction xs) simp_all

lemma word_count_le: "8 * word_count n \<le> n"
  by (simp add: word_count_def)

lemma length_random_content [simp]: "length (random_content draws n) = n"
  using word_count_le [of n]
  by (simp add: random_content_def length_concat_store del: length_concat)

lemma filled_content:
  assumes "n \<le> m"
  shows "(case fill_words draws n 0 0 (replicate m 0) of (i, k, data) \<Rightarrow>
            fill_bytes draws n i k data) = random_content draws n @ replicate (m - n) 0"
proof -
  let ?w = "word_count n"
  let ?c = "concat (map (\<lambda>t. store_u64 (draws t)) [0..<?w])"
  let ?d = "?c @ replicate (m - 8 * ?w) (0 :: byte)"
  have wle: "8 * ?w \<le> n" by (rule word_count_le)
  have len: "length ?c = 8 * ?w" by (simp add: length_concat_store del: length_concat)
  have "fill_words draws n 0 0 (replicate m 0) = (8 * ?w, ?w, ?d)"
    using assms by (subst fill_words_eq) simp_all
  moreover have "fill_bytes draws n (8 * ?w) ?w ?d =
      take (8 * ?w) ?d @ map (\<lambda>t. ucast (draws (?w + t) AND 0xFF)) [0..<n - 8 * ?w] @ drop n ?d"
    by (rule fill_bytes_eq) (use assms wle len in auto)
  moreover have "take (8 * ?w) ?d = ?c" using len by simp
  moreover have "drop n ?d = replicate (m - n) 0" using len wle assms by simp
  ultimately show ?thesis by (simp add: random_content_def)
qed

lemma write_tail:
  "m \<le> length cs \<Longrightarrow> length data = c + m \<Longrightarrow>
   foldl (\<lambda>d j. d[c + j := cs ! j]) data [0..<m] = take c data @ take m cs"
proof (induction m arbitrary: data)
  case (Suc m)
  let ?f = "\<lambda>d j. d[c + j := cs ! j]"
  have keep: "foldl ?f (xs @ [x]) [0..<k] = foldl ?f xs [0..<k] @ [x]"
    if "length xs = c + m" "k \<le> m" for xs x k
    using that
  proof (induction k)
    case (Suc k)
    have "length (foldl ?f xs [0..<k]) = length xs" for k
      by (induction k) simp_all
    with Suc show ?case by (simp add: list_update_append)
  qed simp
  obtain xs x where data: "data = xs @ [x]" and xs: "length xs = c + m"
    using Suc.prems(2) by (cases data rule: rev_cases) auto
  have "foldl ?f xs [0..<m] = take c xs @ take m cs"
    using Suc.prems(1) xs by (intro Suc.IH) auto
  then show ?case
    using Suc.prems xs by (simp add: data keep list_update_append take_Suc_conv_app_nth)
qed simp

lemma GenerateDataToSend_eq:
  "GenerateDataToSend draws data_size =
     (if CHECKSUM_SIZE < data_size then
        let content = random_content draws (data_size - CHECKSUM_SIZE)
        in Val (content @ map (parity content (data_size - CHECKSUM_SIZE)) [0..<CHECKSUM_SIZE])
      else Abort ''data_size must be greater than CHECKSUM_SIZE'')"
proof (cases "CHECKSUM_SIZE < data_size")
  case True
  let ?n = "data_size - CHECKSUM_SIZE"
  let ?c = "random_content draws ?n"
  let ?d = "?c @ replicate CHECKSUM_SIZE (0 :: byte)"
  obtain i k data where fw: "fill_words draws ?n 0 0 (replicate data_size 0) = (i, k, data)"
    by (cases "fill_words draws ?n 0 0 (replicate data_size 0)") auto
  have fb: "fill_bytes draws ?n i k data = ?d"
    using filled_content [of ?n data_size draws] fw True by simp
  have cs: "CalcChecksum ?d data_size = Val (checksum_loop ?d ?n)"
    using True by (simp add: CalcChecksum_eq)
  have "parity ?d ?n j = parity ?c ?n j" for j
    by (rule parity_cong) (simp add: nth_append)
  then have cl: "checksum_loop ?d ?n = map (parity ?c ?n) [0..<CHECKSUM_SIZE]"
    by (intro nth_equalityI) (simp_all add: checksum_loop_nth)
  have wt: "foldl (\<lambda>d j. d[?n + j := checksum_loop ?d ?n ! j]) ?d [0..<CHECKSUM_SIZE] =
      ?c @ checksum_loop ?d ?n"
    by (subst write_tail) simp_all
  have "GenerateDataToSend draws data_size = Val (?c @ checksum_loop ?d ?n)"
    using True unfolding GenerateDataToSend_def
    by (simp only: Let_def fw case_prod_conv fb cs obind.simps wt not_True_eq_False if_True if_False)
  then show ?thesis using True cl by (simp add: Let_def)
qed (simp add: GenerateDataToSend_def)

text \<open>
  A successful generation is exactly the random content (whole words while at
  least nine bytes are left, then single bytes) followed by the parity of its 128 columns; a size
  of at most 128 aborts.
\<close>

theorem generate_layout:
  "GenerateDataToSend draws data_size =
     (if CHECKSUM_SIZE < data_size then
        let content = random_content draws (data_size - CHECKSUM_SIZE)
        in Val (content @ map (parity content (data_size - CHECKSUM_SIZE)) [0..<CHECKSUM_SIZE])
      else Abort ''data_size must be greater than CHECKSUM_SIZE'')"
  by (rule GenerateDataToSend_eq)

lemma generate_Val:
  assumes "CHECKSUM_SIZE < n"
  obtains d where "GenerateDataToSend draws n = Val d" "length d = n"
  using GenerateDataToSend_eq [of draws n] assms by (auto simp: Let_def)

lemma generate_parity:
  assumes "GenerateDataToSend draws n = Val d" and "j < CHECKSUM_SIZE"
  shows "d ! (n - CHECKSUM_SIZE + j) = parity d (n - CHECKSUM_SIZE) j"
proof -
  let ?m = "n - CHECKSUM_SIZE"
  let ?c = "random_content draws ?m"
  have d: "d = ?c @ map (parity ?c ?m) [0..<CHECKSUM_SIZE]"
    using assms(1) by (simp add: GenerateDataToSend_eq Let_def split: if_splits)
  have "parity d ?m j = parity ?c ?m j"
    by (rule parity_cong) (simp add: d nth_append)
  then show ?thesis using assms(2) by (simp add: d nth_append)
qed

lemma generate_verify:
  assumes "GenerateDataToSend draws n = Val d"
  shows "CHECKSUM_SIZE < n \<and> length d = n \<and> VerifyDataReceived d n = Val True"
proof -
  have n: "CHECKSUM_SIZE < n"
    using assms by (simp add: GenerateDataToSend_def split: if_splits)
  moreover have "length d = n" using generate_Val [OF n, of draws] assms by simp
  ultimately show ?thesis
    using generate_parity [OF assms] by (simp add: VerifyDataReceived_eq [OF n])
qed

section \<open>Properties of the payload\<close>

text \<open>
  C29 (roundtrip). Generated data verifies: for every size above 128 and every sequence of random
  draws, generation succeeds, produces exactly that many bytes, and verification accepts them.
\<close>

theorem generate_verify_roundtrip:
  assumes "CHECKSUM_SIZE < data_size"
  shows "\<exists>d. GenerateDataToSend draws data_size = Val d \<and> length d = data_size
           \<and> VerifyDataReceived d data_size = Val True"
proof -
  obtain d where "GenerateDataToSend draws data_size = Val d" using generate_Val [OF assms] by blast
  then show ?thesis using generate_verify by blast
qed

theorem generate_verify_roundtrip_witness:
  "\<exists>d. GenerateDataToSend (\<lambda>k. of_nat (k * k)) 147 = Val d \<and> length d = 147
        \<and> VerifyDataReceived d 147 = Val True"
  using generate_verify_roundtrip [of 147 "\<lambda>k. of_nat (k * k)"] by (simp add: CHECKSUM_SIZE_def)

lemma xor_cancel: "a XOR (a XOR b) = b" for a b :: byte
  by (simp flip: xor.assoc)

lemma xor_eq_0_iff: "a XOR b = 0 \<longleftrightarrow> a = b" for a b :: byte
proof
  assume "a XOR b = 0"
  then have "a XOR (a XOR b) = a" by simp
  then show "a = b" by (simp only: xor_cancel)
qed simp

lemma xor_eq_self_iff: "a XOR b = a \<longleftrightarrow> b = 0" for a b :: byte
proof
  assume "a XOR b = a"
  then have "a XOR (a XOR b) = a XOR a" by simp
  then show "b = 0" by (simp add: xor_cancel)
qed simp

lemma verify_change:
  assumes n: "CHECKSUM_SIZE < n" and ok: "VerifyDataReceived d n = Val True"
    and i: "i < n" and b: "b \<noteq> d ! i"
  shows "VerifyDataReceived (d[i := b]) n = Val False"
proof -
  let ?m = "n - CHECKSUM_SIZE"
  let ?d = "d[i := b]"
  have len: "length d = n" and par: "\<And>j. j < CHECKSUM_SIZE \<Longrightarrow> d ! (?m + j) = parity d ?m j"
    using ok by (simp_all add: VerifyDataReceived_eq [OF n])
  have "\<exists>j<CHECKSUM_SIZE. ?d ! (?m + j) \<noteq> parity ?d ?m j"
  proof (cases "i < ?m")
    case True
    let ?j = "i mod CHECKSUM_SIZE"
    have j: "?j < CHECKSUM_SIZE" by (simp add: CHECKSUM_SIZE_def)
    have "parity ?d ?m ?j = parity d ?m ?j XOR (d ! i XOR b)"
      using True len by (simp add: parity_list_update)
    then have "parity ?d ?m ?j \<noteq> parity d ?m ?j"
      using b by (simp add: xor_eq_self_iff xor_eq_0_iff)
    moreover have "?d ! (?m + ?j) = d ! (?m + ?j)" using True by simp
    ultimately show ?thesis using par [OF j] j by metis
  next
    case False
    let ?j = "i - ?m"
    have j: "?j < CHECKSUM_SIZE" and eq: "?m + ?j = i" using False i n by auto
    have "parity ?d ?m ?j = parity d ?m ?j"
      by (rule parity_cong) (use False in simp)
    then have "?d ! (?m + ?j) \<noteq> parity ?d ?m ?j"
      using par [OF j] b len i unfolding eq by simp
    then show ?thesis using j by blast
  qed
  then show ?thesis using n by (auto simp: VerifyDataReceived_eq)
qed

text \<open>
  C36 (safety). Verification detects every single corrupted byte, in the content or in the checksum
  itself: if data verifies, the same data with one byte replaced by a different value does not.
\<close>

theorem verify_detects_single_byte:
  assumes "CHECKSUM_SIZE < data_size" and "VerifyDataReceived d data_size = Val True"
    and "i < data_size" and "b \<noteq> d ! i"
  shows "VerifyDataReceived (d[i := b]) data_size = Val False"
  using assms by (rule verify_change)

lemma verify_zeros: "CHECKSUM_SIZE < n \<Longrightarrow> VerifyDataReceived (replicate n 0) n = Val True"
  by (simp add: VerifyDataReceived_eq parity_zero)

theorem verify_detects_single_byte_witness:
  "VerifyDataReceived ((replicate 130 0)[1 := 255]) 130 = Val False"
  by (rule verify_detects_single_byte) (simp_all add: CHECKSUM_SIZE_def verify_zeros)

lemma verify_swap:
  assumes n: "CHECKSUM_SIZE < n" and len: "length d = n"
    and i: "i < n - CHECKSUM_SIZE" and j: "j < n - CHECKSUM_SIZE"
    and ij: "i mod CHECKSUM_SIZE = j mod CHECKSUM_SIZE"
  shows "VerifyDataReceived (d[i := d ! j, j := d ! i]) n = VerifyDataReceived d n"
proof -
  let ?m = "n - CHECKSUM_SIZE"
  let ?d = "d[i := d ! j, j := d ! i]"
  have par: "parity ?d ?m k = parity d ?m k" for k
  proof (cases "i = j")
    case False
    then show ?thesis
      using i j len ij by (simp add: parity_list_update ac_simps)
  qed (use j len in simp)
  have "?d ! (?m + k) = d ! (?m + k)" for k
    using i j by simp
  with par show ?thesis by (simp add: VerifyDataReceived_eq [OF n])
qed

text \<open>
  C37 (bounds). What verification cannot see. A buffer of zeros that nothing was ever written to
  verifies, and so does any data in which two content bytes of the same column (in particular two
  whole 128-byte blocks) changed places: the check says nothing about order, and nothing about
  whether a transfer happened when the destination was cleared before.
\<close>

theorem verify_blind_spots:
  assumes "CHECKSUM_SIZE < data_size"
  shows "VerifyDataReceived (replicate data_size 0) data_size = Val True
     \<and> (\<forall>d i j. length d = data_size \<longrightarrow> i < data_size - CHECKSUM_SIZE \<longrightarrow>
          j < data_size - CHECKSUM_SIZE \<longrightarrow> i mod CHECKSUM_SIZE = j mod CHECKSUM_SIZE \<longrightarrow>
          VerifyDataReceived (d[i := d ! j, j := d ! i]) data_size = VerifyDataReceived d data_size)"
  using assms by (simp add: verify_zeros verify_swap)

definition two_tone :: "byte list" where
  "two_tone = replicate 100 1 @ replicate 200 2"

theorem verify_blind_spots_witness:
  "VerifyDataReceived (replicate 300 0) 300 = Val True
   \<and> VerifyDataReceived (two_tone[3 := two_tone ! 131, 131 := two_tone ! 3]) 300
     = VerifyDataReceived two_tone 300"
proof -
  have n: "CHECKSUM_SIZE < 300" by (simp add: CHECKSUM_SIZE_def)
  have "length two_tone = 300" "(3::nat) < 300 - CHECKSUM_SIZE" "(131::nat) < 300 - CHECKSUM_SIZE"
    "(3::nat) mod CHECKSUM_SIZE = 131 mod CHECKSUM_SIZE"
    by (simp_all add: CHECKSUM_SIZE_def two_tone_def)
  then show ?thesis using verify_blind_spots [OF n] by blast
qed

text \<open>
  The size errors: at most 128 bytes aborts in all three functions, and data of
  another length than announced is rejected without a read outside the vector.
\<close>

theorem payload_size_errors:
  "(if data_size \<le> CHECKSUM_SIZE then
      CalcChecksum d data_size = Abort ''data_size must be greater than CHECKSUM_SIZE''
      \<and> GenerateDataToSend draws data_size = Abort ''data_size must be greater than CHECKSUM_SIZE''
      \<and> VerifyDataReceived d data_size = Abort ''data_size must be greater than CHECKSUM_SIZE''
    else if length d = data_size then VerifyDataReceived d data_size \<in> {Val True, Val False}
    else VerifyDataReceived d data_size = Val False)"
proof (cases "CHECKSUM_SIZE < data_size")
  case True
  then show ?thesis by (auto simp: VerifyDataReceived_eq)
qed (simp add: CalcChecksum_def GenerateDataToSend_def VerifyDataReceived_def)

section \<open>Unique names\<close>

lemma nat_div_mod_inj:
  fixes a b :: nat
  assumes "\<And>k. k < n \<Longrightarrow> a div 16 ^ k mod 16 = b div 16 ^ k mod 16"
    and "a < 16 ^ n" and "b < 16 ^ n"
  shows "a = b"
  using assms
proof (induction n arbitrary: a b)
  case (Suc n)
  have "a div 16 = b div 16"
  proof (rule Suc.IH)
    show "a div 16 div 16 ^ k mod 16 = b div 16 div 16 ^ k mod 16" if "k < n" for k
      using Suc.prems(1) [of "Suc k"] that by (simp add: div_mult2_eq)
  qed (use Suc.prems in auto)
  moreover have "a mod 16 = b mod 16" using Suc.prems(1) [of 0] by simp
  ultimately show ?case by (metis div_mult_mod_eq)
qed simp

lemma hex8_inject: "hex8 v = hex8 w \<longleftrightarrow> v = w"
proof
  assume eq: "hex8 v = hex8 w"
  have same: "unat v div 16 ^ k mod 16 = unat w div 16 ^ k mod 16" if "k < 8" for k
  proof -
    have "hex8 v ! (7 - k) = hex8 w ! (7 - k)" using eq by simp
    moreover have "hex8 u ! (7 - k) = hex_char (unat u div 16 ^ k mod 16)" for u
      using that by (simp add: hex8_def) (subst rev_nth, simp_all)
    ultimately show ?thesis by (simp add: inj_hex_char)
  qed
  have small: "unat u < 16 ^ 8" for u :: u32
    using unsigned_less [of u] by simp
  have "unat v = unat w" by (rule nat_div_mod_inj [OF same small small])
  then show "v = w" by (rule unsigned_word_eqI)
qed simp

text \<open>
  A generated name has nine characters more than its base, keeps the base's
  extension (the text from the last dot on) and the text before it, and different random values
  give different names.
\<close>

theorem unique_name_spec:
  "length (GenerateUniqueName r base) = length base + 9
   \<and> (GenerateUniqueName r base = GenerateUniqueName r' base \<longleftrightarrow> r = r')
   \<and> (case rfind_char (CHR ''.'') base of
        None \<Rightarrow> take (length base) (GenerateUniqueName r base) = base
      | Some i \<Rightarrow> take i (GenerateUniqueName r base) = take i base
               \<and> drop (i + 9) (GenerateUniqueName r base) = drop i base)"
proof (cases "rfind_char (CHR ''.'') base")
  case None
  then show ?thesis by (simp add: GenerateUniqueName_def hex8_inject)
next
  case (Some i)
  then have "i < length base" by (blast dest: rfind_char_SomeD)
  with Some show ?thesis by (simp add: GenerateUniqueName_def hex8_inject)
qed

end
