(* ===== verification/Cli_Options.thy ===== *)
theory Cli_Options
  imports Getopt_Utils Aklog Common_Data
begin

text \<open>
  The command line of \<^verbatim>\<open>akbench/akbench.cc\<close>: the option variables, the loop over the options,
  the check for one positional argument and the validation before anything runs.
  \<^verbatim>\<open>getopt_long\<close> itself is a parameter: the options it returns with their arguments, and the
  words it leaves from \<^verbatim>\<open>optind\<close> on.
\<close>

section \<open>Option variables\<close>

record options =
  g_type :: string
  g_num_iterations :: int
  g_num_warmups :: int
  g_loop_size :: "u64 option"
  g_data_size :: u64
  g_buffer_size :: "u64 option"
  g_num_threads :: "u64 option"
  g_log_level_name :: string
  g_json_output :: bool

definition initial_options :: options where
  "initial_options =
     \<lparr>g_type = '''', g_num_iterations = 10, g_num_warmups = 3, g_loop_size = None,
      g_data_size = 2 ^ 30, g_buffer_size = None, g_num_threads = None,
      g_log_level_name = ''WARNING'', g_json_output = False\<rparr>"

definition DEFAULT_BUFFER_SIZE :: u64 where
  "DEFAULT_BUFFER_SIZE = 2 ^ 20"

section \<open>Usage\<close>

definition PrintUsage :: "string \<Rightarrow> string list" where
  "PrintUsage program_name =
    [''Usage: '' @ program_name @ '' <TYPE> [OPTIONS]'',
     '''',
     ''Unified benchmark tool for measuring system performance.'',
     '''',
     ''Arguments:'',
     ''  TYPE                         Benchmark type to run (required)'',
     '''',
     ''Latency Tests (measure operation latency in nanoseconds):'',
     ''  latency_atomic               Atomic variable synchronization between threads'',
     ''  latency_atomic_rel_acq       Atomic operations with relaxed-acquire memory ordering'',
     ''  latency_barrier              Barrier between process synchronization.'',
     ''                               We use this barrier in bandwidth tests.'',
     ''  latency_condition_variable   Condition variable wait/notify operations'',
     ''  latency_semaphore            Semaphore wait/post operations'',
     ''  latency_statfs               statfs() filesystem syscall'',
     ''  latency_fstatfs              fstatfs() filesystem syscall'',
     ''  latency_getpid               getpid() syscall'',
     ''  latency_all                  Run all latency benchmarks'',
     '''',
     ''Bandwidth Tests (measure data transfer rate in GiByte/sec):'',
     ''  bandwidth_memcpy             Memory copy using memcpy()'',
     ''  bandwidth_memcpy_mt          Multi-threaded memory copy'',
     ''  bandwidth_tcp                TCP socket communication'',
     ''  bandwidth_uds                Unix domain socket communication'',
     ''  bandwidth_pipe               Anonymous pipe communication'',
     ''  bandwidth_fifo               Named pipe (FIFO) communication'',
     ''  bandwidth_mq                 POSIX message queue communication'',
     ''  bandwidth_mmap               Memory-mapped file communication'',
     ''                               Use double buffering.'',
     ''  bandwidth_shm                Shared memory communication.'',
     ''                               Use double buffering.'',
     ''  bandwidth_all                Run all bandwidth benchmarks'',
     '''',
     ''Combined:'',
     ''  all                          Run all latency and bandwidth benchmarks'',
     '''',
     ''Options:'',
     ''  -i, --num-iterations=N       Number of measurement iterations (default: 10)'',
     ''  -w, --num-warmups=N          Number of warmup iterations (default: 3)'',
     ''  -l, --loop-size=N            Loop size for latency tests'',
     ''                               The default value varies depending on the test.'',
     ''  -d, --data-size=SIZE         Data size in bytes for bandwidth tests (default: 1GB)'',
     ''  -b, --buffer-size=SIZE       Buffer size in bytes for I/O operations (default: 1MB)'',
     ''                               Not applicable to memcpy benchmarks'',
     ''  -n, --num-threads=N          Number of threads for bandwidth_memcpy_mt'',
     ''  --log-level=LEVEL            Log level: INFO, DEBUG, WARNING, ERROR (default: WARNING)'',
     ''  --json-output                Output results in JSON format'',
     ''  -h, --help                   Display this help message'']"

section \<open>The loop over the options\<close>

text \<open>
  What was written to \<^verbatim>\<open>stdout\<close> and \<^verbatim>\<open>stderr\<close>, and how it went on; a \<^verbatim>\<open>return n\<close> of
  \<^verbatim>\<open>main\<close> is \<open>Exit n\<close>.
\<close>

type_synonym 'a cli = "string list \<times> string list \<times> 'a outcome"

definition usage_error :: "string \<Rightarrow> string \<Rightarrow> 'a cli" where
  "usage_error program_name msg = ([], PrintErrorAndExit program_name msg)"

definition opt_code :: "char \<Rightarrow> int" where
  "opt_code c = of_char c"

text \<open>\<^verbatim>\<open>std::optional::value\<close>\<close>

definition opt_value :: "'a option \<Rightarrow> 'a outcome" where
  "opt_value x = (case x of Some v \<Rightarrow> Val v | None \<Rightarrow> Throw ''bad optional access'')"

text \<open>The assignments of the \<^verbatim>\<open>switch\<close>.\<close>

definition assign_option :: "int \<Rightarrow> string \<Rightarrow> options \<Rightarrow> options outcome" where
  "assign_option opt optarg st =
     (if opt = opt_code (CHR ''i'') then
        obind (ParseInt optarg) (\<lambda>n. Val (st\<lparr>g_num_iterations := n\<rparr>))
      else if opt = opt_code (CHR ''w'') then
        obind (ParseInt optarg) (\<lambda>n. Val (st\<lparr>g_num_warmups := n\<rparr>))
      else if opt = opt_code (CHR ''l'') then
        obind (ParseUint64 optarg) (\<lambda>v. Val (st\<lparr>g_loop_size := v\<rparr>))
      else if opt = opt_code (CHR ''d'') then
        obind (obind (ParseUint64 optarg) opt_value) (\<lambda>v. Val (st\<lparr>g_data_size := v\<rparr>))
      else if opt = opt_code (CHR ''b'') then
        obind (ParseUint64 optarg) (\<lambda>v. Val (st\<lparr>g_buffer_size := v\<rparr>))
      else if opt = opt_code (CHR ''n'') then
        obind (ParseUint64 optarg) (\<lambda>v. Val (st\<lparr>g_num_threads := v\<rparr>))
      else if opt = 256 then Val (st\<lparr>g_log_level_name := optarg\<rparr>)
      else if opt = 257 then Val (st\<lparr>g_json_output := True\<rparr>)
      else Throw ''Unknown option'')"

text \<open>
  An exception is caught and ends the program as a usage error, as the \<^verbatim>\<open>default\<close> of the
  \<^verbatim>\<open>switch\<close> does.
\<close>

fun parse_options :: "string \<Rightarrow> (int \<times> string) list \<Rightarrow> options \<Rightarrow> options cli" where
  "parse_options program_name [] st = ([], [], Val st)"
| "parse_options program_name ((opt, optarg) # opts) st =
     (if opt = opt_code (CHR ''h'') then (PrintUsage program_name, [], Exit 0)
      else if opt = opt_code (CHR ''?'') then ([], [], Exit 1)
      else
        case assign_option opt optarg st of
          Val st' \<Rightarrow> parse_options program_name opts st'
        | Throw e \<Rightarrow> usage_error program_name e
        | Abort m \<Rightarrow> ([], [], Abort m)
        | Exit n \<Rightarrow> ([], [], Exit n)
        | Undefined m \<Rightarrow> ([], [], Undefined m)
        | Blocked \<Rightarrow> ([], [], Blocked))"

text \<open>The words after the options: exactly the benchmark type.\<close>

definition positional_type :: "string \<Rightarrow> string list \<Rightarrow> string cli" where
  "positional_type program_name words =
     (case words of
        [] \<Rightarrow> usage_error program_name ''Missing required argument: TYPE''
      | [t] \<Rightarrow> ([], [], Val t)
      | t # extra # _ \<Rightarrow>
          usage_error program_name (''Too many arguments. Expected only TYPE, got: '' @ extra))"

section \<open>Validation\<close>

datatype option_error =
    MissingType
  | TooFewIterations int
  | BufferNotApplicable string
  | ThreadsNotApplicable
  | NoThreads
  | NoBuffer u64
  | BufferLargerThanData u64 u64
  | DataTooSmall u64
  | InvalidLogLevel string

definition is_bandwidth :: "string \<Rightarrow> bool" where
  "is_bandwidth type \<longleftrightarrow> find_str ''bandwidth_'' type = Some 0"

definition is_latency :: "string \<Rightarrow> bool" where
  "is_latency type \<longleftrightarrow> find_str ''latency_'' type = Some 0"

definition is_memcpy :: "string \<Rightarrow> bool" where
  "is_memcpy type \<longleftrightarrow> type = ''bandwidth_memcpy'' \<or> type = ''bandwidth_memcpy_mt''"

definition cli_log_level :: "string \<Rightarrow> LogLevel option" where
  "cli_log_level name =
     (if name = ''INFO'' then Some INFO
      else if name = ''DEBUG'' then Some DEBUG
      else if name = ''WARNING'' then Some WARNING
      else if name = ''ERROR'' then Some ERROR
      else None)"

text \<open>The first error that is found, or the buffer size and the log level to run with.\<close>

definition check_options :: "options \<Rightarrow> option_error + u64 \<times> LogLevel" where
  "check_options st =
    (let type = g_type st;
         buffer_size = (case g_buffer_size st of Some b \<Rightarrow> b | None \<Rightarrow> DEFAULT_BUFFER_SIZE)
     in if type = [] then Inl MissingType
        else if g_num_iterations st < 3 then Inl (TooFewIterations (g_num_iterations st))
        else if is_memcpy type \<and> g_buffer_size st \<noteq> None then Inl (BufferNotApplicable type)
        else if type \<noteq> ''bandwidth_memcpy_mt'' \<and> g_num_threads st \<noteq> None then Inl ThreadsNotApplicable
        else if type = ''bandwidth_memcpy_mt'' \<and> g_num_threads st = Some 0 then Inl NoThreads
        else if is_bandwidth type \<and> \<not> is_memcpy type \<and> buffer_size = 0 then Inl (NoBuffer buffer_size)
        else if is_bandwidth type \<and> \<not> is_memcpy type \<and> g_data_size st < buffer_size
          then Inl (BufferLargerThanData buffer_size (g_data_size st))
        else if (is_bandwidth type \<or> type = ''bandwidth_all'' \<or> type = ''all'')
            \<and> unat (g_data_size st) \<le> CHECKSUM_SIZE
          then Inl (DataTooSmall (g_data_size st))
        else case cli_log_level (g_log_level_name st) of
               None \<Rightarrow> Inl (InvalidLogLevel (g_log_level_name st))
             | Some level \<Rightarrow> Inr (buffer_size, level))"

section \<open>Facts\<close>

lemma opt_codes_distinct [simp]:
  "opt_code (CHR ''i'') = 105" "opt_code (CHR ''w'') = 119" "opt_code (CHR ''l'') = 108"
  "opt_code (CHR ''d'') = 100" "opt_code (CHR ''b'') = 98" "opt_code (CHR ''n'') = 110"
  "opt_code (CHR ''h'') = 104" "opt_code (CHR ''?'') = 63"
  by (simp_all add: opt_code_def)

lemma parse_options_append:
  "parse_options p xs st = ([], [], Val st') \<Longrightarrow> parse_options p (xs @ ys) st = parse_options p ys st'"
proof (induction p xs st rule: parse_options.induct)
  case (2 p opt optarg opts st)
  then show ?case by (auto simp: usage_error_def PrintErrorAndExit_def split: if_splits outcome.splits)
qed simp

text \<open>A command line that sets every option variable.\<close>

definition optional_arg :: "int \<Rightarrow> u64 option \<Rightarrow> (int \<times> string) list" where
  "optional_arg opt x = (case x of None \<Rightarrow> [] | Some v \<Rightarrow> [(opt, dec_nat (unat v))])"

definition command_line :: "options \<Rightarrow> (int \<times> string) list" where
  "command_line st =
     [(105, dec_int (g_num_iterations st)), (119, dec_int (g_num_warmups st))]
     @ optional_arg 108 (g_loop_size st)
     @ [(100, dec_nat (unat (g_data_size st)))]
     @ optional_arg 98 (g_buffer_size st) @ optional_arg 110 (g_num_threads st)
     @ [(256, g_log_level_name st)]
     @ (if g_json_output st then [(257, [])] else [])"

lemma parse_optional_arg:
  assumes "opt = 108 \<or> opt = 98 \<or> opt = 110"
  shows "parse_options p (optional_arg opt x @ rest) st = parse_options p rest
    (case x of None \<Rightarrow> st
     | Some v \<Rightarrow> if opt = 108 then st\<lparr>g_loop_size := Some v\<rparr>
               else if opt = 98 then st\<lparr>g_buffer_size := Some v\<rparr>
               else st\<lparr>g_num_threads := Some v\<rparr>)"
  using assms
  by (cases x) (auto simp: optional_arg_def assign_option_def ParseUint64_dec)

lemma parse_command_line:
  assumes "int32_range (g_num_iterations st)" and "int32_range (g_num_warmups st)"
  shows "parse_options p (command_line st) initial_options = ([], [], Val (st\<lparr>g_type := []\<rparr>))"
  using assms
  by (cases st; cases "g_loop_size st"; cases "g_buffer_size st"; cases "g_num_threads st")
    (simp_all add: command_line_def assign_option_def ParseInt_dec ParseUint64_dec opt_value_def
      parse_optional_arg initial_options_def)

lemma is_bandwidth_all [simp]: "is_bandwidth ''bandwidth_all''" "\<not> is_bandwidth ''all''"
    "\<not> is_memcpy ''all''" "\<not> is_memcpy ''bandwidth_all''"
  by (simp_all add: is_bandwidth_def is_memcpy_def starts_with_def)

lemma latency_not_bandwidth: "is_latency t \<Longrightarrow> \<not> is_bandwidth t \<and> t \<noteq> [] \<and> t \<noteq> ''all''"
  by (cases t) (auto simp: is_latency_def is_bandwidth_def find_str_0_iff starts_with_def)

lemma check_step: "(if bad then Inl e else rest) = Inr x \<longleftrightarrow> \<not> bad \<and> rest = Inr x"
  by simp

lemma check_options_Inr:
  "check_options st = Inr (b, level) \<longleftrightarrow>
     g_type st \<noteq> [] \<and> \<not> g_num_iterations st < 3
     \<and> \<not> (is_memcpy (g_type st) \<and> g_buffer_size st \<noteq> None)
     \<and> \<not> (g_type st \<noteq> ''bandwidth_memcpy_mt'' \<and> g_num_threads st \<noteq> None)
     \<and> \<not> (g_type st = ''bandwidth_memcpy_mt'' \<and> g_num_threads st = Some 0)
     \<and> \<not> (is_bandwidth (g_type st) \<and> \<not> is_memcpy (g_type st) \<and> b = 0)
     \<and> \<not> (is_bandwidth (g_type st) \<and> \<not> is_memcpy (g_type st) \<and> g_data_size st < b)
     \<and> \<not> ((is_bandwidth (g_type st) \<or> g_type st = ''bandwidth_all'' \<or> g_type st = ''all'')
          \<and> unat (g_data_size st) \<le> CHECKSUM_SIZE)
     \<and> b = (case g_buffer_size st of Some b \<Rightarrow> b | None \<Rightarrow> DEFAULT_BUFFER_SIZE)
     \<and> cli_log_level (g_log_level_name st) = Some level"
proof -
  define buffer where "buffer = (case g_buffer_size st of Some b \<Rightarrow> b | None \<Rightarrow> DEFAULT_BUFFER_SIZE)"
  have last: "(case cli_log_level (g_log_level_name st) of
        None \<Rightarrow> Inl (InvalidLogLevel (g_log_level_name st)) | Some l \<Rightarrow> Inr (buffer, l)) = Inr (b, level)
      \<longleftrightarrow> b = buffer \<and> cli_log_level (g_log_level_name st) = Some level"
    by (auto split: option.split)
  show ?thesis
    unfolding check_options_def Let_def check_step buffer_def [symmetric] last by blast
qed

section \<open>Properties\<close>

text \<open>
  C24 (roundtrip). Every setting of the option variables can be written as a command line, with
  numbers in decimal, and parsing it gives the setting back, without any output.
\<close>

theorem options_roundtrip:
  assumes "int32_range (g_num_iterations st)" and "int32_range (g_num_warmups st)"
  shows "parse_options p (command_line st) initial_options = ([], [], Val (st\<lparr>g_type := []\<rparr>))"
  by (rule parse_command_line [OF assms])

theorem options_roundtrip_witness:
  "parse_options ''akbench'' [(105, dec_int 5), (119, dec_int (-1)), (100, dec_nat (unat (4096 :: u64))),
      (256, ''ERROR'')] initial_options =
    ([], [], Val (initial_options\<lparr>g_num_iterations := 5, g_num_warmups := -1, g_data_size := 4096,
       g_log_level_name := ''ERROR''\<rparr>))"
  using options_roundtrip [of "initial_options\<lparr>g_num_iterations := 5, g_num_warmups := -1,
      g_data_size := 4096, g_log_level_name := ''ERROR''\<rparr>" "''akbench''"]
  by (simp add: int32_range_def command_line_def optional_arg_def initial_options_def)

text \<open>
  C25 (safety). What validation guarantees, exactly: at least three iterations; a positive number of
  threads, and only for the multi-threaded \<^verbatim>\<open>memcpy\<close>; for every bandwidth type data larger than its
  checksum, and for those with a buffer one that is not empty and not larger than the data.
\<close>

theorem validation_guarantees:
  "check_options st = Inr (b, level) \<longleftrightarrow>
     g_type st \<noteq> [] \<and> 3 \<le> g_num_iterations st
     \<and> b = (case g_buffer_size st of Some b \<Rightarrow> b | None \<Rightarrow> DEFAULT_BUFFER_SIZE)
     \<and> cli_log_level (g_log_level_name st) = Some level
     \<and> (is_memcpy (g_type st) \<longrightarrow> g_buffer_size st = None)
     \<and> (g_num_threads st \<noteq> None \<longrightarrow> g_type st = ''bandwidth_memcpy_mt'' \<and> g_num_threads st \<noteq> Some 0)
     \<and> (is_bandwidth (g_type st) \<and> \<not> is_memcpy (g_type st) \<longrightarrow> b \<noteq> 0 \<and> b \<le> g_data_size st)
     \<and> (is_bandwidth (g_type st) \<or> g_type st = ''all'' \<longrightarrow> CHECKSUM_SIZE < unat (g_data_size st))"
proof -
  have bw: "is_bandwidth t \<or> t = ''bandwidth_all'' \<or> t = ''all'' \<longleftrightarrow> is_bandwidth t \<or> t = ''all''" for t
    by auto
  have threads: "\<not> (t \<noteq> m \<and> x \<noteq> None) \<and> \<not> (t = m \<and> x = Some 0) \<longleftrightarrow> (x \<noteq> None \<longrightarrow> t = m \<and> x \<noteq> Some 0)"
    for t m :: string and x :: "u64 option" by auto
  show ?thesis
    unfolding check_options_Inr bw threads [symmetric]
    by (simp only: de_Morgan_conj not_less not_le imp_conv_disj not_not) argo
qed

theorem validation_guarantees_witness:
  "CHECKSUM_SIZE < unat (g_data_size (initial_options\<lparr>g_type := ''bandwidth_tcp''\<rparr>))"
proof -
  have "check_options (initial_options\<lparr>g_type := ''bandwidth_tcp''\<rparr>) = Inr (DEFAULT_BUFFER_SIZE, WARNING)"
    unfolding check_options_Inr
    by (simp add: initial_options_def cli_log_level_def is_memcpy_def DEFAULT_BUFFER_SIZE_def
        CHECKSUM_SIZE_def word_less_nat_alt)
  then show ?thesis
    unfolding validation_guarantees by (simp add: is_bandwidth_def starts_with_def)
qed

text \<open>
  What validation lets through: for the combined run no buffer size is looked at, not
  even 0; the number of warm-up rounds is never looked at, not even when it is negative; and any
  word after \<^verbatim>\<open>latency_\<close> is a type.
\<close>

theorem validation_gaps:
  "(g_type st = ''all'' \<and> check_options st = Inr (b, level) \<longrightarrow>
      check_options (st\<lparr>g_buffer_size := Some 0\<rparr>) = Inr (0, level)) \<and>
   check_options (st\<lparr>g_num_warmups := w\<rparr>) = check_options st \<and>
   check_options (initial_options\<lparr>g_type := ''latency_'' @ word\<rparr>) = Inr (DEFAULT_BUFFER_SIZE, WARNING)"
proof (intro conjI impI)
  assume "g_type st = ''all'' \<and> check_options st = Inr (b, level)"
  then have t: "g_type st = ''all''" and ok: "check_options st = Inr (b, level)" by blast+
  show "check_options (st\<lparr>g_buffer_size := Some 0\<rparr>) = Inr (0, level)"
    using ok unfolding check_options_Inr by (simp add: t)
next
  have "is_latency (''latency_'' @ word)" by (simp add: is_latency_def find_str_0_iff starts_with_def)
  from latency_not_bandwidth [OF this]
  show "check_options (initial_options\<lparr>g_type := ''latency_'' @ word\<rparr>) = Inr (DEFAULT_BUFFER_SIZE, WARNING)"
    unfolding check_options_Inr
    by (simp add: initial_options_def cli_log_level_def is_memcpy_def)
next
  show "check_options (st\<lparr>g_num_warmups := w\<rparr>) = check_options st"
    by (cases st) (simp only: check_options_def options.update_convs options.select_convs)
qed

theorem validation_gaps_witness:
  "check_options (initial_options\<lparr>g_type := ''all'', g_buffer_size := Some 0\<rparr>) = Inr (0, WARNING)"
proof -
  have "check_options (initial_options\<lparr>g_type := ''all''\<rparr>) = Inr (DEFAULT_BUFFER_SIZE, WARNING)"
    unfolding check_options_Inr
    by (simp add: initial_options_def cli_log_level_def CHECKSUM_SIZE_def)
  then show ?thesis using validation_gaps [of "initial_options\<lparr>g_type := ''all''\<rparr>" _ WARNING] by simp
qed

end
