(* ===== verification/Common_Stats.thy ===== *)
theory Common_Stats
  imports Prelude Complex_Main
begin

text \<open>
  The statistics of \<^verbatim>\<open>akbench/common.cc\<close>: \<^verbatim>\<open>CalculateBandwidth\<close> and
  \<^verbatim>\<open>CalculateOneTripDuration\<close>.

  A \<^verbatim>\<open>double\<close> is a finite real, an infinity or not-a-number, and the operations are those of
  IEEE 754 on these values with exact arithmetic on the finite ones: rounding and the overflow of
  a finite result are not modelled, and zero has no sign (every divisor of the two functions is a
  size, a sum that starts at \<^verbatim>\<open>0.0\<close> or a square, so its zero is the positive one).
\<close>

section \<open>Doubles\<close>

datatype dbl = Fin real | PInf | NInf | NaN

fun dadd :: "dbl \<Rightarrow> dbl \<Rightarrow> dbl" where
  "dadd (Fin x) (Fin y) = Fin (x + y)"
| "dadd NaN _ = NaN"
| "dadd _ NaN = NaN"
| "dadd PInf NInf = NaN"
| "dadd NInf PInf = NaN"
| "dadd PInf _ = PInf"
| "dadd _ PInf = PInf"
| "dadd NInf _ = NInf"
| "dadd _ NInf = NInf"

fun dneg :: "dbl \<Rightarrow> dbl" where
  "dneg (Fin x) = Fin (- x)"
| "dneg PInf = NInf"
| "dneg NInf = PInf"
| "dneg NaN = NaN"

definition dsub :: "dbl \<Rightarrow> dbl \<Rightarrow> dbl" where
  "dsub a b = dadd a (dneg b)"

text \<open>The sign of a double; not-a-number has none.\<close>

fun dsgn :: "dbl \<Rightarrow> real" where
  "dsgn (Fin x) = sgn x"
| "dsgn PInf = 1"
| "dsgn NInf = - 1"
| "dsgn NaN = 0"

definition signed_inf :: "real \<Rightarrow> dbl" where
  "signed_inf s = (if s = 0 then NaN else if 0 < s then PInf else NInf)"

fun dmul :: "dbl \<Rightarrow> dbl \<Rightarrow> dbl" where
  "dmul (Fin x) (Fin y) = Fin (x * y)"
| "dmul NaN _ = NaN"
| "dmul _ NaN = NaN"
| "dmul a b = signed_inf (dsgn a * dsgn b)"

fun ddiv :: "dbl \<Rightarrow> dbl \<Rightarrow> dbl" where
  "ddiv (Fin x) (Fin y) = (if y = 0 then signed_inf (sgn x) else Fin (x / y))"
| "ddiv NaN _ = NaN"
| "ddiv _ NaN = NaN"
| "ddiv (Fin x) _ = Fin 0"
| "ddiv a (Fin y) = (if y = 0 then a else signed_inf (dsgn a * sgn y))"
| "ddiv _ _ = NaN"

fun dsqrt :: "dbl \<Rightarrow> dbl" where
  "dsqrt (Fin x) = (if x < 0 then NaN else Fin (sqrt x))"
| "dsqrt PInf = PInf"
| "dsqrt NInf = NaN"
| "dsqrt NaN = NaN"

definition dsquare :: "dbl \<Rightarrow> dbl" where
  "dsquare a = dmul a a"

definition double_of_nat :: "nat \<Rightarrow> dbl" where
  "double_of_nat n = Fin (real n)"

definition accumulate :: "dbl list \<Rightarrow> dbl" where
  "accumulate ds = foldl dadd (Fin 0) ds"

definition sum_squares :: "dbl \<Rightarrow> dbl list \<Rightarrow> dbl" where
  "sum_squares mean ds = foldl (\<lambda>v d. dadd v (dsquare (dsub d mean))) (Fin 0) ds"

section \<open>The two functions\<close>

record BenchmarkResult =
  average :: dbl
  stddev :: dbl

definition CalculateBandwidth :: "dbl list \<Rightarrow> int \<Rightarrow> nat \<Rightarrow> BenchmarkResult outcome" where
  "CalculateBandwidth durations num_iterations data_size =
     (if (of_nat (length durations) :: u64) \<noteq> of_int num_iterations
      then Abort ''durations.size() must equal num_iterations''
      else if \<not> 1 \<le> num_iterations
      then Abort ''num_iterations must be at least 1''
      else
        let n = double_of_nat (length durations);
            average_duration = ddiv (accumulate durations) n;
            variance = ddiv (sum_squares average_duration durations) n;
            stddev_duration = dsqrt variance;
            nbytes = double_of_nat data_size;
            bandwidth = ddiv nbytes average_duration;
            bandwidth_stddev =
              ddiv (dmul nbytes stddev_duration) (dmul average_duration average_duration)
        in Val \<lparr>average = bandwidth, stddev = bandwidth_stddev\<rparr>)"

definition CalculateOneTripDuration :: "dbl list \<Rightarrow> BenchmarkResult outcome" where
  "CalculateOneTripDuration durations =
     (if \<not> 1 \<le> length durations
      then Abort ''durations.size() must be at least 1''
      else if length durations = 1
      then Undefined ''iterator range begin() + 1 .. end() - 1 of one element''
      else
        let n = double_of_nat (length durations);
            inner = butlast (tl durations);
            average_duration = ddiv (accumulate inner) n;
            variance = ddiv (sum_squares average_duration inner) n;
            stddev_duration = dsqrt variance
        in Val \<lparr>average = average_duration, stddev = stddev_duration\<rparr>)"

section \<open>Finite measurements\<close>

definition mean :: "real list \<Rightarrow> real" where
  "mean xs = sum_list xs / real (length xs)"

definition spread :: "real \<Rightarrow> real list \<Rightarrow> real" where
  "spread m xs = sum_list (map (\<lambda>x. (x - m)\<^sup>2) xs)"

lemma foldl_dadd_Fin: "foldl dadd (Fin a) (map Fin xs) = Fin (a + sum_list xs)"
  by (induction xs arbitrary: a) (simp_all add: add.assoc)

lemma accumulate_Fin [simp]: "accumulate (map Fin xs) = Fin (sum_list xs)"
  by (simp add: accumulate_def foldl_dadd_Fin)

lemma dsub_Fin [simp]: "dsub (Fin x) (Fin y) = Fin (x - y)"
  by (simp add: dsub_def)

lemma dsquare_Fin [simp]: "dsquare (Fin x) = Fin (x\<^sup>2)"
  by (simp add: dsquare_def power2_eq_square)

lemma foldl_squares_Fin:
  "foldl (\<lambda>v d. dadd v (dsquare (dsub d (Fin m)))) (Fin a) (map Fin xs) = Fin (a + spread m xs)"
  by (induction xs arbitrary: a) (simp_all add: spread_def add.assoc)

lemma sum_squares_Fin [simp]: "sum_squares (Fin m) (map Fin xs) = Fin (spread m xs)"
  by (simp add: sum_squares_def foldl_squares_Fin)

lemma spread_nonneg [simp]: "0 \<le> spread m xs"
  by (auto simp: spread_def intro!: sum_list_nonneg)

lemma spread_replicate: "spread m (replicate n c) = real n * (c - m)\<^sup>2"
  by (simp add: spread_def sum_list_replicate)

lemma size_check:
  assumes "length ds < 2 ^ 63" and "int32_range i"
  shows "(of_nat (length ds) :: u64) = of_int i \<longleftrightarrow> int (length ds) = i"
proof
  assume eq: "(of_nat (length ds) :: u64) = of_int i"
  have "int (length ds) mod 2 ^ 64 = i mod 2 ^ 64"
    using arg_cong [OF eq, of uint] by (simp add: uint_word_of_int unsigned_of_nat take_bit_eq_mod of_nat_mod)
  moreover have "int (length ds) < 2 ^ 63" using assms(1) by (simp flip: of_nat_less_iff)
  moreover have "- (2 ^ 31) \<le> i" "i < 2 ^ 31" using assms(2) by (simp_all add: int32_range_def)
  moreover have "i mod 2 ^ 64 = (if 0 \<le> i then i else i + 2 ^ 64)"
    if "- (2 ^ 31) \<le> i" "i < 2 ^ 31"
  proof (cases "0 \<le> i")
    case False
    then have "(i + 2 ^ 64) mod 2 ^ 64 = i + 2 ^ 64" using that by (intro mod_pos_pos_trivial) auto
    then show ?thesis using False by simp
  qed (use that in simp)
  ultimately show "int (length ds) = i" by (simp split: if_splits)
qed auto

lemma size_check_nat:
  assumes "length ds < 2 ^ 31"
  shows "(of_nat (length ds) :: u64) = of_int (int (length ds))"
  by simp

section \<open>Bandwidth\<close>

lemma CalculateBandwidth_Fin:
  assumes "xs \<noteq> []" and "sum_list xs \<noteq> 0"
  shows "CalculateBandwidth (map Fin xs) (int (length xs)) nbytes =
     Val \<lparr>average = Fin (real nbytes / mean xs),
          stddev = Fin (real nbytes * sqrt (spread (mean xs) xs / real (length xs)) / (mean xs)\<^sup>2)\<rparr>"
proof -
  have n: "real (length xs) \<noteq> 0" and m: "mean xs \<noteq> 0" using assms by (simp_all add: mean_def)
  have one: "1 \<le> int (length xs)" using assms(1) by (cases xs) simp_all
  have avg: "ddiv (Fin (sum_list xs)) (Fin (real (length xs))) = Fin (mean xs)"
    using n by (simp add: mean_def)
  have var: "ddiv (Fin (spread (mean xs) xs)) (Fin (real (length xs))) =
      Fin (spread (mean xs) xs / real (length xs))"
    using n by simp
  have dev: "dsqrt (Fin (spread (mean xs) xs / real (length xs))) =
      Fin (sqrt (spread (mean xs) xs / real (length xs)))"
    by (simp add: not_less)
  have bw: "ddiv (Fin r) (Fin (mean xs)) = Fin (r / mean xs)"
    "ddiv (Fin r) (Fin (mean xs * mean xs)) = Fin (r / (mean xs)\<^sup>2)" for r
    using m by (simp_all add: power2_eq_square)
  show ?thesis
    using one
    by (simp add: CalculateBandwidth_def Let_def double_of_nat_def avg var dev bw
        del: ddiv.simps dsqrt.simps)
qed

text \<open>
  Over finite durations with a non-zero sum the reported bandwidth is the size
  divided by the mean duration (the harmonic mean of the per-iteration bandwidths), and the
  reported deviation is the population standard deviation of the durations scaled by
  size / mean\<open>\<^sup>2\<close>.
\<close>

theorem bandwidth_of_finite_durations:
  assumes "xs \<noteq> []" and "sum_list xs \<noteq> 0"
  shows "CalculateBandwidth (map Fin xs) (int (length xs)) nbytes =
     Val \<lparr>average = Fin (real nbytes / mean xs),
          stddev = Fin (real nbytes * sqrt (spread (mean xs) xs / real (length xs)) / (mean xs)\<^sup>2)\<rparr>"
  using assms by (rule CalculateBandwidth_Fin)

theorem bandwidth_of_finite_durations_witness:
  "CalculateBandwidth [Fin 2, Fin 4, Fin 2, Fin 4] 4 600 =
     Val \<lparr>average = Fin 200, stddev = Fin (200 / 3)\<rparr>"
  using bandwidth_of_finite_durations [of "[2, 4, 2, 4]" 600]
  by (simp add: mean_def spread_def power2_eq_square)

lemma mean_bounds:
  assumes "xs \<noteq> []" and "\<forall>x\<in>set xs. lo \<le> x \<and> x \<le> hi"
  shows "lo \<le> mean xs" "mean xs \<le> hi"
proof -
  have "real (length xs) * lo \<le> sum_list xs \<and> sum_list xs \<le> real (length xs) * hi"
    using assms(2) by (induction xs) (auto simp: algebra_simps)
  moreover have "0 < real (length xs)" using assms(1) by simp
  ultimately show "lo \<le> mean xs" "mean xs \<le> hi"
    unfolding mean_def by (simp_all add: field_simps)
qed

text \<open>
  When every measured duration lies between two positive bounds, the reported
  bandwidth lies between the size over the longest and the size over the shortest duration.
\<close>

theorem bandwidth_bounds:
  assumes "xs \<noteq> []" and "0 < lo" and "\<forall>x\<in>set xs. lo \<le> x \<and> x \<le> hi"
  shows "\<exists>b s. CalculateBandwidth (map Fin xs) (int (length xs)) nbytes =
             Val \<lparr>average = Fin b, stddev = Fin s\<rparr>
           \<and> real nbytes / hi \<le> b \<and> b \<le> real nbytes / lo \<and> 0 \<le> s"
proof -
  have m: "lo \<le> mean xs" "mean xs \<le> hi" by (rule mean_bounds [OF assms(1,3)])+
  then have pos: "0 < mean xs" using assms(2) by simp
  then have sum: "sum_list xs \<noteq> 0" by (auto simp: mean_def)
  have "real nbytes / hi \<le> real nbytes / mean xs" "real nbytes / mean xs \<le> real nbytes / lo"
    using m pos assms(2) by (auto intro!: divide_left_mono mult_pos_pos)
  moreover have "0 \<le> real nbytes * sqrt (spread (mean xs) xs / real (length xs)) / (mean xs)\<^sup>2"
    by simp
  ultimately show ?thesis
    using CalculateBandwidth_Fin [OF assms(1) sum, of nbytes] by blast
qed

theorem bandwidth_bounds_witness:
  "\<exists>b s. CalculateBandwidth [Fin 2, Fin 3] 2 12 = Val \<lparr>average = Fin b, stddev = Fin s\<rparr>
       \<and> 12 / 3 \<le> b \<and> b \<le> 12 / 2 \<and> 0 \<le> s"
  using bandwidth_bounds [of "[2, 3]" 2 3 12] by simp

lemma accumulate_zeros: "accumulate (replicate n (Fin 0)) = Fin 0"
proof -
  have "accumulate (map Fin (replicate n 0)) = Fin 0"
    by (simp only: accumulate_Fin sum_list_replicate) simp
  then show ?thesis by simp
qed

lemma sum_squares_zeros: "sum_squares (Fin 0) (replicate n (Fin 0)) = Fin 0"
proof -
  have "sum_squares (Fin 0) (map Fin (replicate n 0)) = Fin 0"
    by (simp only: sum_squares_Fin spread_replicate) simp
  then show ?thesis by simp
qed

text \<open>
  The error paths of both functions: a number of durations other than
  \<^verbatim>\<open>num_iterations\<close> aborts, no duration at all aborts, a clock that did not advance yields an
  infinite bandwidth with no deviation rather than a failure, and a single latency sample runs the
  iterators past each other.
\<close>

theorem statistics_errors:
  assumes "length ds < 2 ^ 63" and "int32_range n"
  shows "(int (length ds) \<noteq> n \<longrightarrow>
            CalculateBandwidth ds n nbytes = Abort ''durations.size() must equal num_iterations'')
       \<and> (n = 0 \<and> ds = [] \<longrightarrow>
            CalculateBandwidth ds n nbytes = Abort ''num_iterations must be at least 1'')
       \<and> (1 \<le> n \<and> 0 < nbytes \<and> ds = replicate (nat n) (Fin 0) \<longrightarrow>
            CalculateBandwidth ds n nbytes = Val \<lparr>average = PInf, stddev = NaN\<rparr>)
       \<and> CalculateOneTripDuration [] = Abort ''durations.size() must be at least 1''
       \<and> CalculateOneTripDuration [d] = Undefined ''iterator range begin() + 1 .. end() - 1 of one element''"
proof (intro conjI impI)
  assume "int (length ds) \<noteq> n"
  then show "CalculateBandwidth ds n nbytes = Abort ''durations.size() must equal num_iterations''"
    using size_check [OF assms] by (simp add: CalculateBandwidth_def)
next
  assume "n = 0 \<and> ds = []"
  then show "CalculateBandwidth ds n nbytes = Abort ''num_iterations must be at least 1''"
    by (simp add: CalculateBandwidth_def)
next
  assume h: "1 \<le> n \<and> 0 < nbytes \<and> ds = replicate (nat n) (Fin 0)"
  then show "CalculateBandwidth ds n nbytes = Val \<lparr>average = PInf, stddev = NaN\<rparr>"
    by (simp add: CalculateBandwidth_def accumulate_zeros sum_squares_zeros double_of_nat_def
        Let_def signed_inf_def)
qed (simp_all add: CalculateOneTripDuration_def)

theorem statistics_errors_witness:
  "CalculateBandwidth [Fin 1] 3 10 = Abort ''durations.size() must equal num_iterations''
   \<and> CalculateBandwidth [] 0 10 = Abort ''num_iterations must be at least 1''
   \<and> CalculateBandwidth [Fin 0, Fin 0] 2 10 = Val \<lparr>average = PInf, stddev = NaN\<rparr>"
proof -
  have r: "replicate 2 (Fin 0) = [Fin 0, Fin 0]" by (simp add: numeral_2_eq_2)
  show ?thesis
    using statistics_errors [of "[Fin 1]" 3 10] statistics_errors [of "[]" 0 10]
      statistics_errors [of "[Fin 0, Fin 0]" 2 10]
    by (simp add: int32_range_def r)
qed

section \<open>One-trip duration\<close>

lemma CalculateOneTripDuration_Fin:
  assumes "2 \<le> length xs"
  shows "CalculateOneTripDuration (map Fin xs) =
     (let inner = butlast (tl xs); m = sum_list inner / real (length xs)
      in Val \<lparr>average = Fin m, stddev = Fin (sqrt (spread m inner / real (length xs)))\<rparr>)"
proof -
  have n: "real (length xs) \<noteq> 0" and n1: "length xs \<noteq> 1" "1 \<le> length xs" using assms by auto
  let ?i = "butlast (tl xs)" and ?m = "sum_list (butlast (tl xs)) / real (length xs)"
  have inner: "butlast (tl (map Fin xs)) = map Fin ?i" by (simp add: map_butlast map_tl)
  have nonneg: "\<not> spread ?m ?i / real (length xs) < 0" by (simp add: not_less)
  show ?thesis
    using n n1 nonneg assms
    by (simp add: CalculateOneTripDuration_def inner Let_def double_of_nat_def)
qed

text \<open>
  C38 (functional). The latency statistic drops the first and the last sample but divides by the
  number of all of them: the reported average is the mean of the remaining samples scaled by
  \<open>(n - 2) / n\<close>. For a perfectly constant latency \<open>c\<close> it reports \<open>c * (n - 2) / n\<close> (0.8
  of the latency at the default of ten iterations) and a deviation that is not zero.
\<close>

theorem one_trip_average_is_scaled:
  assumes "2 < length xs"
  shows "(\<exists>s. CalculateOneTripDuration (map Fin xs) =
      Val \<lparr>average = Fin (mean (butlast (tl xs)) * (real (length xs) - 2) / real (length xs)),
           stddev = s\<rparr>)
   \<and> CalculateOneTripDuration (replicate (length xs) (Fin c)) =
      Val \<lparr>average = Fin (c * (real (length xs) - 2) / real (length xs)),
           stddev = Fin (sqrt ((real (length xs) - 2) / real (length xs)) * \<bar>2 * c / real (length xs)\<bar>)\<rparr>"
proof
  let ?n = "real (length xs)"
  have n: "?n \<noteq> 0" "2 < ?n" using assms by auto
  have len: "real (length (butlast (tl xs))) = ?n - 2" using assms by simp
  have "sum_list (butlast (tl xs)) = mean (butlast (tl xs)) * (?n - 2)"
    using len n by (simp add: mean_def)
  then show "\<exists>s. CalculateOneTripDuration (map Fin xs) =
      Val \<lparr>average = Fin (mean (butlast (tl xs)) * (?n - 2) / ?n), stddev = s\<rparr>"
    using assms by (simp add: CalculateOneTripDuration_Fin Let_def)
next
  let ?n = "real (length xs)"
  have n: "?n \<noteq> 0" "2 < ?n" using assms by auto
  have rep: "butlast (tl (replicate (length xs) c)) = replicate (length xs - 2) c"
    by (metis One_nat_def butlast_conv_take diff_Suc_Suc diff_diff_left length_replicate
        one_add_one take_replicate tl_replicate min.absorb1 diff_le_self plus_1_eq_Suc)
  have m: "sum_list (replicate (length xs - 2) c) / ?n = c * (?n - 2) / ?n"
    using assms by (simp add: sum_list_replicate of_nat_diff)
  have "c - c * (?n - 2) / ?n = 2 * c / ?n" using n by (simp add: field_simps)
  then have "spread (c * (?n - 2) / ?n) (replicate (length xs - 2) c) / ?n =
      (?n - 2) / ?n * (2 * c / ?n)\<^sup>2"
    using assms by (simp add: spread_replicate of_nat_diff)
  then have sq: "sqrt (spread (c * (?n - 2) / ?n) (replicate (length xs - 2) c) / ?n) =
      sqrt ((?n - 2) / ?n) * \<bar>2 * c / ?n\<bar>"
    by (simp only: real_sqrt_mult real_sqrt_abs)
  have "CalculateOneTripDuration (map Fin (replicate (length xs) c)) =
      Val \<lparr>average = Fin (c * (?n - 2) / ?n),
           stddev = Fin (sqrt ((?n - 2) / ?n) * \<bar>2 * c / ?n\<bar>)\<rparr>"
    using assms by (subst CalculateOneTripDuration_Fin) (simp_all only: length_replicate Let_def rep m sq)
  then show "CalculateOneTripDuration (replicate (length xs) (Fin c)) =
      Val \<lparr>average = Fin (c * (?n - 2) / ?n),
           stddev = Fin (sqrt ((?n - 2) / ?n) * \<bar>2 * c / ?n\<bar>)\<rparr>"
    by simp
qed

theorem one_trip_average_is_scaled_witness:
  "\<exists>s. CalculateOneTripDuration (replicate 10 (Fin 5)) = Val \<lparr>average = Fin 4, stddev = s\<rparr>"
  using one_trip_average_is_scaled [of "replicate 10 0" 5] by simp

end
