(* ===== verification/Json_Output.thy ===== *)
theory Json_Output
  imports Common_Stats Text_Format
begin

text \<open>
  The result table of \<^verbatim>\<open>akbench/akbench.cc\<close> and how it is printed: \<^verbatim>\<open>std::map\<close> as an
  association list that is strictly sorted by name, the three functions that print JSON, and the two
  that choose between JSON and plain text. Printed text is a list of lines. The texts of a
  \<^verbatim>\<open>double\<close> in the formats \<^verbatim>\<open>{:e}\<close> and \<^verbatim>\<open>{:.3f}\<close> are parameters.
\<close>

section \<open>The result table\<close>

type_synonym 'a name_map = "(string \<times> 'a) list"

text \<open>\<^verbatim>\<open>results[name] = result\<close>\<close>

fun map_put :: "string \<Rightarrow> 'a \<Rightarrow> 'a name_map \<Rightarrow> 'a name_map" where
  "map_put k v [] = [(k, v)]"
| "map_put k v ((k', v') # m) =
     (if k < k' then (k, v) # (k', v') # m
      else if k = k' then (k, v) # m
      else (k', v') # map_put k v m)"

text \<open>\<^verbatim>\<open>default_loop_sizes.at(name)\<close>\<close>

definition map_at :: "'a name_map \<Rightarrow> string \<Rightarrow> 'a outcome" where
  "map_at m k = (case map_of m k of Some v \<Rightarrow> Val v | None \<Rightarrow> Throw ''map::at'')"

definition sorted_names :: "'a name_map \<Rightarrow> bool" where
  "sorted_names m \<longleftrightarrow> sorted_wrt (<) (map fst m)"

lemma set_map_put: "set (map fst (map_put k v m)) = insert k (set (map fst m))"
  by (induction k v m rule: map_put.induct) auto

lemma sorted_map_put: "sorted_names m \<Longrightarrow> sorted_names (map_put k v m)"
proof (induction k v m rule: map_put.induct)
  case (2 k v k' v' m)
  then have "sorted_names m" "\<forall>x\<in>set (map fst m). k' < x" by (simp_all add: sorted_names_def)
  then show ?case using 2 set_map_put [of k v m]
    by (auto simp: sorted_names_def not_less le_less)
qed (simp add: sorted_names_def)

lemma map_of_map_put: "map_of (map_put k v m) = (map_of m)(k \<mapsto> v)"
  by (induction k v m rule: map_put.induct) (auto simp: fun_eq_iff)

section \<open>Lines of text\<close>

definition quoted :: "string \<Rightarrow> string" where
  "quoted s = CHR 0x22 # s @ [CHR 0x22]"

text \<open>A JSON member of an object, up to the comma.\<close>

definition member_line :: "string \<Rightarrow> string \<Rightarrow> string" where
  "member_line key text = quoted key @ '': '' @ text"

type_synonym named_results = "(string \<times> BenchmarkResult) list"

definition OutputJsonResult ::
  "(dbl \<Rightarrow> string) \<Rightarrow> string \<Rightarrow> BenchmarkResult \<Rightarrow> string \<Rightarrow> string list" where
  "OutputJsonResult e_text name result unit =
     [''{'',
      ''  '' @ member_line ''name'' (quoted name) @ '','',
      ''  '' @ member_line ''average'' (e_text (average result)) @ '','',
      ''  '' @ member_line ''stddev'' (e_text (stddev result)) @ '','',
      ''  '' @ member_line ''unit'' (quoted unit),
      ''}'']"

definition OutputJsonResults :: "(dbl \<Rightarrow> string) \<Rightarrow> named_results \<Rightarrow> string \<Rightarrow> string list" where
  "OutputJsonResults e_text results unit =
     [''[''] @
     concat (map (\<lambda>i.
       let (name, result) = results ! i
       in [''  {'',
           ''    '' @ member_line ''name'' (quoted name) @ '','',
           ''    '' @ member_line ''average'' (e_text (average result)) @ '','',
           ''    '' @ member_line ''stddev'' (e_text (stddev result)) @ '','',
           ''    '' @ member_line ''unit'' (quoted unit),
           if i < length results - 1 then ''  },'' else ''  }'']) [0..<length results]) @
     ['']'']"

definition dictionary_array :: "(dbl \<Rightarrow> string) \<Rightarrow> named_results \<Rightarrow> string \<Rightarrow> string list" where
  "dictionary_array e_text results unit =
     concat (map (\<lambda>i.
       let (name, result) = results ! i
       in [''    {'',
           ''      '' @ member_line ''name'' (quoted name) @ '','',
           ''      '' @ member_line ''average'' (e_text (average result)) @ '','',
           ''      '' @ member_line ''stddev'' (e_text (stddev result)) @ '','',
           ''      '' @ member_line ''unit'' (quoted unit),
           if i < length results - 1 then ''    },'' else ''    }'']) [0..<length results])"

definition OutputJsonDictionary ::
  "(dbl \<Rightarrow> string) \<Rightarrow> named_results \<Rightarrow> named_results \<Rightarrow> string list" where
  "OutputJsonDictionary e_text latency_results bandwidth_results =
     [''{''] @
     [''  '' @ member_line ''latency'' ''[''] @
     dictionary_array e_text latency_results ''sec'' @
     [''  ],''] @
     [''  '' @ member_line ''bandwidth'' ''[''] @
     dictionary_array e_text bandwidth_results ''Byte/sec'' @
     [''  ]''] @
     [''}'']"

text \<open>The plus-minus sign in UTF-8.\<close>

definition plus_minus :: string where
  "plus_minus = [CHR 0xC2, CHR 0xB1]"

definition OutputLatencyResults ::
  "(dbl \<Rightarrow> string) \<Rightarrow> (dbl \<Rightarrow> string) \<Rightarrow> named_results \<Rightarrow> bool \<Rightarrow> string list" where
  "OutputLatencyResults e_text f_text results json_output =
     (if results = [] then []
      else if json_output then OutputJsonResults e_text results ''sec''
      else map (\<lambda>(name, result).
             name @ '': '' @ f_text (dmul (average result) (Fin 1000000000)) @ '' '' @ plus_minus @ '' ''
               @ f_text (dmul (stddev result) (Fin 1000000000)) @ '' ns'') results)"

definition OutputBandwidthResults ::
  "(dbl \<Rightarrow> string) \<Rightarrow> (dbl \<Rightarrow> string) \<Rightarrow> named_results \<Rightarrow> bool \<Rightarrow> string list" where
  "OutputBandwidthResults e_text f_text results json_output =
     (if results = [] then []
      else if json_output then OutputJsonResults e_text results ''Byte/sec''
      else map (\<lambda>(name, result).
             name @ '': '' @ f_text (ddiv (average result) (double_of_nat (2 ^ 30))) @ '' '' @ plus_minus
               @ '' '' @ f_text (ddiv (stddev result) (double_of_nat (2 ^ 30))) @ '' GiByte/sec'') results)"

section \<open>A reference printer for JSON\<close>

datatype json = JString string | JNumber string | JArray "json list" | JObject "(string \<times> json) list"

text \<open>Items one after the other, a comma after each but the last.\<close>

fun with_commas :: "string list list \<Rightarrow> string list" where
  "with_commas [] = []"
| "with_commas [ls] = ls"
| "with_commas (ls # ls' # lss) = butlast ls @ [last ls @ '',''] @ with_commas (ls' # lss)"

definition indent :: "string list \<Rightarrow> string list" where
  "indent = map (\<lambda>l. ''  '' @ l)"

definition on_first :: "string \<Rightarrow> string list \<Rightarrow> string list" where
  "on_first p ls = (case ls of [] \<Rightarrow> [] | l # ls' \<Rightarrow> (p @ l) # ls')"

fun json_lines :: "json \<Rightarrow> string list" where
  "json_lines (JString s) = [quoted s]"
| "json_lines (JNumber s) = [s]"
| "json_lines (JArray js) = [''[''] @ indent (with_commas (map json_lines js)) @ ['']'']"
| "json_lines (JObject ms) =
     [''{''] @ indent (with_commas (map (\<lambda>(k, j). on_first (quoted k @ '': '') (json_lines j)) ms)) @ [''}'']"

definition json_result :: "(dbl \<Rightarrow> string) \<Rightarrow> string \<Rightarrow> string \<times> BenchmarkResult \<Rightarrow> json" where
  "json_result e_text unit nr =
     JObject [(''name'', JString (fst nr)), (''average'', JNumber (e_text (average (snd nr)))),
              (''stddev'', JNumber (e_text (stddev (snd nr)))), (''unit'', JString unit)]"

lemma json_lines_result:
  "json_lines (json_result e_text unit (name, result)) = OutputJsonResult e_text name result unit"
  by (simp add: json_result_def OutputJsonResult_def indent_def on_first_def member_line_def)

text \<open>A loop over the indices that compares with the last one puts the commas where they belong.\<close>

lemma with_commas_index:
  "concat (map (\<lambda>i. body (xs ! i) @ [if i < length xs - 1 then final @ '','' else final]) [0..<length xs]) =
   with_commas (map (\<lambda>x. body x @ [final]) xs)"
proof (induction xs rule: induct_list012)
  case (3 x y zs)
  have "concat (map (\<lambda>i. body ((x # y # zs) ! i)
      @ [if i < length (x # y # zs) - 1 then final @ '','' else final]) [0..<length (x # y # zs)]) =
    body x @ [final @ '',''] @ concat (map (\<lambda>i. body ((y # zs) ! i)
      @ [if i < length (y # zs) - 1 then final @ '','' else final]) [0..<length (y # zs)])"
    by (simp add: map_upt_Suc del: upt_Suc)
  also have "\<dots> = body x @ [final @ '',''] @ with_commas (map (\<lambda>x. body x @ [final]) (y # zs))"
    by (simp only: 3)
  finally show ?case by simp
qed simp_all

lemma indent_with_commas: "indent (with_commas lss) = with_commas (map indent lss)" if "\<forall>ls\<in>set lss. ls \<noteq> []"
  using that
  by (induction lss rule: with_commas.induct)
    (auto simp: indent_def map_butlast last_map)

lemma indent_append [simp]: "indent (xs @ ys) = indent xs @ indent ys"
  by (simp add: indent_def)

text \<open>The lines of one result up to its closing brace.\<close>

definition result_body :: "(dbl \<Rightarrow> string) \<Rightarrow> string \<Rightarrow> string \<times> BenchmarkResult \<Rightarrow> string list" where
  "result_body e_text unit nr = butlast (OutputJsonResult e_text (fst nr) (snd nr) unit)"

lemma json_lines_body: "json_lines (json_result e_text unit nr) = result_body e_text unit nr @ [''}'']"
  using json_lines_result [of e_text unit "fst nr" "snd nr"]
  by (simp add: result_body_def OutputJsonResult_def)

lemma indented_results:
  "indent (with_commas (map (json_lines \<circ> json_result e_text unit) results)) =
   concat (map (\<lambda>i. indent (result_body e_text unit (results ! i))
       @ [if i < length results - 1 then ''  },'' else ''  }'']) [0..<length results])"
proof -
  have "indent (with_commas (map (json_lines \<circ> json_result e_text unit) results)) =
      with_commas (map (\<lambda>nr. indent (result_body e_text unit nr) @ [''  }'']) results)"
    by (subst indent_with_commas) (auto simp: json_lines_body o_def indent_def)
  then show ?thesis
    using with_commas_index [of "\<lambda>nr. indent (result_body e_text unit nr)" results "''  }''"]
    by (simp cong: if_cong)
qed

lemma OutputJsonResults_json:
  "OutputJsonResults e_text results unit = json_lines (JArray (map (json_result e_text unit) results))"
proof -
  have "OutputJsonResults e_text results unit =
    [''[''] @ concat (map (\<lambda>i. indent (result_body e_text unit (results ! i))
       @ [if i < length results - 1 then ''  },'' else ''  }'']) [0..<length results]) @ ['']'']"
    by (simp add: OutputJsonResults_def result_body_def OutputJsonResult_def indent_def Let_def
        case_prod_unfold)
  then show ?thesis using indented_results [of e_text unit results] by (simp add: o_def)
qed

lemma dictionary_array_json:
  "dictionary_array e_text results unit =
     indent (indent (with_commas (map (json_lines \<circ> json_result e_text unit) results)))"
proof -
  have "dictionary_array e_text results unit =
    concat (map (\<lambda>i. indent (indent (result_body e_text unit (results ! i))
       @ [if i < length results - 1 then ''  },'' else ''  }''])) [0..<length results])"
    unfolding dictionary_array_def
    by (intro arg_cong [where f = concat] map_cong refl)
      (auto simp: result_body_def OutputJsonResult_def indent_def Let_def split: prod.split)
  also have "\<dots> = indent (concat (map (\<lambda>i. indent (result_body e_text unit (results ! i))
       @ [if i < length results - 1 then ''  },'' else ''  }'']) [0..<length results]))"
    by (simp add: indent_def map_concat o_def)
  finally show ?thesis by (simp add: indented_results)
qed

section \<open>Properties\<close>

text \<open>
  C26 (equivalence). The printed JSON is that of a reference printer, for any number of results
  including none: a list of objects with the four members, and for the combined run one object
  with a list per kind of benchmark. Commas stand exactly between elements.
\<close>

theorem json_output_is_reference:
  "OutputJsonResult e_text name result unit = json_lines (json_result e_text unit (name, result)) \<and>
   OutputJsonResults e_text results unit = json_lines (JArray (map (json_result e_text unit) results)) \<and>
   OutputJsonDictionary e_text latency bandwidth = json_lines (JObject
     [(''latency'', JArray (map (json_result e_text ''sec'') latency)),
      (''bandwidth'', JArray (map (json_result e_text ''Byte/sec'') bandwidth))])"
proof (intro conjI)
  show "OutputJsonDictionary e_text latency bandwidth = json_lines (JObject
     [(''latency'', JArray (map (json_result e_text ''sec'') latency)),
      (''bandwidth'', JArray (map (json_result e_text ''Byte/sec'') bandwidth))])"
    by (simp add: OutputJsonDictionary_def dictionary_array_json on_first_def member_line_def
        butlast_append o_def) (simp add: indent_def)
qed (simp_all only: json_lines_result OutputJsonResults_json)

end
