(* ===== verification/Progress.thy ===== *)
theory Progress
  imports Main
begin

text \<open>
  Two contracts of transition systems that end. \<open>can_finish\<close>: from every reachable state the system
  can be brought to a final state, because some path always comes nearer to it; this is what can be
  said of processes that spin, where a scheduler may repeat a failed check for ever.
  \<open>bounded_progress\<close>: every single step advances a bounded rank, so every run ends, however it is
  scheduled.
\<close>

locale can_finish =
  fixes init :: 's
    and step :: "'s \<Rightarrow> 's \<Rightarrow> bool"
    and ok :: "'s \<Rightarrow> bool"
    and dist :: "'s \<Rightarrow> nat"
    and final :: "'s \<Rightarrow> bool"
  assumes ok_init: "ok init"
    and ok_step: "ok s \<Longrightarrow> step s t \<Longrightarrow> ok t"
    and nearer: "ok s \<Longrightarrow> \<not> final s \<Longrightarrow> \<exists>t. rtranclp step s t \<and> dist t < dist s"
begin

lemma ok_steps: "rtranclp step s t \<Longrightarrow> ok s \<Longrightarrow> ok t"
  by (induction rule: rtranclp_induct) (auto intro: ok_step)

lemma reachable_ok: "rtranclp step init s \<Longrightarrow> ok s"
  using ok_steps ok_init by blast

lemma finishes: "ok s \<Longrightarrow> \<exists>t. rtranclp step s t \<and> ok t \<and> final t"
proof (induction "dist s" arbitrary: s rule: less_induct)
  case less
  show ?case
  proof (cases "final s")
    case True
    then show ?thesis using less.prems by blast
  next
    case False
    then obtain t where "rtranclp step s t" "dist t < dist s" using nearer less.prems by blast
    then show ?thesis using less.hyps ok_steps less.prems by (meson rtranclp_trans)
  qed
qed

text \<open>In particular some step is possible as long as the state is not final.\<close>

lemma no_deadlock: "ok s \<Longrightarrow> \<not> final s \<Longrightarrow> \<exists>t. step s t"
  using nearer [of s] by (metis converse_rtranclpE less_irrefl)

end

locale bounded_progress =
  fixes init :: 's
    and step :: "'s \<Rightarrow> 's \<Rightarrow> bool"
    and ok :: "'s \<Rightarrow> bool"
    and rank :: "'s \<Rightarrow> nat"
    and bound :: nat
    and final :: "'s \<Rightarrow> bool"
  assumes init_ok: "ok init"
    and step_ok: "ok s \<Longrightarrow> step s t \<Longrightarrow> ok t"
    and advances: "ok s \<Longrightarrow> step s t \<Longrightarrow> rank s < rank t"
    and bounded: "ok s \<Longrightarrow> rank s \<le> bound"
    and enabled: "ok s \<Longrightarrow> \<not> final s \<Longrightarrow> \<exists>t. step s t"
begin

sublocale can_finish init step ok "\<lambda>s. bound - rank s" final
proof
  fix s
  assume s: "ok s" "\<not> final s"
  then obtain t where t: "step s t" using enabled by blast
  then have "rank s < rank t" "rank t \<le> bound" using s advances bounded step_ok by blast+
  then have "bound - rank t < bound - rank s" by linarith
  then show "\<exists>t. rtranclp step s t \<and> bound - rank t < bound - rank s" using t by blast
qed (use init_ok step_ok in auto)

lemma run_rank: "(step ^^ m) init s \<Longrightarrow> ok s \<and> m \<le> rank s"
proof (induction m arbitrary: s)
  case (Suc m)
  then obtain r where "ok r" "m \<le> rank r" "step r s" by auto
  then show ?case using advances step_ok by fastforce
qed (use init_ok in auto)

lemma run_bounded: "(step ^^ m) init s \<Longrightarrow> m \<le> bound"
  using run_rank bounded by (meson le_trans)

end

end
