(* ===== verification/Iterations.thy ===== *)
theory Iterations
  imports Common_Stats Common_Data
begin

text \<open>
  The \<^verbatim>\<open>for\<close> loop that every two-process benchmark runs on both sides:
  \<^verbatim>\<open>num_warmups + num_iterations\<close> rounds, of which the first \<^verbatim>\<open>num_warmups\<close> are not measured.
  What the kernel and the clock answer in each round is recorded in an environment of the round;
  a run that needs more rounds than were recorded is \<open>Blocked\<close>. The locale
  \<open>measured_rounds\<close> states what a round has to provide and derives, once for all transports,
  which durations a whole run collects and how it uses the barrier.
\<close>

section \<open>The loop\<close>

fun for_iterations :: "(int \<Rightarrow> 'e \<Rightarrow> 's \<Rightarrow> 's act) \<Rightarrow> int \<Rightarrow> int \<Rightarrow> 'e list \<Rightarrow> 's \<Rightarrow> 's act" where
  "for_iterations body bound iteration [] s = (if iteration < bound then ([], Blocked) else ret s)"
| "for_iterations body bound iteration (e # es) s =
     (if iteration < bound
      then abind (body iteration e s) (for_iterations body bound (iteration + 1) es)
      else ret s)"

text \<open>The bound is the sum of two \<^verbatim>\<open>int\<close> arguments.\<close>

definition benchmark_loop ::
  "(int \<Rightarrow> 'e \<Rightarrow> 's \<Rightarrow> 's act) \<Rightarrow> int \<Rightarrow> int \<Rightarrow> 'e list \<Rightarrow> 's \<Rightarrow> 's act" where
  "benchmark_loop body num_warmups num_iterations es s =
     abind (lift (add_int32 num_warmups num_iterations)) (\<lambda>bound. for_iterations body bound 0 es s)"

section \<open>Barrier traces\<close>

definition is_barrier :: "event \<Rightarrow> bool" where
  "is_barrier e = (case e of Call _ \<Rightarrow> False | _ \<Rightarrow> True)"

lemma is_barrier_simps [simp]:
  "is_barrier BarrierNew" "is_barrier BarrierWait" "is_barrier BarrierDelete"
  "is_barrier BarrierClear" "\<not> is_barrier (Call c)"
  by (simp_all add: is_barrier_def)

definition barrier_trace :: "event list \<Rightarrow> event list" where
  "barrier_trace = filter is_barrier"

lemma barrier_trace_simps [simp]:
  "barrier_trace [] = []"
  "barrier_trace (e # es) = (if is_barrier e then e # barrier_trace es else barrier_trace es)"
  "barrier_trace (xs @ ys) = barrier_trace xs @ barrier_trace ys"
  by (simp_all add: barrier_trace_def)

lemma barrier_trace_replicate_Call [simp]: "barrier_trace (replicate n (Call c)) = []"
  by (induction n) simp_all

text \<open>The barrier calls of a process that performs \<open>n\<close> rounds of a barrier in its lifetime.\<close>

definition barrier_lifetime :: "nat \<Rightarrow> event list" where
  "barrier_lifetime n = BarrierNew # replicate n BarrierWait @ [BarrierDelete]"

section \<open>Durations\<close>

lemma CalculateBandwidth_defined:
  "int (length ds) = n \<Longrightarrow> 1 \<le> n \<Longrightarrow> \<exists>r. CalculateBandwidth ds n nbytes = Val r"
  by (auto simp: CalculateBandwidth_def Let_def)

lemma CalculateBandwidth_count:
  assumes "int (length ds) \<noteq> n" and "length ds < 2 ^ 63" and "int32_range n"
  shows "CalculateBandwidth ds n nbytes = Abort ''durations.size() must equal num_iterations''"
  using assms size_check [OF assms(2,3)] by (simp add: CalculateBandwidth_def)

text \<open>The command line that the loops are meant for, with the rounds that were recorded for it.\<close>

definition counts_ok :: "int \<Rightarrow> int \<Rightarrow> nat \<Rightarrow> bool" where
  "counts_ok num_warmups num_iterations recorded \<longleftrightarrow>
     0 \<le> num_warmups \<and> 1 \<le> num_iterations \<and> int32_range (num_warmups + num_iterations)
     \<and> int recorded = num_warmups + num_iterations"

lemma counts_ok_nat: "counts_ok W N m \<Longrightarrow> nat (W + N) = m"
  by (auto simp: counts_ok_def)

section \<open>What a round provides\<close>

locale measured_rounds =
  fixes body :: "int \<Rightarrow> 'e \<Rightarrow> 's \<Rightarrow> 's act"
    and good :: "'e \<Rightarrow> bool"
    and inv :: "'s \<Rightarrow> bool"
    and durs :: "'s \<Rightarrow> dbl list"
    and elapsed :: "'e \<Rightarrow> dbl"
    and waits :: nat
    and num_warmups :: int
  assumes round_result: "good e \<Longrightarrow> inv s \<Longrightarrow>
      \<exists>s'. snd (body i e s) = Val s' \<and> inv s'
         \<and> durs s' = (if i < num_warmups then durs s else durs s @ [elapsed e])"
    and round_barrier: "good e \<Longrightarrow> inv s \<Longrightarrow>
      barrier_trace (fst (body i e s)) = replicate waits BarrierWait"
begin

lemma rounds:
  "list_all good es \<Longrightarrow> inv s \<Longrightarrow> i + int (length es) = bound \<Longrightarrow>
   \<exists>s' evs. for_iterations body bound i es s = (evs, Val s') \<and> inv s'
     \<and> durs s' = durs s @ map elapsed (drop (nat (num_warmups - i)) es)
     \<and> barrier_trace evs = replicate (waits * length es) BarrierWait"
proof (induction es arbitrary: s i)
  case Nil
  then show ?case by (simp add: ret_def)
next
  case (Cons e es)
  obtain s1 where s1: "snd (body i e s) = Val s1" "inv s1"
      "durs s1 = (if i < num_warmups then durs s else durs s @ [elapsed e])"
    using round_result [of e s i] Cons.prems by auto
  have tr: "barrier_trace (fst (body i e s)) = replicate waits BarrierWait"
    using round_barrier [of e s i] Cons.prems by simp
  obtain s' evs where rest: "for_iterations body bound (i + 1) es s1 = (evs, Val s')" "inv s'"
      "durs s' = durs s1 @ map elapsed (drop (nat (num_warmups - (i + 1))) es)"
      "barrier_trace evs = replicate (waits * length es) BarrierWait"
    using Cons.IH [of s1 "i + 1"] Cons.prems s1(2) by auto
  have here: "for_iterations body bound i (e # es) s = (fst (body i e s) @ evs, Val s')"
    using Cons.prems(3) s1(1) rest(1) by (cases "body i e s") simp
  have "map elapsed (drop (nat (num_warmups - i)) (e # es)) =
      (if i < num_warmups then [] else [elapsed e])
        @ map elapsed (drop (nat (num_warmups - (i + 1))) es)"
  proof (cases "i < num_warmups")
    case True
    then have "nat (num_warmups - i) = Suc (nat (num_warmups - (i + 1)))" by simp
    then show ?thesis using True by simp
  qed simp
  then show ?case
    using here rest s1(3) tr by (simp add: replicate_add)
qed

lemma benchmark:
  assumes "list_all good es" and "inv s" and "durs s = []"
    and "int (length es) = num_warmups + num_iterations"
    and "int32_range (num_warmups + num_iterations)"
  obtains s' evs where "benchmark_loop body num_warmups num_iterations es s = (evs, Val s')"
    and "inv s'" and "durs s' = map elapsed (drop (nat num_warmups) es)"
    and "barrier_trace evs = replicate (waits * length es) BarrierWait"
proof -
  have "0 + int (length es) = num_warmups + num_iterations" using assms(4) by simp
  from rounds [OF assms(1,2) this]
  show thesis
    using that assms(3,5) by (auto simp: benchmark_loop_def add_int32_def)
qed

text \<open>
  With a sensible number of warm-up rounds the statistics are defined and over the last rounds.
\<close>

lemma benchmark_statistics:
  assumes "list_all good es" and "inv s" and "durs s = []"
    and "counts_ok num_warmups num_iterations (length es)"
  obtains s' evs result where "benchmark_loop body num_warmups num_iterations es s = (evs, Val s')"
    and "inv s'" and "durs s' = map elapsed (drop (nat num_warmups) es)"
    and "barrier_trace evs = replicate (waits * length es) BarrierWait"
    and "CalculateBandwidth (map elapsed (drop (nat num_warmups) es)) num_iterations nbytes = Val result"
proof -
  have "int (length (map elapsed (drop (nat num_warmups) es))) = num_iterations"
      "1 \<le> num_iterations"
    using assms(4) by (auto simp: counts_ok_def)
  then obtain result where
    "CalculateBandwidth (map elapsed (drop (nat num_warmups) es)) num_iterations nbytes = Val result"
    using CalculateBandwidth_defined by blast
  moreover have n: "int (length es) = num_warmups + num_iterations"
      "int32_range (num_warmups + num_iterations)"
    using assms(4) by (auto simp: counts_ok_def)
  moreover obtain s' evs where "benchmark_loop body num_warmups num_iterations es s = (evs, Val s')"
      "inv s'" "durs s' = map elapsed (drop (nat num_warmups) es)"
      "barrier_trace evs = replicate (waits * length es) BarrierWait"
    by (rule benchmark [OF assms(1-3) n])
  ultimately show thesis using that by blast
qed

text \<open>A negative number of warm-up rounds makes the statistics abort after the whole transfer.\<close>

lemma negative_warmups:
  assumes "list_all good es" and "inv s" and "durs s = []"
    and "num_warmups < 0" and "int32_range num_iterations"
    and "int32_range (num_warmups + num_iterations)"
    and "int (length es) = num_warmups + num_iterations"
  obtains s' evs where "benchmark_loop body num_warmups num_iterations es s = (evs, Val s')"
    and "CalculateBandwidth (durs s') num_iterations nbytes =
           Abort ''durations.size() must equal num_iterations''"
proof -
  have "int (length es) < 2 ^ 31" using assms(4,5,7) by (simp add: int32_range_def)
  then have "CalculateBandwidth (map elapsed (drop (nat num_warmups) es)) num_iterations nbytes =
      Abort ''durations.size() must equal num_iterations''"
    using assms(4,5,7) by (intro CalculateBandwidth_count) auto
  moreover obtain s' evs where "benchmark_loop body num_warmups num_iterations es s = (evs, Val s')"
      "durs s' = map elapsed (drop (nat num_warmups) es)"
    by (rule benchmark [OF assms(1-3,7,6)])
  ultimately show thesis using that by simp
qed

end

end
