(* ===== verification/Round_Trip.thy ===== *)
theory Round_Trip
  imports Progress Iterations
begin

text \<open>
  The contract of the latency benchmarks: two threads or processes exchange signals back and forth.
  The abstract system counts the signals of the initiator and the replies of its partner, and lets
  each side signal only after it got the other's last signal. The measured time of a loop is divided
  by the number of one-way trips in it, so the division is justified when an implementation refines
  this system and has made exactly that many trips at its end.
\<close>

section \<open>Strict alternation\<close>

inductive trip_step :: "nat \<times> nat \<Rightarrow> nat \<times> nat \<Rightarrow> bool" where
  stutter: "trip_step (a, b) (a, b)"
| signal: "a = b \<Longrightarrow> trip_step (a, b) (Suc a, b)"
| reply: "a = Suc b \<Longrightarrow> trip_step (a, b) (a, Suc b)"

locale round_trip =
  fixes init :: 's
    and step :: "'s \<Rightarrow> 's \<Rightarrow> bool"
    and signals :: "'s \<Rightarrow> nat"
    and replies :: "'s \<Rightarrow> nat"
  assumes start: "signals init = 0" "replies init = 0"
    and refines: "rtranclp step init s \<Longrightarrow> step s t \<Longrightarrow>
                  trip_step (signals s, replies s) (signals t, replies t)"
begin

lemma alternation:
  "rtranclp step init s \<Longrightarrow> replies s \<le> signals s \<and> signals s \<le> Suc (replies s)"
proof (induction rule: rtranclp_induct)
  case base
  show ?case by (simp add: start)
next
  case (step s t)
  from refines [OF step.hyps] step.IH show ?case
    by (cases rule: trip_step.cases) auto
qed

text \<open>A signal is sent only when the last one is answered.\<close>

lemma signal_answered:
  assumes "rtranclp step init s" and "step s t" and "signals t \<noteq> signals s"
  shows "signals t = Suc (signals s) \<and> replies s = signals s"
  using refines [OF assms(1,2)] assms(3) by (cases rule: trip_step.cases) auto

end

section \<open>Measured loops\<close>

text \<open>
  The rounds of the latency benchmarks: the time of a loop over the number of trips per pass and the
  number of passes.
\<close>

definition trip_time :: "nat \<Rightarrow> u64 \<Rightarrow> dbl \<Rightarrow> dbl" where
  "trip_time trips loop_size elapsed =
     ddiv (ddiv elapsed (double_of_nat trips)) (double_of_nat (unat loop_size))"

definition latency_iteration ::
  "nat \<Rightarrow> int \<Rightarrow> u64 \<Rightarrow> int \<Rightarrow> dbl \<Rightarrow> dbl list \<Rightarrow> dbl list act" where
  "latency_iteration trips num_warmups loop_size i elapsed durations =
     ret (if num_warmups \<le> i then durations @ [trip_time trips loop_size elapsed] else durations)"

interpretation latency_rounds: measured_rounds
  "latency_iteration k W n" "\<lambda>_. True" "\<lambda>_. True" "\<lambda>ds. ds" "trip_time k n" 0 W for k W n
  by unfold_locales (auto simp: latency_iteration_def)

lemma latency_loop:
  assumes "int (length es) = W + N" and "int32_range (W + N)"
  shows "snd (abind (benchmark_loop (latency_iteration k W n) W N es [])
           (\<lambda>durations. lift (CalculateOneTripDuration durations))) =
     CalculateOneTripDuration (map (trip_time k n) (drop (nat W) es))"
proof -
  have all: "list_all (\<lambda>_. True) es" by (simp add: list_all_iff)
  obtain durations evs where
      "benchmark_loop (latency_iteration k W n) W N es [] = (evs, Val durations)" "True"
      "durations = map (trip_time k n) (drop (nat W) es)"
      "barrier_trace evs = replicate (0 * length es) BarrierWait"
    by (rule latency_rounds.benchmark [OF all TrueI refl assms])
  then show ?thesis by simp
qed

end
