(* ===== verification/Atomic_Latency.thy ===== *)
theory Atomic_Latency
  imports Round_Trip
begin

text \<open>
  \<^verbatim>\<open>akbench/atomic_latency.cc\<close> and \<^verbatim>\<open>atomic_rel_acq_latency.cc\<close>: two threads signal each other
  through two atomic flags, each written by one of them.

  An atomic variable is the list of the values stored to it, oldest first. A thread reads any value
  that is not older than the last one it read, which is all that acquire loads of relaxed stores
  guarantee for a variable with a single writer; a sequentially consistent load reads the newest
  value. The same step functions model both programs, with the memory order as a parameter.
\<close>

datatype memory_order = SeqCst | RelAcq

datatype flip_pc = StoreTrue | AwaitTrue | StoreFalse | AwaitFalse | Finished

text \<open>
  The flags \<^verbatim>\<open>parent\<close> and \<^verbatim>\<open>child\<close> with their histories, the index of the value of the other's
  flag that each thread read last, and the loops.
\<close>

record flips =
  p_flag :: "bool list"
  c_flag :: "bool list"
  p_view :: nat
  c_view :: nat
  p_pc :: flip_pc
  c_pc :: flip_pc
  p_i :: nat
  c_i :: nat

definition may_load :: "memory_order \<Rightarrow> bool list \<Rightarrow> nat \<Rightarrow> nat \<Rightarrow> bool" where
  "may_load order flag view v \<longleftrightarrow>
     view \<le> v \<and> v < length flag \<and> (order = SeqCst \<longrightarrow> v = length flag - 1)"

text \<open>\<^verbatim>\<open>ParentFlip\<close>; \<open>v\<close> is the index of the value that a load returns.\<close>

definition ParentFlip :: "memory_order \<Rightarrow> nat \<Rightarrow> nat \<Rightarrow> flips \<Rightarrow> flips option" where
  "ParentFlip order loop_size v s =
     (case p_pc s of
        StoreTrue \<Rightarrow> Some (s\<lparr>p_flag := p_flag s @ [True], p_pc := AwaitTrue\<rparr>)
      | AwaitTrue \<Rightarrow>
          if \<not> may_load order (c_flag s) (p_view s) v then None
          else Some (s\<lparr>p_view := v, p_pc := (if \<not> c_flag s ! v then AwaitTrue else StoreFalse)\<rparr>)
      | StoreFalse \<Rightarrow> Some (s\<lparr>p_flag := p_flag s @ [False], p_pc := AwaitFalse\<rparr>)
      | AwaitFalse \<Rightarrow>
          if \<not> may_load order (c_flag s) (p_view s) v then None
          else if c_flag s ! v then Some (s\<lparr>p_view := v\<rparr>)
          else Some (s\<lparr>p_view := v, p_i := Suc (p_i s),
                       p_pc := (if Suc (p_i s) < loop_size then StoreTrue else Finished)\<rparr>)
      | Finished \<Rightarrow> None)"

definition ChildFlip :: "memory_order \<Rightarrow> nat \<Rightarrow> nat \<Rightarrow> flips \<Rightarrow> flips option" where
  "ChildFlip order loop_size v s =
     (case c_pc s of
        AwaitTrue \<Rightarrow>
          if \<not> may_load order (p_flag s) (c_view s) v then None
          else Some (s\<lparr>c_view := v, c_pc := (if \<not> p_flag s ! v then AwaitTrue else StoreTrue)\<rparr>)
      | StoreTrue \<Rightarrow> Some (s\<lparr>c_flag := c_flag s @ [True], c_pc := AwaitFalse\<rparr>)
      | AwaitFalse \<Rightarrow>
          if \<not> may_load order (p_flag s) (c_view s) v then None
          else Some (s\<lparr>c_view := v, c_pc := (if p_flag s ! v then AwaitFalse else StoreFalse)\<rparr>)
      | StoreFalse \<Rightarrow>
          Some (s\<lparr>c_flag := c_flag s @ [False], c_i := Suc (c_i s),
                  c_pc := (if Suc (c_i s) < loop_size then AwaitTrue else Finished)\<rparr>)
      | Finished \<Rightarrow> None)"

inductive flip_step :: "memory_order \<Rightarrow> nat \<Rightarrow> flips \<Rightarrow> flips \<Rightarrow> bool" for order n where
  parent: "ParentFlip order n v s = Some t \<Longrightarrow> flip_step order n s t"
| child: "ChildFlip order n v s = Some t \<Longrightarrow> flip_step order n s t"

text \<open>Both flags are false when the threads start.\<close>

definition flip_init :: "nat \<Rightarrow> flips" where
  "flip_init n =
     \<lparr>p_flag = [False], c_flag = [False], p_view = 0, c_view = 0,
      p_pc = (if 0 < n then StoreTrue else Finished), c_pc = (if 0 < n then AwaitTrue else Finished),
      p_i = 0, c_i = 0\<rparr>"

definition flip_final :: "flips \<Rightarrow> bool" where
  "flip_final s \<longleftrightarrow> p_pc s = Finished \<and> c_pc s = Finished"

definition stores :: "bool list \<Rightarrow> nat" where
  "stores flag = length flag - 1"

section \<open>The handshake invariant\<close>

text \<open>The values of a flag alternate; \<open>k\<close> and \<open>m\<close> are the numbers of stores of the threads.\<close>

definition alternating :: "nat \<Rightarrow> bool list" where
  "alternating k = map odd [0..<Suc k]"

lemma length_alternating [simp]: "length (alternating k) = Suc k"
  by (simp add: alternating_def)

lemma nth_alternating [simp]: "v \<le> k \<Longrightarrow> alternating k ! v = odd v"
  by (simp add: alternating_def del: upt_Suc)

lemma alternating_snoc:
  "odd k \<Longrightarrow> alternating k @ [False] = alternating (Suc k)"
  "even k \<Longrightarrow> alternating k @ [True] = alternating (Suc k)"
  by (simp_all add: alternating_def)

definition parent_inv :: "nat \<Rightarrow> nat \<Rightarrow> nat \<Rightarrow> flips \<Rightarrow> bool" where
  "parent_inv n k m s \<longleftrightarrow>
     (case p_pc s of
        StoreTrue \<Rightarrow> p_i s < n \<and> k = 2 * p_i s \<and> m = k \<and> p_view s = k
      | AwaitTrue \<Rightarrow> p_i s < n \<and> k = 2 * p_i s + 1 \<and> p_view s = 2 * p_i s
          \<and> (m = 2 * p_i s \<or> m = 2 * p_i s + 1)
      | StoreFalse \<Rightarrow> p_i s < n \<and> k = 2 * p_i s + 1 \<and> m = k \<and> p_view s = k
      | AwaitFalse \<Rightarrow> p_i s < n \<and> k = 2 * p_i s + 2 \<and> p_view s = 2 * p_i s + 1
          \<and> (m = 2 * p_i s + 1 \<or> m = 2 * p_i s + 2)
      | Finished \<Rightarrow> p_i s = n \<and> k = 2 * n \<and> m = k)"

definition child_inv :: "nat \<Rightarrow> nat \<Rightarrow> nat \<Rightarrow> flips \<Rightarrow> bool" where
  "child_inv n k m s \<longleftrightarrow>
     (case c_pc s of
        AwaitTrue \<Rightarrow> c_i s < n \<and> m = 2 * c_i s \<and> c_view s = m \<and> (k = m \<or> k = m + 1)
      | StoreTrue \<Rightarrow> c_i s < n \<and> m = 2 * c_i s \<and> k = m + 1 \<and> c_view s = k
      | AwaitFalse \<Rightarrow> c_i s < n \<and> m = 2 * c_i s + 1 \<and> c_view s = m \<and> (k = m \<or> k = m + 1)
      | StoreFalse \<Rightarrow> c_i s < n \<and> m = 2 * c_i s + 1 \<and> k = m + 1 \<and> c_view s = k
      | Finished \<Rightarrow> c_i s = n \<and> m = 2 * n \<and> k = m)"

definition flip_inv :: "nat \<Rightarrow> nat \<Rightarrow> nat \<Rightarrow> flips \<Rightarrow> bool" where
  "flip_inv n k m s \<longleftrightarrow> p_flag s = alternating k \<and> c_flag s = alternating m
     \<and> parent_inv n k m s \<and> child_inv n k m s"

lemmas flip_inv_defs = flip_inv_def parent_inv_def child_inv_def

lemma flip_inv_init: "flip_inv n 0 0 (flip_init n)"
  by (simp add: flip_inv_defs flip_init_def alternating_def)

text \<open>Neither half of the invariant reads the other thread's variables.\<close>

lemma inv_frame [simp]:
  "child_inv n k m (s\<lparr>p_flag := f\<rparr>) = child_inv n k m s"
  "child_inv n k m (s\<lparr>p_view := v\<rparr>) = child_inv n k m s"
  "child_inv n k m (s\<lparr>p_pc := l\<rparr>) = child_inv n k m s"
  "child_inv n k m (s\<lparr>p_i := i\<rparr>) = child_inv n k m s"
  "parent_inv n k m (s\<lparr>c_flag := f\<rparr>) = parent_inv n k m s"
  "parent_inv n k m (s\<lparr>c_view := v\<rparr>) = parent_inv n k m s"
  "parent_inv n k m (s\<lparr>c_pc := l\<rparr>) = parent_inv n k m s"
  "parent_inv n k m (s\<lparr>c_i := i\<rparr>) = parent_inv n k m s"
  by (simp_all add: parent_inv_def child_inv_def split: flip_pc.split)

text \<open>A store of one thread keeps the half of the other.\<close>

lemma child_sees_store: "child_inv n k k s \<Longrightarrow> k < 2 * n \<Longrightarrow> child_inv n (Suc k) k s"
  by (cases "c_pc s") (auto simp: child_inv_def)

lemma parent_sees_store: "parent_inv n (Suc m) m s \<Longrightarrow> parent_inv n (Suc m) (Suc m) s"
  by (cases "p_pc s") (auto simp: parent_inv_def)

lemma parent_keeps:
  assumes "ParentFlip order n v s = Some t" and "flip_inv n k m s"
  shows "flip_inv n k m t \<or> (k = m \<and> flip_inv n (Suc k) m t)"
proof (cases "p_pc s")
  case StoreTrue
  then have k: "k = 2 * p_i s" "m = k" "p_i s < n" "p_view s = k"
    and t: "t = s\<lparr>p_flag := alternating k @ [True], p_pc := AwaitTrue\<rparr>"
    using assms by (auto simp: ParentFlip_def flip_inv_def parent_inv_def)
  have "child_inv n (Suc k) k s" using assms(2) k by (intro child_sees_store) (auto simp: flip_inv_def)
  then have "flip_inv n (Suc k) m t"
    using assms(2) k by (simp add: t flip_inv_def parent_inv_def alternating_snoc)
  then show ?thesis using k by simp
next
  case AwaitTrue
  then have v: "p_view s \<le> v" "v \<le> m" "k = 2 * p_i s + 1" "p_view s = 2 * p_i s" "p_i s < n"
      "m = 2 * p_i s \<or> m = 2 * p_i s + 1"
    and t: "t = s\<lparr>p_view := v, p_pc := (if even v then AwaitTrue else StoreFalse)\<rparr>"
    using assms by (auto simp: ParentFlip_def flip_inv_def parent_inv_def may_load_def split: if_splits)
  then have "v = 2 * p_i s \<or> v = 2 * p_i s + 1" by linarith
  then have "parent_inv n k m t" using v by (auto simp: t parent_inv_def)
  then show ?thesis using assms(2) by (simp add: t flip_inv_def)
next
  case StoreFalse
  then have k: "k = 2 * p_i s + 1" "m = k" "p_i s < n" "p_view s = k"
    and t: "t = s\<lparr>p_flag := alternating k @ [False], p_pc := AwaitFalse\<rparr>"
    using assms by (auto simp: ParentFlip_def flip_inv_def parent_inv_def)
  have "child_inv n (Suc k) k s" using assms(2) k by (intro child_sees_store) (auto simp: flip_inv_def)
  then have "flip_inv n (Suc k) m t"
    using assms(2) k by (simp add: t flip_inv_def parent_inv_def alternating_snoc)
  then show ?thesis using k by simp
next
  case AwaitFalse
  then have v: "p_view s \<le> v" "v \<le> m" "k = 2 * p_i s + 2" "p_view s = 2 * p_i s + 1" "p_i s < n"
      "m = 2 * p_i s + 1 \<or> m = 2 * p_i s + 2"
    and t: "t = (if odd v then s\<lparr>p_view := v\<rparr>
                 else s\<lparr>p_view := v, p_i := Suc (p_i s),
                        p_pc := (if Suc (p_i s) < n then StoreTrue else Finished)\<rparr>)"
    using assms by (auto simp: ParentFlip_def flip_inv_def parent_inv_def may_load_def split: if_splits)
  then have "v = 2 * p_i s + 1 \<or> v = 2 * p_i s + 2" by linarith
  then have "parent_inv n k m t" using v AwaitFalse by (auto simp: t parent_inv_def)
  then show ?thesis using assms(2) by (simp add: t flip_inv_def)
next
  case Finished
  then show ?thesis using assms by (simp add: ParentFlip_def)
qed

lemma child_keeps:
  assumes "ChildFlip order n v s = Some t" and "flip_inv n k m s"
  shows "flip_inv n k m t \<or> (k = Suc m \<and> flip_inv n k (Suc m) t)"
proof (cases "c_pc s")
  case StoreTrue
  then have k: "m = 2 * c_i s" "k = Suc m" "c_i s < n" "c_view s = k"
    and t: "t = s\<lparr>c_flag := alternating m @ [True], c_pc := AwaitFalse\<rparr>"
    using assms by (auto simp: ChildFlip_def flip_inv_def child_inv_def)
  have "parent_inv n k (Suc m) s" using assms(2) k parent_sees_store by (simp add: flip_inv_def)
  then have "flip_inv n k (Suc m) t"
    using assms(2) k by (simp add: t flip_inv_def child_inv_def alternating_snoc)
  then show ?thesis using k by simp
next
  case AwaitTrue
  then have v: "c_view s \<le> v" "v \<le> k" "m = 2 * c_i s" "c_view s = m" "c_i s < n" "k = m \<or> k = m + 1"
    and t: "t = s\<lparr>c_view := v, c_pc := (if even v then AwaitTrue else StoreTrue)\<rparr>"
    using assms by (auto simp: ChildFlip_def flip_inv_def child_inv_def may_load_def split: if_splits)
  then have "v = m \<or> v = m + 1" by linarith
  then have "child_inv n k m t" using v by (auto simp: t child_inv_def)
  then show ?thesis using assms(2) by (simp add: t flip_inv_def)
next
  case StoreFalse
  then have k: "m = 2 * c_i s + 1" "k = Suc m" "c_i s < n" "c_view s = k"
    and t: "t = s\<lparr>c_flag := alternating m @ [False], c_i := Suc (c_i s),
                  c_pc := (if Suc (c_i s) < n then AwaitTrue else Finished)\<rparr>"
    using assms by (auto simp: ChildFlip_def flip_inv_def child_inv_def)
  have "parent_inv n k (Suc m) s" using assms(2) k parent_sees_store by (simp add: flip_inv_def)
  then have "flip_inv n k (Suc m) t"
    using assms(2) k by (simp add: t flip_inv_def child_inv_def alternating_snoc)
  then show ?thesis using k by simp
next
  case AwaitFalse
  then have v: "c_view s \<le> v" "v \<le> k" "m = 2 * c_i s + 1" "c_view s = m" "c_i s < n" "k = m \<or> k = m + 1"
    and t: "t = s\<lparr>c_view := v, c_pc := (if odd v then AwaitFalse else StoreFalse)\<rparr>"
    using assms by (auto simp: ChildFlip_def flip_inv_def child_inv_def may_load_def split: if_splits)
  then have "v = m \<or> v = m + 1" by linarith
  then have "child_inv n k m t" using v by (auto simp: t child_inv_def)
  then show ?thesis using assms(2) by (simp add: t flip_inv_def)
next
  case Finished
  then show ?thesis using assms by (simp add: ChildFlip_def)
qed

section \<open>The two contracts\<close>

definition flip_ok :: "nat \<Rightarrow> flips \<Rightarrow> bool" where
  "flip_ok n s \<longleftrightarrow> flip_inv n (stores (p_flag s)) (stores (c_flag s)) s"

lemma flip_inv_stores: "flip_inv n k m s \<Longrightarrow> stores (p_flag s) = k \<and> stores (c_flag s) = m"
  by (simp add: flip_inv_def stores_def)

lemma flip_okI: "flip_inv n k m s \<Longrightarrow> flip_ok n s"
  using flip_inv_stores by (auto simp: flip_ok_def)

lemma flip_ok_step:
  assumes "flip_step order n s t" and "flip_ok n s"
  shows "flip_ok n t \<and> trip_step (stores (p_flag s), stores (c_flag s)) (stores (p_flag t), stores (c_flag t))"
proof -
  define k m where "k = stores (p_flag s)" and "m = stores (c_flag s)"
  have inv: "flip_inv n k m s" using assms(2) by (simp add: flip_ok_def k_def m_def)
  have "\<exists>k' m'. flip_inv n k' m' t \<and> trip_step (k, m) (k', m')" using assms(1)
  proof cases
    case (parent v)
    show ?thesis using parent_keeps [OF parent inv] by (auto intro: trip_step.intros)
  next
    case (child v)
    show ?thesis using child_keeps [OF child inv] by (auto intro: trip_step.intros)
  qed
  then obtain k' m' where t: "flip_inv n k' m' t" "trip_step (k, m) (k', m')" by blast
  then show ?thesis using flip_okI [OF t(1)] flip_inv_stores [OF t(1)] by (simp add: k_def m_def)
qed

definition parent_stage :: "flips \<Rightarrow> nat" where
  "parent_stage s = 4 * p_i s +
     (case p_pc s of StoreTrue \<Rightarrow> 0 | AwaitTrue \<Rightarrow> 1 | StoreFalse \<Rightarrow> 2 | AwaitFalse \<Rightarrow> 3 | Finished \<Rightarrow> 0)"

definition child_stage :: "flips \<Rightarrow> nat" where
  "child_stage s = 4 * c_i s +
     (case c_pc s of AwaitTrue \<Rightarrow> 0 | StoreTrue \<Rightarrow> 1 | AwaitFalse \<Rightarrow> 2 | StoreFalse \<Rightarrow> 3 | Finished \<Rightarrow> 0)"

definition flip_rest :: "nat \<Rightarrow> flips \<Rightarrow> nat" where
  "flip_rest n s = 8 * n - (parent_stage s + child_stage s)"

lemma stage_bound: "flip_inv n k m s \<Longrightarrow> parent_stage s \<le> 4 * n \<and> child_stage s \<le> 4 * n"
  by (cases "p_pc s"; cases "c_pc s") (auto simp: flip_inv_defs parent_stage_def child_stage_def)

text \<open>A thread that reads the newest value advances unless it has to wait for the other.\<close>

lemma parent_advances:
  assumes "flip_inv n k m s" and "p_pc s \<noteq> Finished"
    and "p_pc s = AwaitTrue \<Longrightarrow> odd m" and "p_pc s = AwaitFalse \<Longrightarrow> even m"
  shows "\<exists>t. ParentFlip order n m s = Some t \<and> parent_stage t = Suc (parent_stage s)
           \<and> child_stage t = child_stage s"
  using assms
  by (cases "p_pc s")
    (auto simp: ParentFlip_def flip_inv_def parent_inv_def may_load_def parent_stage_def child_stage_def)

lemma child_advances:
  assumes "flip_inv n k m s" and "c_pc s \<noteq> Finished"
    and "c_pc s = AwaitTrue \<Longrightarrow> odd k" and "c_pc s = AwaitFalse \<Longrightarrow> even k"
  shows "\<exists>t. ChildFlip order n k s = Some t \<and> child_stage t = Suc (child_stage s)
           \<and> parent_stage t = parent_stage s"
  using assms
  by (cases "c_pc s")
    (auto simp: ChildFlip_def flip_inv_def child_inv_def may_load_def parent_stage_def child_stage_def)

lemma flip_advances:
  assumes "flip_inv n k m s" and "\<not> flip_final s"
  shows "\<exists>t. flip_step order n s t \<and> parent_stage t + child_stage t = Suc (parent_stage s + child_stage s)"
proof -
  have pi: "parent_inv n k m s" and ci: "child_inv n k m s" using assms(1) by (simp_all add: flip_inv_def)
  consider (parent) "p_pc s \<noteq> Finished" "p_pc s = AwaitTrue \<longrightarrow> odd m" "p_pc s = AwaitFalse \<longrightarrow> even m"
    | (true) "p_pc s = AwaitTrue" "even m" | (false) "p_pc s = AwaitFalse" "odd m"
    | (finished) "p_pc s = Finished" by auto
  then have "(p_pc s \<noteq> Finished \<and> (p_pc s = AwaitTrue \<longrightarrow> odd m) \<and> (p_pc s = AwaitFalse \<longrightarrow> even m))
      \<or> (c_pc s \<noteq> Finished \<and> (c_pc s = AwaitTrue \<longrightarrow> odd k) \<and> (c_pc s = AwaitFalse \<longrightarrow> even k))"
  proof cases
    case true
    then have "k = Suc m" using pi by (auto simp: parent_inv_def)
    then show ?thesis using true ci by (cases "c_pc s") (auto simp: child_inv_def)
  next
    case false
    then have "k = Suc m" using pi by (auto simp: parent_inv_def)
    then show ?thesis using false ci by (cases "c_pc s") (auto simp: child_inv_def)
  next
    case finished
    then have "c_pc s \<noteq> Finished" using assms(2) by (simp add: flip_final_def)
    moreover have "even k" "k = 2 * n" "m = k" using finished pi by (simp_all add: parent_inv_def)
    moreover have "2 * n \<noteq> Suc (2 * c_i s)" by presburger
    ultimately show ?thesis using ci by (cases "c_pc s") (auto simp: child_inv_def)
  qed auto
  then show ?thesis
  proof
    assume "p_pc s \<noteq> Finished \<and> (p_pc s = AwaitTrue \<longrightarrow> odd m) \<and> (p_pc s = AwaitFalse \<longrightarrow> even m)"
    then obtain t where "ParentFlip order n m s = Some t" "parent_stage t = Suc (parent_stage s)"
        "child_stage t = child_stage s"
      using parent_advances [OF assms(1)] by blast
    then show ?thesis using flip_step.parent by fastforce
  next
    assume "c_pc s \<noteq> Finished \<and> (c_pc s = AwaitTrue \<longrightarrow> odd k) \<and> (c_pc s = AwaitFalse \<longrightarrow> even k)"
    then obtain t where "ChildFlip order n k s = Some t" "child_stage t = Suc (child_stage s)"
        "parent_stage t = parent_stage s"
      using child_advances [OF assms(1)] by blast
    then show ?thesis using flip_step.child by fastforce
  qed
qed

interpretation flip_finish: can_finish "flip_init n" "flip_step order n" "flip_ok n" "flip_rest n" flip_final
  for n order
proof
  show "flip_ok n (flip_init n)" by (rule flip_okI [OF flip_inv_init])
  show "flip_ok n t" if "flip_ok n s" "flip_step order n s t" for s t
    using flip_ok_step that by blast
  fix s
  assume s: "flip_ok n s" "\<not> flip_final s"
  then have inv: "flip_inv n (stores (p_flag s)) (stores (c_flag s)) s" by (simp add: flip_ok_def)
  obtain t where t: "flip_step order n s t"
      "parent_stage t + child_stage t = Suc (parent_stage s + child_stage s)"
    using flip_advances [OF inv s(2)] by blast
  have "flip_ok n t" using flip_ok_step t(1) s(1) by blast
  then have "parent_stage t + child_stage t \<le> 8 * n"
    using stage_bound [of n] by (fastforce simp: flip_ok_def)
  then have "flip_rest n t < flip_rest n s" using t(2) by (simp add: flip_rest_def)
  then show "\<exists>t. rtranclp (flip_step order n) s t \<and> flip_rest n t < flip_rest n s" using t(1) by blast
qed

interpretation flip_trips: round_trip "flip_init n" "flip_step order n"
    "\<lambda>s. stores (p_flag s)" "\<lambda>s. stores (c_flag s)" for n order
proof
  show "stores (p_flag (flip_init n)) = 0" "stores (c_flag (flip_init n)) = 0"
    using flip_inv_stores [OF flip_inv_init] by simp_all
  show "trip_step (stores (p_flag s), stores (c_flag s)) (stores (p_flag t), stores (c_flag t))"
    if "rtranclp (flip_step order n) (flip_init n) s" "flip_step order n s t" for s t
    using flip_ok_step [OF that(2) flip_finish.reachable_ok [OF that(1)]] by blast
qed

lemma flip_final_flags:
  "flip_ok n s \<Longrightarrow> flip_final s \<Longrightarrow> p_flag s = alternating (2 * n) \<and> c_flag s = alternating (2 * n)"
  by (auto simp: flip_ok_def flip_inv_defs flip_final_def)

section \<open>The benchmarks\<close>

definition RunAtomicLatencyBenchmark :: "int \<Rightarrow> int \<Rightarrow> u64 \<Rightarrow> dbl list \<Rightarrow> BenchmarkResult act" where
  "RunAtomicLatencyBenchmark num_iterations num_warmups loop_size elapsed_times =
     abind (benchmark_loop (latency_iteration 4 num_warmups loop_size)
              num_warmups num_iterations elapsed_times [])
       (\<lambda>durations. lift (CalculateOneTripDuration durations))"

definition RunAtomicRelAcqLatencyBenchmark :: "int \<Rightarrow> int \<Rightarrow> u64 \<Rightarrow> dbl list \<Rightarrow> BenchmarkResult act" where
  "RunAtomicRelAcqLatencyBenchmark num_iterations num_warmups loop_size elapsed_times =
     abind (benchmark_loop (latency_iteration 4 num_warmups loop_size)
              num_warmups num_iterations elapsed_times [])
       (\<lambda>durations. lift (CalculateOneTripDuration durations))"

section \<open>Properties of the atomic handshake\<close>

text \<open>
  C16 (refinement). With sequentially consistent accesses and with acquire loads of relaxed stores
  alike, the threads strictly alternate: a store of the parent happens only after it has seen the
  child's last store and the other way round, so no value of a flag is ever overwritten unseen.
\<close>

theorem atomic_handshake_alternates:
  assumes "rtranclp (flip_step order n) (flip_init n) s" and "flip_step order n s t"
  shows "trip_step (stores (p_flag s), stores (c_flag s)) (stores (p_flag t), stores (c_flag t))
    \<and> stores (c_flag s) \<le> stores (p_flag s) \<and> stores (p_flag s) \<le> Suc (stores (c_flag s))"
  using flip_trips.refines [OF assms] flip_trips.alternation [OF assms(1)] by blast

theorem atomic_handshake_alternates_witness:
  "trip_step (stores (p_flag (flip_init 2)), stores (c_flag (flip_init 2))) (1, 0)"
proof -
  have "flip_step RelAcq 2 (flip_init 2) ((flip_init 2)\<lparr>p_flag := [False, True], p_pc := AwaitTrue\<rparr>)"
    by (rule flip_step.parent [where v = 0]) (simp add: ParentFlip_def flip_init_def)
  from atomic_handshake_alternates [OF _ this] show ?thesis
    by (simp add: stores_def flip_init_def)
qed

text \<open>
  C17 (liveness). From every reachable state both threads can finish their loops, so neither a missed
  flip nor a deadlock is possible; and at the end each thread has flipped its flag exactly
  \<open>2 * loop_size\<close> times and left it false. A pass of the loop is four one-way trips, the divisor of
  the benchmark.
\<close>

theorem atomic_handshake_finishes:
  assumes "rtranclp (flip_step order n) (flip_init n) s"
  shows "(\<exists>t. rtranclp (flip_step order n) s t \<and> flip_final t)
    \<and> (flip_final s \<longrightarrow> stores (p_flag s) + stores (c_flag s) = 4 * n
         \<and> \<not> last (p_flag s) \<and> \<not> last (c_flag s))"
proof -
  have ok: "flip_ok n s" by (rule flip_finish.reachable_ok [OF assms])
  have "stores (p_flag s) + stores (c_flag s) = 4 * n \<and> \<not> last (p_flag s) \<and> \<not> last (c_flag s)"
    if "flip_final s"
    using flip_final_flags [OF ok that] by (simp add: stores_def) (simp add: alternating_def)
  then show ?thesis using flip_finish.finishes [OF ok] by blast
qed

theorem atomic_handshake_finishes_witness:
  "\<exists>t. rtranclp (flip_step SeqCst 3) (flip_init 3) t \<and> flip_final t"
  using atomic_handshake_finishes [of SeqCst 3 "flip_init 3"] by simp

end
