(* ===== verification/Condition_Variable_Latency.thy ===== *)
theory Condition_Variable_Latency
  imports Round_Trip
begin

text \<open>
  \<^verbatim>\<open>akbench/condition_variable_latency.cc\<close>: two threads signal each other through two channels,
  each a flag with its mutex and its condition variable. A channel has one signalling and one
  waiting thread. \<^verbatim>\<open>wait\<close> releases the mutex and goes to sleep in one step, as the standard
  requires; it may return without a notification (a spurious wake-up), and a notification that
  finds nobody asleep is lost. \<open>sets\<close> and \<open>clears\<close> count the writes to the flag.
\<close>

datatype role = Signaler | Waiter

record channel =
  owner :: "role option"
  ready :: bool
  sleeping :: bool
  sets :: nat
  clears :: nat

datatype cv_pc =
    S_Lock | S_Set | S_Unlock | S_Notify
  | W_Lock | W_Check | W_Sleep | W_Clear | W_Unlock
  | Flips_Done

text \<open>The block that sets the flag under the lock and the notification after it; then on to \<open>k\<close>.\<close>

definition signal_step :: "cv_pc \<Rightarrow> cv_pc \<Rightarrow> channel \<Rightarrow> (channel \<times> cv_pc) option" where
  "signal_step k l ch =
     (case l of
        S_Lock \<Rightarrow> if owner ch = None then Some (ch\<lparr>owner := Some Signaler\<rparr>, S_Set) else None
      | S_Set \<Rightarrow> Some (ch\<lparr>ready := True, sets := Suc (sets ch)\<rparr>, S_Unlock)
      | S_Unlock \<Rightarrow> Some (ch\<lparr>owner := None\<rparr>, S_Notify)
      | S_Notify \<Rightarrow> Some (ch\<lparr>sleeping := False\<rparr>, k)
      | _ \<Rightarrow> None)"

text \<open>
  The block that waits for the flag and clears it. \<open>wake\<close> is true when a sleeping thread wakes up
  although nobody notified it; whoever wakes up takes the lock and checks the flag again.
\<close>

definition await_step :: "bool \<Rightarrow> cv_pc \<Rightarrow> cv_pc \<Rightarrow> channel \<Rightarrow> (channel \<times> cv_pc) option" where
  "await_step wake k l ch =
     (case l of
        W_Lock \<Rightarrow> if owner ch = None then Some (ch\<lparr>owner := Some Waiter\<rparr>, W_Check) else None
      | W_Check \<Rightarrow>
          if ready ch then Some (ch, W_Clear)
          else Some (ch\<lparr>owner := None, sleeping := True\<rparr>, W_Sleep)
      | W_Sleep \<Rightarrow> if \<not> sleeping ch \<or> wake then Some (ch\<lparr>sleeping := False\<rparr>, W_Lock) else None
      | W_Clear \<Rightarrow> Some (ch\<lparr>ready := False, clears := Suc (clears ch)\<rparr>, W_Unlock)
      | W_Unlock \<Rightarrow> Some (ch\<lparr>owner := None\<rparr>, k)
      | _ \<Rightarrow> None)"

definition signalling :: "cv_pc \<Rightarrow> bool" where
  "signalling l \<longleftrightarrow> l = S_Lock \<or> l = S_Set \<or> l = S_Unlock \<or> l = S_Notify"

record cv_sys =
  p_chan :: channel
  c_chan :: channel
  p_pc :: cv_pc
  c_pc :: cv_pc
  p_i :: nat
  c_i :: nat

definition cv_ParentFlip :: "nat \<Rightarrow> bool \<Rightarrow> cv_sys \<Rightarrow> cv_sys option" where
  "cv_ParentFlip loop_size wake s =
     (if signalling (p_pc s)
      then (case signal_step W_Lock (p_pc s) (p_chan s) of
              None \<Rightarrow> None
            | Some (ch, l) \<Rightarrow> Some (s\<lparr>p_chan := ch, p_pc := l\<rparr>))
      else (case await_step wake (if Suc (p_i s) < loop_size then S_Lock else Flips_Done)
                   (p_pc s) (c_chan s) of
              None \<Rightarrow> None
            | Some (ch, l) \<Rightarrow>
                Some (s\<lparr>c_chan := ch, p_pc := l,
                        p_i := (if p_pc s = W_Unlock then Suc (p_i s) else p_i s)\<rparr>)))"

definition cv_ChildFlip :: "nat \<Rightarrow> bool \<Rightarrow> cv_sys \<Rightarrow> cv_sys option" where
  "cv_ChildFlip loop_size wake s =
     (if signalling (c_pc s)
      then (case signal_step (if Suc (c_i s) < loop_size then W_Lock else Flips_Done)
                   (c_pc s) (c_chan s) of
              None \<Rightarrow> None
            | Some (ch, l) \<Rightarrow>
                Some (s\<lparr>c_chan := ch, c_pc := l,
                        c_i := (if c_pc s = S_Notify then Suc (c_i s) else c_i s)\<rparr>))
      else (case await_step wake S_Lock (c_pc s) (p_chan s) of
              None \<Rightarrow> None
            | Some (ch, l) \<Rightarrow> Some (s\<lparr>p_chan := ch, c_pc := l\<rparr>)))"

text \<open>With \<open>spurious\<close> set, a sleeping thread may also wake up for no reason.\<close>

inductive cv_step :: "bool \<Rightarrow> nat \<Rightarrow> cv_sys \<Rightarrow> cv_sys \<Rightarrow> bool" for spurious n where
  parent: "(wake \<Longrightarrow> spurious) \<Longrightarrow> cv_ParentFlip n wake s = Some t \<Longrightarrow> cv_step spurious n s t"
| child: "(wake \<Longrightarrow> spurious) \<Longrightarrow> cv_ChildFlip n wake s = Some t \<Longrightarrow> cv_step spurious n s t"

definition fresh_channel :: channel where
  "fresh_channel = \<lparr>owner = None, ready = False, sleeping = False, sets = 0, clears = 0\<rparr>"

definition cv_init :: "nat \<Rightarrow> cv_sys" where
  "cv_init n =
     \<lparr>p_chan = fresh_channel, c_chan = fresh_channel,
      p_pc = (if 0 < n then S_Lock else Flips_Done), c_pc = (if 0 < n then W_Lock else Flips_Done),
      p_i = 0, c_i = 0\<rparr>"

definition cv_final :: "cv_sys \<Rightarrow> bool" where
  "cv_final s \<longleftrightarrow> p_pc s = Flips_Done \<and> c_pc s = Flips_Done"

section \<open>The invariant\<close>

text \<open>
  A channel with its signaller at \<open>ps\<close> and its waiter at \<open>pw\<close>: the mutex is held in the two
  critical sections only, the flag tells whether a set is still to be cleared, and somebody
  asleep while the flag is set is about to be notified.
\<close>

definition chan_ok :: "channel \<Rightarrow> cv_pc \<Rightarrow> cv_pc \<Rightarrow> bool" where
  "chan_ok ch ps pw \<longleftrightarrow>
     (owner ch = Some Signaler \<longleftrightarrow> ps = S_Set \<or> ps = S_Unlock) \<and>
     (owner ch = Some Waiter \<longleftrightarrow> pw = W_Check \<or> pw = W_Clear \<or> pw = W_Unlock) \<and>
     sets ch = (if ready ch then Suc (clears ch) else clears ch) \<and>
     (sleeping ch \<longrightarrow> pw = W_Sleep) \<and>
     (sleeping ch \<and> ready ch \<longrightarrow> ps = S_Unlock \<or> ps = S_Notify) \<and>
     (pw = W_Clear \<longrightarrow> ready ch)"

text \<open>What the position of a thread says of the flags it writes.\<close>

primrec parent_ok :: "nat \<Rightarrow> cv_pc \<Rightarrow> nat \<Rightarrow> nat \<Rightarrow> nat \<Rightarrow> bool" where
  "parent_ok n S_Lock i a d \<longleftrightarrow> i < n \<and> a = i \<and> d = i"
| "parent_ok n S_Set i a d \<longleftrightarrow> i < n \<and> a = i \<and> d = i"
| "parent_ok n S_Unlock i a d \<longleftrightarrow> i < n \<and> a = Suc i \<and> d = i"
| "parent_ok n S_Notify i a d \<longleftrightarrow> i < n \<and> a = Suc i \<and> d = i"
| "parent_ok n W_Lock i a d \<longleftrightarrow> i < n \<and> a = Suc i \<and> d = i"
| "parent_ok n W_Check i a d \<longleftrightarrow> i < n \<and> a = Suc i \<and> d = i"
| "parent_ok n W_Sleep i a d \<longleftrightarrow> i < n \<and> a = Suc i \<and> d = i"
| "parent_ok n W_Clear i a d \<longleftrightarrow> i < n \<and> a = Suc i \<and> d = i"
| "parent_ok n W_Unlock i a d \<longleftrightarrow> i < n \<and> a = Suc i \<and> d = Suc i"
| "parent_ok n Flips_Done i a d \<longleftrightarrow> i = n \<and> a = n \<and> d = n"

primrec child_ok :: "nat \<Rightarrow> cv_pc \<Rightarrow> nat \<Rightarrow> nat \<Rightarrow> nat \<Rightarrow> bool" where
  "child_ok n S_Lock j b c \<longleftrightarrow> j < n \<and> b = Suc j \<and> c = j"
| "child_ok n S_Set j b c \<longleftrightarrow> j < n \<and> b = Suc j \<and> c = j"
| "child_ok n S_Unlock j b c \<longleftrightarrow> j < n \<and> b = Suc j \<and> c = Suc j"
| "child_ok n S_Notify j b c \<longleftrightarrow> j < n \<and> b = Suc j \<and> c = Suc j"
| "child_ok n W_Lock j b c \<longleftrightarrow> j < n \<and> b = j \<and> c = j"
| "child_ok n W_Check j b c \<longleftrightarrow> j < n \<and> b = j \<and> c = j"
| "child_ok n W_Sleep j b c \<longleftrightarrow> j < n \<and> b = j \<and> c = j"
| "child_ok n W_Clear j b c \<longleftrightarrow> j < n \<and> b = j \<and> c = j"
| "child_ok n W_Unlock j b c \<longleftrightarrow> j < n \<and> b = Suc j \<and> c = j"
| "child_ok n Flips_Done j b c \<longleftrightarrow> j = n \<and> b = n \<and> c = n"

text \<open>One signal is under way at a time: each write is followed by the next one in a fixed cycle.\<close>

definition cycle_ok :: "nat \<Rightarrow> nat \<Rightarrow> nat \<Rightarrow> nat \<Rightarrow> bool" where
  "cycle_ok a b c d \<longleftrightarrow> d \<le> c \<and> c \<le> b \<and> b \<le> a \<and> a \<le> Suc d"

definition cv_ok :: "nat \<Rightarrow> cv_sys \<Rightarrow> bool" where
  "cv_ok n s \<longleftrightarrow>
     chan_ok (p_chan s) (p_pc s) (c_pc s) \<and> chan_ok (c_chan s) (c_pc s) (p_pc s) \<and>
     parent_ok n (p_pc s) (p_i s) (sets (p_chan s)) (clears (c_chan s)) \<and>
     child_ok n (c_pc s) (c_i s) (clears (p_chan s)) (sets (c_chan s)) \<and>
     cycle_ok (sets (p_chan s)) (clears (p_chan s)) (sets (c_chan s)) (clears (c_chan s))"

lemma cv_ok_init: "cv_ok n (cv_init n)"
  by (simp add: cv_ok_def cv_init_def fresh_channel_def chan_ok_def cycle_ok_def)

text \<open>A signal or a wait keeps its channel, and the other channel does not notice.\<close>

lemma signal_stepE:
  assumes "signal_step k l ch = Some (ch', l')"
  obtains (lock) "l = S_Lock" "l' = S_Set" "owner ch = None" "ch' = ch\<lparr>owner := Some Signaler\<rparr>"
    | (set) "l = S_Set" "l' = S_Unlock" "ch' = ch\<lparr>ready := True, sets := Suc (sets ch)\<rparr>"
    | (unlock) "l = S_Unlock" "l' = S_Notify" "ch' = ch\<lparr>owner := None\<rparr>"
    | (notify) "l = S_Notify" "l' = k" "ch' = ch\<lparr>sleeping := False\<rparr>"
  using assms by (cases l) (simp_all add: signal_step_def split: if_splits)

lemma await_stepE:
  assumes "await_step wake k l ch = Some (ch', l')"
  obtains (lock) "l = W_Lock" "l' = W_Check" "owner ch = None" "ch' = ch\<lparr>owner := Some Waiter\<rparr>"
    | (found) "l = W_Check" "l' = W_Clear" "ready ch" "ch' = ch"
    | (sleep) "l = W_Check" "l' = W_Sleep" "\<not> ready ch" "ch' = ch\<lparr>owner := None, sleeping := True\<rparr>"
    | (wake) "l = W_Sleep" "l' = W_Lock" "\<not> sleeping ch \<or> wake" "ch' = ch\<lparr>sleeping := False\<rparr>"
    | (clear) "l = W_Clear" "l' = W_Unlock" "ch' = ch\<lparr>ready := False, clears := Suc (clears ch)\<rparr>"
    | (unlock) "l = W_Unlock" "l' = k" "ch' = ch\<lparr>owner := None\<rparr>"
  using assms by (cases l) (simp_all add: await_step_def split: if_splits)

lemma chan_ok_signal:
  assumes "signal_step k l ch = Some (ch', l')" and "chan_ok ch l pw" and "k = W_Lock \<or> k = Flips_Done"
    and "l = S_Set \<Longrightarrow> \<not> ready ch"
  shows "chan_ok ch' l' pw"
  using assms(1)
proof (cases rule: signal_stepE)
  case set
  then have "owner ch = Some Signaler" "\<not> ready ch" using assms(2,4) by (simp_all add: chan_ok_def)
  then show ?thesis using assms(2) set by (simp add: chan_ok_def)
qed (use assms(2,3) in \<open>auto simp: chan_ok_def\<close>)

lemma chan_ok_await:
  assumes "await_step wake k l ch = Some (ch', l')" and "chan_ok ch ps l" and "k = S_Lock \<or> k = Flips_Done"
  shows "chan_ok ch' ps l'"
  using assms(1)
proof (cases rule: await_stepE)
  case sleep
  then have "owner ch = Some Waiter" using assms(2) by (simp add: chan_ok_def)
  then show ?thesis using assms(2) sleep by (simp add: chan_ok_def)
qed (use assms(2,3) in \<open>auto simp: chan_ok_def\<close>)

lemma other_chan_signal:
  assumes "signal_step k l ch = Some (ch', l')" and "chan_ok other ps l" and "k = W_Lock \<or> k = Flips_Done"
  shows "chan_ok other ps l'"
  using assms by (cases rule: signal_stepE) (auto simp: chan_ok_def)

lemma other_chan_await:
  assumes "await_step wake k l ch = Some (ch', l')" and "chan_ok other l pw" and "k = S_Lock \<or> k = Flips_Done"
  shows "chan_ok other l' pw"
  using assms by (cases rule: await_stepE) (auto simp: chan_ok_def)

lemma signal_counts:
  "signal_step k l ch = Some (ch', l') \<Longrightarrow> clears ch' = clears ch
     \<and> sets ch' = (if l = S_Set then Suc (sets ch) else sets ch)"
  by (cases l) (auto simp: signal_step_def split: if_splits)

lemma await_counts:
  "await_step wake k l ch = Some (ch', l') \<Longrightarrow> sets ch' = sets ch
     \<and> clears ch' = (if l = W_Clear then Suc (clears ch) else clears ch)"
  by (cases l) (auto simp: await_step_def split: if_splits)

text \<open>A flag is set only when the last set of it has been cleared.\<close>

lemma set_once:
  assumes "cv_ok n s"
  shows "p_pc s = S_Set \<Longrightarrow> \<not> ready (p_chan s)" "c_pc s = S_Set \<Longrightarrow> \<not> ready (c_chan s)"
proof -
  have cycle: "cycle_ok (sets (p_chan s)) (clears (p_chan s)) (sets (c_chan s)) (clears (c_chan s))"
    and flags: "sets (p_chan s) = (if ready (p_chan s) then Suc (clears (p_chan s)) else clears (p_chan s))"
      "sets (c_chan s) = (if ready (c_chan s) then Suc (clears (c_chan s)) else clears (c_chan s))"
    using assms unfolding cv_ok_def chan_ok_def by blast+
  show "\<not> ready (p_chan s)" if "p_pc s = S_Set"
  proof -
    have "sets (p_chan s) = clears (c_chan s)" using assms that by (simp add: cv_ok_def)
    then show ?thesis using cycle flags(1) by (simp add: cycle_ok_def split: if_splits)
  qed
  show "\<not> ready (c_chan s)" if "c_pc s = S_Set"
  proof -
    have "clears (p_chan s) = Suc (sets (c_chan s))" using assms that by (simp add: cv_ok_def)
    then show ?thesis using cycle flags(2) by (simp add: cycle_ok_def split: if_splits)
  qed
qed

lemma parent_step_ok:
  assumes "cv_ParentFlip n wake s = Some t" and "cv_ok n s"
  shows "cv_ok n t"
proof (cases "signalling (p_pc s)")
  case True
  then obtain ch l where st: "signal_step W_Lock (p_pc s) (p_chan s) = Some (ch, l)"
    and t: "t = s\<lparr>p_chan := ch, p_pc := l\<rparr>"
    using assms(1) by (auto simp: cv_ParentFlip_def split: option.splits)
  have inv: "chan_ok (p_chan s) (p_pc s) (c_pc s)" "chan_ok (c_chan s) (c_pc s) (p_pc s)"
    "parent_ok n (p_pc s) (p_i s) (sets (p_chan s)) (clears (c_chan s))"
    "cycle_ok (sets (p_chan s)) (clears (p_chan s)) (sets (c_chan s)) (clears (c_chan s))"
    using assms(2) by (simp_all add: cv_ok_def)
  have "parent_ok n l (p_i s) (sets ch) (clears (c_chan s))
      \<and> cycle_ok (sets ch) (clears ch) (sets (c_chan s)) (clears (c_chan s))"
    using st inv(3,4)
    by (cases rule: signal_stepE) (auto simp: cycle_ok_def)
  moreover note set_once [OF assms(2)]
  ultimately show ?thesis
    using assms(2) chan_ok_signal [OF st inv(1)] other_chan_signal [OF st inv(2)] signal_counts [OF st]
    by (simp add: t cv_ok_def)
next
  case False
  define k where "k = (if Suc (p_i s) < n then S_Lock else Flips_Done)"
  obtain ch l where st: "await_step wake k (p_pc s) (c_chan s) = Some (ch, l)"
    and t: "t = s\<lparr>c_chan := ch, p_pc := l, p_i := (if p_pc s = W_Unlock then Suc (p_i s) else p_i s)\<rparr>"
    using assms(1) False by (auto simp: cv_ParentFlip_def k_def split: option.splits)
  have inv: "chan_ok (c_chan s) (c_pc s) (p_pc s)" "chan_ok (p_chan s) (p_pc s) (c_pc s)"
    "parent_ok n (p_pc s) (p_i s) (sets (p_chan s)) (clears (c_chan s))"
    "cycle_ok (sets (p_chan s)) (clears (p_chan s)) (sets (c_chan s)) (clears (c_chan s))"
    using assms(2) by (simp_all add: cv_ok_def)
  have k: "k = S_Lock \<or> k = Flips_Done" by (simp add: k_def)
  have "parent_ok n l (p_i t) (sets (p_chan s)) (clears ch)
      \<and> cycle_ok (sets (p_chan s)) (clears (p_chan s)) (sets ch) (clears ch)"
    using st inv(1,3,4)
    by (cases rule: await_stepE) (auto simp: t k_def cycle_ok_def chan_ok_def)
  then show ?thesis
    using assms(2) chan_ok_await [OF st inv(1) k] other_chan_await [OF st inv(2) k] await_counts [OF st]
    by (simp add: t cv_ok_def)
qed

lemma child_step_ok:
  assumes "cv_ChildFlip n wake s = Some t" and "cv_ok n s"
  shows "cv_ok n t"
proof (cases "signalling (c_pc s)")
  case True
  define k where "k = (if Suc (c_i s) < n then W_Lock else Flips_Done)"
  obtain ch l where st: "signal_step k (c_pc s) (c_chan s) = Some (ch, l)"
    and t: "t = s\<lparr>c_chan := ch, c_pc := l, c_i := (if c_pc s = S_Notify then Suc (c_i s) else c_i s)\<rparr>"
    using assms(1) True by (auto simp: cv_ChildFlip_def k_def split: option.splits)
  have inv: "chan_ok (c_chan s) (c_pc s) (p_pc s)" "chan_ok (p_chan s) (p_pc s) (c_pc s)"
    "child_ok n (c_pc s) (c_i s) (clears (p_chan s)) (sets (c_chan s))"
    "cycle_ok (sets (p_chan s)) (clears (p_chan s)) (sets (c_chan s)) (clears (c_chan s))"
    using assms(2) by (simp_all add: cv_ok_def)
  have k: "k = W_Lock \<or> k = Flips_Done" by (simp add: k_def)
  have "child_ok n l (c_i t) (clears (p_chan s)) (sets ch)
      \<and> cycle_ok (sets (p_chan s)) (clears (p_chan s)) (sets ch) (clears ch)"
    using st inv(3,4)
    by (cases rule: signal_stepE) (auto simp: t k_def cycle_ok_def)
  moreover note set_once [OF assms(2)]
  ultimately show ?thesis
    using assms(2) chan_ok_signal [OF st inv(1) k] other_chan_signal [OF st inv(2) k] signal_counts [OF st]
    by (simp add: t cv_ok_def)
next
  case False
  then obtain ch l where st: "await_step wake S_Lock (c_pc s) (p_chan s) = Some (ch, l)"
    and t: "t = s\<lparr>p_chan := ch, c_pc := l\<rparr>"
    using assms(1) by (auto simp: cv_ChildFlip_def split: option.splits)
  have inv: "chan_ok (p_chan s) (p_pc s) (c_pc s)" "chan_ok (c_chan s) (c_pc s) (p_pc s)"
    "child_ok n (c_pc s) (c_i s) (clears (p_chan s)) (sets (c_chan s))"
    "cycle_ok (sets (p_chan s)) (clears (p_chan s)) (sets (c_chan s)) (clears (c_chan s))"
    using assms(2) by (simp_all add: cv_ok_def)
  have "child_ok n l (c_i s) (clears ch) (sets (c_chan s))
      \<and> cycle_ok (sets ch) (clears ch) (sets (c_chan s)) (clears (c_chan s))"
    using st inv(1,3,4)
    by (cases rule: await_stepE) (auto simp: cycle_ok_def chan_ok_def)
  then show ?thesis
    using assms(2) chan_ok_await [OF st inv(1)] other_chan_await [OF st inv(2)] await_counts [OF st]
    by (simp add: t cv_ok_def)
qed

lemma cv_ok_step: "cv_step spurious n s t \<Longrightarrow> cv_ok n s \<Longrightarrow> cv_ok n t"
  by (elim cv_step.cases) (auto intro: parent_step_ok child_step_ok)

section \<open>Progress\<close>

text \<open>
  How far a thread is: the passes it has completed, its position within the pass, and, while it
  waits, how near it is to sleeping (flag not set) or to noticing the flag (set).
\<close>

primrec parent_pos :: "cv_pc \<Rightarrow> nat" where
  "parent_pos S_Lock = 0" | "parent_pos S_Set = 1" | "parent_pos S_Unlock = 2" | "parent_pos S_Notify = 3"
| "parent_pos W_Lock = 4" | "parent_pos W_Check = 4" | "parent_pos W_Sleep = 4"
| "parent_pos W_Clear = 5" | "parent_pos W_Unlock = 6" | "parent_pos Flips_Done = 0"

primrec child_pos :: "cv_pc \<Rightarrow> nat" where
  "child_pos W_Lock = 0" | "child_pos W_Check = 0" | "child_pos W_Sleep = 0"
| "child_pos W_Clear = 1" | "child_pos W_Unlock = 2"
| "child_pos S_Lock = 3" | "child_pos S_Set = 4" | "child_pos S_Unlock = 5" | "child_pos S_Notify = 6"
| "child_pos Flips_Done = 0"

primrec wait_rank :: "bool \<Rightarrow> cv_pc \<Rightarrow> nat" where
  "wait_rank r W_Lock = (if r then 1 else 0)" | "wait_rank r W_Check = (if r then 2 else 1)"
| "wait_rank r W_Sleep = (if r then 0 else 2)"
| "wait_rank r W_Clear = 0" | "wait_rank r W_Unlock = 0" | "wait_rank r S_Lock = 0"
| "wait_rank r S_Set = 0" | "wait_rank r S_Unlock = 0" | "wait_rank r S_Notify = 0"
| "wait_rank r Flips_Done = 0"

definition cv_rank :: "cv_sys \<Rightarrow> nat" where
  "cv_rank s = 5 * (7 * p_i s + parent_pos (p_pc s) + 7 * c_i s + child_pos (c_pc s))
     + wait_rank (ready (c_chan s)) (p_pc s) + wait_rank (ready (p_chan s)) (c_pc s)"

lemma wait_rank_le: "wait_rank r l \<le> 2"
  by (cases l) simp_all

lemma cv_rank_bound:
  assumes "cv_ok n s"
  shows "cv_rank s \<le> 70 * n + 4"
proof -
  have "7 * p_i s + parent_pos (p_pc s) \<le> 7 * n"
    using assms by (cases "p_pc s") (auto simp: cv_ok_def)
  moreover have "7 * c_i s + child_pos (c_pc s) \<le> 7 * n"
    using assms by (cases "c_pc s") (auto simp: cv_ok_def)
  ultimately show ?thesis
    using wait_rank_le [of "ready (c_chan s)" "p_pc s"] wait_rank_le [of "ready (p_chan s)" "c_pc s"]
    by (simp add: cv_rank_def)
qed

text \<open>A thread is blocked by a taken mutex or because nobody has notified it.\<close>

definition unblocked :: "cv_pc \<Rightarrow> channel \<Rightarrow> channel \<Rightarrow> bool" where
  "unblocked l out inp \<longleftrightarrow>
     (case l of S_Lock \<Rightarrow> owner out = None | W_Lock \<Rightarrow> owner inp = None
      | W_Sleep \<Rightarrow> ready inp \<and> \<not> sleeping inp | Flips_Done \<Rightarrow> False | _ \<Rightarrow> True)"

lemma cv_parent_advances:
  assumes "cv_ok n s" and "unblocked (p_pc s) (p_chan s) (c_chan s)"
  shows "\<exists>t. cv_step False n s t \<and> cv_rank s < cv_rank t"
proof -
  have "\<exists>t. cv_ParentFlip n False s = Some t \<and> cv_rank s < cv_rank t"
    using assms wait_rank_le [of "ready (p_chan s)" "c_pc s"]
    by (cases "p_pc s")
      (auto simp: cv_ParentFlip_def signalling_def signal_step_def await_step_def unblocked_def
         cv_rank_def cv_ok_def)
  then show ?thesis by (blast intro: cv_step.parent)
qed

lemma cv_child_advances:
  assumes "cv_ok n s" and "unblocked (c_pc s) (c_chan s) (p_chan s)"
  shows "\<exists>t. cv_step False n s t \<and> cv_rank s < cv_rank t"
proof -
  have "\<exists>t. cv_ChildFlip n False s = Some t \<and> cv_rank s < cv_rank t"
    using assms wait_rank_le [of "ready (c_chan s)" "p_pc s"]
    by (cases "c_pc s")
      (auto simp: cv_ChildFlip_def signalling_def signal_step_def await_step_def unblocked_def
         cv_rank_def cv_ok_def)
  then show ?thesis by (blast intro: cv_step.child)
qed

text \<open>The two threads are never blocked at the same time.\<close>

lemma owner_cases: "owner ch = None \<longleftrightarrow> owner ch \<noteq> Some Signaler \<and> owner ch \<noteq> Some Waiter"
  by (cases "owner ch") (auto intro: role.exhaust)

lemma someone_unblocked:
  assumes "cv_ok n s" and "\<not> cv_final s"
  shows "unblocked (p_pc s) (p_chan s) (c_chan s) \<or> unblocked (c_pc s) (c_chan s) (p_chan s)"
  using assms
  by (cases "p_pc s"; cases "c_pc s")
    (simp_all add: cv_ok_def cv_final_def unblocked_def chan_ok_def owner_cases, (auto simp: cycle_ok_def split: if_splits)?)

interpretation cv_finish: can_finish "cv_init n" "cv_step False n" "cv_ok n" "\<lambda>s. 70 * n + 4 - cv_rank s"
    cv_final for n
proof
  show "cv_ok n (cv_init n)" by (rule cv_ok_init)
  show "cv_ok n t" if "cv_ok n s" "cv_step False n s t" for s t
    using cv_ok_step that by blast
  fix s
  assume s: "cv_ok n s" "\<not> cv_final s"
  then obtain t where t: "cv_step False n s t" "cv_rank s < cv_rank t"
    using someone_unblocked cv_parent_advances cv_child_advances by blast
  moreover have "cv_rank t \<le> 70 * n + 4" using cv_ok_step t(1) s(1) cv_rank_bound by blast
  ultimately have "70 * n + 4 - cv_rank t < 70 * n + 4 - cv_rank s" by linarith
  then show "\<exists>t. rtranclp (cv_step False n) s t \<and> 70 * n + 4 - cv_rank t < 70 * n + 4 - cv_rank s"
    using t(1) by blast
qed

lemma chan_exclusive:
  assumes "chan_ok ch ps pw"
  shows "\<not> (ps \<in> {S_Set, S_Unlock} \<and> pw \<in> {W_Check, W_Clear, W_Unlock})"
proof
  assume "ps \<in> {S_Set, S_Unlock} \<and> pw \<in> {W_Check, W_Clear, W_Unlock}"
  then have "owner ch = Some Signaler" "owner ch = Some Waiter" using assms by (auto simp: chan_ok_def)
  then show False by simp
qed

lemma chan_notifies: "chan_ok ch ps pw \<Longrightarrow> sleeping ch \<and> ready ch \<Longrightarrow> ps = S_Unlock \<or> ps = S_Notify"
  by (simp add: chan_ok_def)

lemma cv_reachable_ok: "rtranclp (cv_step spurious n) (cv_init n) s \<Longrightarrow> cv_ok n s"
  by (induction rule: rtranclp_induct) (auto intro: cv_ok_init cv_ok_step)

lemma cv_trip:
  assumes "cv_step spurious n s t" and "cv_ok n s"
  shows "trip_step (sets (p_chan s), sets (c_chan s)) (sets (p_chan t), sets (c_chan t))"
  using assms(1)
proof cases
  case (parent wake)
  show ?thesis
  proof (cases "p_pc s = S_Set")
    case True
    then have "sets (p_chan s) = sets (c_chan s)" using assms(2) by (auto simp: cv_ok_def cycle_ok_def)
    then show ?thesis
      using parent True by (auto simp: cv_ParentFlip_def signalling_def signal_step_def intro: trip_step.signal)
  next
    case False
    then have "sets (p_chan t) = sets (p_chan s) \<and> sets (c_chan t) = sets (c_chan s)"
      using parent by (auto simp: cv_ParentFlip_def dest: signal_counts await_counts split: option.splits if_splits)
    then show ?thesis by (simp add: trip_step.stutter)
  qed
next
  case (child wake)
  show ?thesis
  proof (cases "c_pc s = S_Set")
    case True
    then have "sets (p_chan s) = Suc (sets (c_chan s))"
      using assms(2) by (auto simp: cv_ok_def cycle_ok_def)
    then show ?thesis
      using child True by (auto simp: cv_ChildFlip_def signalling_def signal_step_def intro: trip_step.reply)
  next
    case False
    then have "sets (p_chan t) = sets (p_chan s) \<and> sets (c_chan t) = sets (c_chan s)"
      using child by (auto simp: cv_ChildFlip_def dest: signal_counts await_counts split: option.splits if_splits)
    then show ?thesis by (simp add: trip_step.stutter)
  qed
qed

interpretation cv_trips: round_trip "cv_init n" "cv_step spurious n"
    "\<lambda>s. sets (p_chan s)" "\<lambda>s. sets (c_chan s)" for n spurious
proof
  show "sets (p_chan (cv_init n)) = 0" "sets (c_chan (cv_init n)) = 0"
    by (simp_all add: cv_init_def fresh_channel_def)
  show "trip_step (sets (p_chan s), sets (c_chan s)) (sets (p_chan t), sets (c_chan t))"
    if "rtranclp (cv_step spurious n) (cv_init n) s" "cv_step spurious n s t" for s t
    using cv_trip that cv_reachable_ok by blast
qed

section \<open>The benchmark\<close>

definition RunConditionVariableLatencyBenchmark ::
  "int \<Rightarrow> int \<Rightarrow> u64 \<Rightarrow> dbl list \<Rightarrow> BenchmarkResult act" where
  "RunConditionVariableLatencyBenchmark num_iterations num_warmups loop_size elapsed_times =
     abind (benchmark_loop (latency_iteration 2 num_warmups loop_size)
              num_warmups num_iterations elapsed_times [])
       (\<lambda>durations. lift (CalculateOneTripDuration durations))"

section \<open>Properties\<close>

text \<open>
  C14 (invariant). No wake-up is lost, whatever spurious wake-ups and stale notifications occur: a
  thread is asleep with its flag set only while its partner is between setting the flag and the
  notification; each mutex is held by the thread in its critical section and nobody else; and a
  set of a flag is never lost by being set twice.
\<close>

theorem cv_no_lost_wakeup:
  assumes "rtranclp (cv_step spurious n) (cv_init n) s"
  shows "(sleeping (p_chan s) \<and> ready (p_chan s) \<longrightarrow> p_pc s = S_Unlock \<or> p_pc s = S_Notify) \<and>
    (sleeping (c_chan s) \<and> ready (c_chan s) \<longrightarrow> c_pc s = S_Unlock \<or> c_pc s = S_Notify) \<and>
    \<not> (p_pc s \<in> {S_Set, S_Unlock} \<and> c_pc s \<in> {W_Check, W_Clear, W_Unlock}) \<and>
    \<not> (c_pc s \<in> {S_Set, S_Unlock} \<and> p_pc s \<in> {W_Check, W_Clear, W_Unlock}) \<and>
    (p_pc s = S_Set \<longrightarrow> \<not> ready (p_chan s)) \<and> (c_pc s = S_Set \<longrightarrow> \<not> ready (c_chan s))"
proof -
  have ok: "cv_ok n s" by (rule cv_reachable_ok [OF assms])
  then have p: "chan_ok (p_chan s) (p_pc s) (c_pc s)" and c: "chan_ok (c_chan s) (c_pc s) (p_pc s)"
    by (simp_all add: cv_ok_def)
  show ?thesis
    using chan_notifies [OF p] chan_notifies [OF c] chan_exclusive [OF p] chan_exclusive [OF c]
      set_once [OF ok] by (intro conjI impI)
qed

theorem cv_no_lost_wakeup_witness:
  "\<not> ready (p_chan ((cv_init 2)\<lparr>p_pc := S_Set, p_chan := fresh_channel\<lparr>owner := Some Signaler\<rparr>\<rparr>))"
proof -
  define s where "s = (cv_init 2)\<lparr>p_pc := S_Set, p_chan := fresh_channel\<lparr>owner := Some Signaler\<rparr>\<rparr>"
  have "cv_step True 2 (cv_init 2) s"
    by (rule cv_step.parent [where wake = False])
      (simp_all add: s_def cv_ParentFlip_def cv_init_def fresh_channel_def signalling_def signal_step_def)
  then have "rtranclp (cv_step True 2) (cv_init 2) s" by simp
  from cv_no_lost_wakeup [OF this] have "\<not> ready (p_chan s)" by (simp add: s_def)
  then show ?thesis unfolding s_def .
qed

text \<open>
  C15 (liveness). From every state that is reachable with spurious wake-ups, both threads can finish
  without any further one, so no thread is left waiting for a notification that was given too early.
  The sets of the two flags alternate strictly, and at the end there were exactly
  \<open>2 * loop_size\<close> of them, the trips by which the benchmark divides; both flags are false again and
  both mutexes free.
\<close>

theorem cv_handshake_finishes:
  assumes "rtranclp (cv_step spurious n) (cv_init n) s"
  shows "(\<exists>t. rtranclp (cv_step False n) s t \<and> cv_final t)
    \<and> sets (c_chan s) \<le> sets (p_chan s) \<and> sets (p_chan s) \<le> Suc (sets (c_chan s))
    \<and> (cv_final s \<longrightarrow> sets (p_chan s) + sets (c_chan s) = 2 * n
         \<and> \<not> ready (p_chan s) \<and> \<not> ready (c_chan s)
         \<and> owner (p_chan s) = None \<and> owner (c_chan s) = None)"
proof -
  have ok: "cv_ok n s" by (rule cv_reachable_ok [OF assms])
  have "sets (p_chan s) + sets (c_chan s) = 2 * n \<and> \<not> ready (p_chan s) \<and> \<not> ready (c_chan s)
      \<and> owner (p_chan s) = None \<and> owner (c_chan s) = None" if "cv_final s"
    using ok that by (auto simp: cv_ok_def cv_final_def chan_ok_def owner_cases split: if_splits)
  then show ?thesis using cv_finish.finishes [OF ok] cv_trips.alternation [OF assms] by blast
qed

theorem cv_handshake_finishes_witness:
  "\<exists>t. rtranclp (cv_step False 3) (cv_init 3) t \<and> cv_final t"
  using cv_handshake_finishes [of True 3 "cv_init 3"] by simp

end
