(* ===== verification/Stream_Loops.thy ===== *)
theory Stream_Loops
  imports Iterations
begin

text \<open>
  The transfer loops of the benchmarks that move bytes through the kernel: send until
  \<^verbatim>\<open>data_size\<close> bytes are accepted, receive until \<^verbatim>\<open>data_size\<close> bytes have arrived or the
  peer is gone. The answers of the kernel are given as a list; a loop that needs more answers
  than the list holds is \<open>Blocked\<close>. The locales \<open>sending\<close> and \<open>receiving\<close> state what one
  pass of a loop does; each transport instantiates them with its own loop body.
\<close>

section \<open>Sending\<close>

text \<open>
  The state is \<^verbatim>\<open>total_sent\<close> and, as a history, the bytes that the kernel took so far.
\<close>

type_synonym send_state = "nat \<times> byte list"

fun send_loop ::
  "('r \<Rightarrow> send_state \<Rightarrow> send_state act) \<Rightarrow> nat \<Rightarrow> 'r list \<Rightarrow> send_state \<Rightarrow> send_state act" where
  "send_loop step data_size [] s = (if fst s < data_size then ([], Blocked) else ret s)"
| "send_loop step data_size (r # rs) s =
     (if fst s < data_size then abind (step r s) (send_loop step data_size rs) else ret s)"

text \<open>
  The body of the loop for a byte stream (\<^verbatim>\<open>write\<close> or \<^verbatim>\<open>send\<close>): offer at most
  \<^verbatim>\<open>buffer_size\<close> bytes; the kernel answers -1 or how many of them it took.
\<close>

definition stream_send_step ::
  "string \<Rightarrow> string \<Rightarrow> nat \<Rightarrow> nat \<Rightarrow> byte list \<Rightarrow> int \<Rightarrow> send_state \<Rightarrow> send_state act" where
  "stream_send_step call err data_size buffer_size data reply s =
     (let total_sent = fst s;
          bytes_to_send = min buffer_size (data_size - total_sent);
          chunk = take bytes_to_send (drop total_sent data)
      in andthen (emit (Call call))
           (if reply = -1 then lift (Abort err)
            else ret (total_sent + nat reply, snd s @ take (nat reply) chunk)))"

text \<open>
  \<open>complete\<close>: a list of answers that are honest (the kernel takes between one byte and all
  that was offered) and together accept everything. \<open>honest_while\<close>: the answers are honest as
  long as they are asked for.
\<close>

fun complete ::
  "(nat \<Rightarrow> 'r \<Rightarrow> bool) \<Rightarrow> (nat \<Rightarrow> 'r \<Rightarrow> nat) \<Rightarrow> nat \<Rightarrow> nat \<Rightarrow> 'r list \<Rightarrow> bool" where
  "complete honest amount n t [] = (t = n)"
| "complete honest amount n t (r # rs) =
     (t < n \<and> honest t r \<and> complete honest amount n (t + amount t r) rs)"

fun honest_while ::
  "(nat \<Rightarrow> 'r \<Rightarrow> bool) \<Rightarrow> (nat \<Rightarrow> 'r \<Rightarrow> nat) \<Rightarrow> nat \<Rightarrow> nat \<Rightarrow> 'r list \<Rightarrow> bool" where
  "honest_while honest amount n t [] = True"
| "honest_while honest amount n t (r # rs) =
     (t < n \<longrightarrow> honest t r \<and> honest_while honest amount n (t + amount t r) rs)"

locale sending =
  fixes step :: "'r \<Rightarrow> send_state \<Rightarrow> send_state act"
    and data_size :: nat
    and data :: "byte list"
    and honest :: "nat \<Rightarrow> 'r \<Rightarrow> bool"
    and amount :: "nat \<Rightarrow> 'r \<Rightarrow> nat"
  assumes progress: "t < data_size \<Longrightarrow> honest t r \<Longrightarrow> 0 < amount t r \<and> t + amount t r \<le> data_size"
    and pass: "t < data_size \<Longrightarrow> honest t r \<Longrightarrow>
      \<exists>evs. step r (t, take t data) = (evs, Val (t + amount t r, take (t + amount t r) data))
          \<and> barrier_trace evs = []"
begin

lemma send_complete:
  "complete honest amount data_size t rs \<Longrightarrow>
   \<exists>evs. send_loop step data_size rs (t, take t data) = (evs, Val (data_size, take data_size data))
       \<and> barrier_trace evs = []"
proof (induction rs arbitrary: t)
  case Nil
  then show ?case by (simp add: ret_def)
next
  case (Cons r rs)
  then obtain e1 where "step r (t, take t data) =
      (e1, Val (t + amount t r, take (t + amount t r) data))" "barrier_trace e1 = []"
    using pass [of t r] by auto
  moreover obtain e2 where "send_loop step data_size rs (t + amount t r, take (t + amount t r) data) =
      (e2, Val (data_size, take data_size data))" "barrier_trace e2 = []"
    using Cons by auto
  ultimately show ?case using Cons.prems by simp
qed

text \<open>The loop ends: as many honest answers as there are bytes are always enough.\<close>

lemma send_terminates:
  "honest_while honest amount data_size t rs \<Longrightarrow> t \<le> data_size \<Longrightarrow> data_size - t \<le> length rs \<Longrightarrow>
   snd (send_loop step data_size rs (t, take t data)) = Val (data_size, take data_size data)"
proof (induction rs arbitrary: t)
  case (Cons r rs)
  show ?case
  proof (cases "t < data_size")
    case True
    then have h: "honest t r" "honest_while honest amount data_size (t + amount t r) rs"
      using Cons.prems by simp_all
    note pr = progress [OF True h(1)]
    from pass [OF True h(1)] obtain e1 where "step r (t, take t data) =
        (e1, Val (t + amount t r, take (t + amount t r) data))" by blast
    moreover have "snd (send_loop step data_size rs (t + amount t r, take (t + amount t r) data)) =
        Val (data_size, take data_size data)"
      by (rule Cons.IH) (use h pr Cons.prems in auto)
    ultimately show ?thesis using True by simp
  qed (use Cons.prems in simp)
qed simp

end

text \<open>A stream write is honest when it takes between one byte and everything offered.\<close>

definition honest_write :: "nat \<Rightarrow> nat \<Rightarrow> nat \<Rightarrow> int \<Rightarrow> bool" where
  "honest_write data_size buffer_size t r \<longleftrightarrow>
     1 \<le> r \<and> r \<le> int (min buffer_size (data_size - t))"

definition taken :: "nat \<Rightarrow> int \<Rightarrow> nat" where
  "taken t r = nat r"

lemma stream_sending:
  "sending (stream_send_step call err data_size buffer_size data) data_size data
     (honest_write data_size buffer_size) taken"
proof
  fix t r
  assume t: "t < data_size" and h: "honest_write data_size buffer_size t r"
  then show "0 < taken t r \<and> t + taken t r \<le> data_size"
    by (auto simp: honest_write_def taken_def)
  have "take (nat r) (take (min buffer_size (data_size - t)) (drop t data)) =
      take (nat r) (drop t data)"
    using h by (simp add: honest_write_def min_def nat_le_iff)
  then show "\<exists>evs. stream_send_step call err data_size buffer_size data r (t, take t data) =
      (evs, Val (t + taken t r, take (t + taken t r) data)) \<and> barrier_trace evs = []"
    using h by (simp add: stream_send_step_def Let_def ret_def taken_def honest_write_def take_add)
qed

text \<open>With \<^verbatim>\<open>buffer_size\<close> zero every honest answer is zero, and the loop never ends.\<close>

lemma stream_send_zero_buffer:
  assumes "0 < data_size" and "list_all (\<lambda>r. r = 0) rs"
  shows "snd (send_loop (stream_send_step call err data_size 0 data) data_size rs (0, [])) = Blocked"
proof -
  have "s = (0, []) \<Longrightarrow>
    snd (send_loop (stream_send_step call err data_size 0 data) data_size rs s) = Blocked" for s
    using assms(2)
    by (induction rs arbitrary: s) (use assms(1) in \<open>auto simp: stream_send_step_def Let_def ret_def\<close>)
  then show ?thesis by simp
qed

text \<open>An answer of -1 is fatal.\<close>

lemma stream_send_error:
  "fst s < data_size \<Longrightarrow>
   snd (send_loop (stream_send_step call err data_size buffer_size data) data_size (-1 # rs) s) =
     Abort err"
  by (simp add: stream_send_step_def Let_def)

section \<open>Receiving\<close>

text \<open>An answer of the kernel: the error number, or the bytes (none of them at the end).\<close>

datatype recv_reply = RecvError string | RecvBytes "byte list"

text \<open>The state is \<^verbatim>\<open>total_received\<close> and the vector that holds the received data.\<close>

type_synonym recv_state = "nat \<times> byte list"

fun recv_loop ::
  "(recv_reply \<Rightarrow> recv_state \<Rightarrow> (bool \<times> recv_state) act) \<Rightarrow> nat \<Rightarrow> recv_reply list \<Rightarrow> recv_state
     \<Rightarrow> recv_state act" where
  "recv_loop step data_size [] s = (if fst s < data_size then ([], Blocked) else ret s)"
| "recv_loop step data_size (r # rs) s =
     (if fst s < data_size
      then abind (step r s)
             (\<lambda>(continue, s'). if continue then recv_loop step data_size rs s' else ret s')
      else ret s)"

text \<open>
  The loop body that appends to \<^verbatim>\<open>received_data\<close>, and the one that copies into a vector of
  \<^verbatim>\<open>data_size\<close> bytes at the current position. The kernel writes at most \<^verbatim>\<open>buffer_size\<close> bytes
  into \<^verbatim>\<open>recv_buffer\<close>; reading more from it would be out of bounds.
\<close>

definition append_recv_step ::
  "string \<Rightarrow> string \<Rightarrow> nat \<Rightarrow> recv_reply \<Rightarrow> recv_state \<Rightarrow> (bool \<times> recv_state) act" where
  "append_recv_step call err buffer_size reply s =
     andthen (emit (Call call))
       (case reply of
          RecvError _ \<Rightarrow> lift (Abort err)
        | RecvBytes bytes \<Rightarrow>
            if bytes = [] then ret (False, s)
            else if buffer_size < length bytes then lift (Undefined ''recv_buffer out of range'')
            else ret (True, fst s + length bytes, snd s @ bytes))"

definition copy_recv_step ::
  "string \<Rightarrow> string \<Rightarrow> nat \<Rightarrow> recv_reply \<Rightarrow> recv_state \<Rightarrow> (bool \<times> recv_state) act" where
  "copy_recv_step call err buffer_size reply s =
     andthen (emit (Call call))
       (case reply of
          RecvError _ \<Rightarrow> lift (Abort err)
        | RecvBytes bytes \<Rightarrow>
            if bytes = [] then ret (False, s)
            else if buffer_size < length bytes then lift (Undefined ''recv_buffer out of range'')
            else abind (lift (copy_into (snd s) (fst s) bytes))
                   (\<lambda>data. ret (True, fst s + length bytes, data)))"

definition piece_ok :: "nat \<Rightarrow> byte list \<Rightarrow> bool" where
  "piece_ok buffer_size p \<longleftrightarrow> p \<noteq> [] \<and> length p \<le> buffer_size"

locale receiving =
  fixes step :: "recv_reply \<Rightarrow> recv_state \<Rightarrow> (bool \<times> recv_state) act"
    and data_size :: nat
    and buffer_size :: nat
    and ok :: "recv_state \<Rightarrow> bool"
    and view :: "recv_state \<Rightarrow> byte list"
  assumes view_length: "ok s \<Longrightarrow> length (view s) = fst s"
    and some_bytes: "ok s \<Longrightarrow> piece_ok buffer_size b \<Longrightarrow> fst s + length b \<le> data_size \<Longrightarrow>
      \<exists>evs s'. step (RecvBytes b) s = (evs, Val (True, s')) \<and> ok s' \<and> view s' = view s @ b
             \<and> barrier_trace evs = []"
    and no_bytes: "\<exists>evs. step (RecvBytes []) s = (evs, Val (False, s)) \<and> barrier_trace evs = []"
begin

text \<open>The pieces of a whole transfer, and a transfer that the peer ends early.\<close>

lemma receive_all:
  "list_all (piece_ok buffer_size) ps \<Longrightarrow> ok s \<Longrightarrow> fst s + length (concat ps) = data_size \<Longrightarrow>
   \<exists>evs s'. recv_loop step data_size (map RecvBytes ps) s = (evs, Val s') \<and> ok s'
      \<and> view s' = view s @ concat ps \<and> barrier_trace evs = []"
proof (induction ps arbitrary: s)
  case Nil
  then show ?case by (simp add: ret_def)
next
  case (Cons p ps)
  have p: "piece_ok buffer_size p" and lt: "fst s < data_size"
    using Cons.prems by (auto simp: piece_ok_def)
  obtain e1 s1 where s1: "step (RecvBytes p) s = (e1, Val (True, s1))" "ok s1"
      "view s1 = view s @ p" "barrier_trace e1 = []"
    using some_bytes [OF Cons.prems(2) p] Cons.prems(3) by auto
  moreover have "fst s1 = fst s + length p"
    using view_length [OF s1(2)] view_length [OF Cons.prems(2)] s1(3) by simp
  ultimately obtain e2 s2 where "recv_loop step data_size (map RecvBytes ps) s1 = (e2, Val s2)"
      "ok s2" "view s2 = view s1 @ concat ps" "barrier_trace e2 = []"
    using Cons.IH [of s1] Cons.prems by auto
  with s1 lt show ?case by simp
qed

lemma receive_truncated:
  "list_all (piece_ok buffer_size) ps \<Longrightarrow> ok s \<Longrightarrow> fst s + length (concat ps) < data_size \<Longrightarrow>
   \<exists>evs s'. recv_loop step data_size (map RecvBytes ps @ RecvBytes [] # rest) s = (evs, Val s')
      \<and> ok s' \<and> view s' = view s @ concat ps \<and> barrier_trace evs = []"
proof (induction ps arbitrary: s)
  case Nil
  then show ?case using no_bytes [of s] by (cases s) (auto simp: ret_def)
next
  case (Cons p ps)
  have p: "piece_ok buffer_size p" and lt: "fst s < data_size"
    using Cons.prems by auto
  obtain e1 s1 where s1: "step (RecvBytes p) s = (e1, Val (True, s1))" "ok s1"
      "view s1 = view s @ p" "barrier_trace e1 = []"
    using some_bytes [OF Cons.prems(2) p] Cons.prems(3) by auto
  moreover have "fst s1 = fst s + length p"
    using view_length [OF s1(2)] view_length [OF Cons.prems(2)] s1(3) by simp
  ultimately obtain e2 s2 where
      "recv_loop step data_size (map RecvBytes ps @ RecvBytes [] # rest) s1 = (e2, Val s2)"
      "ok s2" "view s2 = view s1 @ concat ps" "barrier_trace e2 = []"
    using Cons.IH [of s1] Cons.prems by auto
  with s1 lt show ?case by simp
qed

end

section \<open>The two kinds of receive buffers\<close>

definition appended :: "recv_state \<Rightarrow> bool" where
  "appended s \<longleftrightarrow> length (snd s) = fst s"

lemma append_receiving:
  "receiving (append_recv_step call err buffer_size) data_size buffer_size appended snd"
  by unfold_locales
    (auto simp: append_recv_step_def appended_def piece_ok_def ret_def)

definition preallocated :: "byte list \<Rightarrow> recv_state \<Rightarrow> bool" where
  "preallocated buf s \<longleftrightarrow>
     fst s \<le> length buf \<and> length (snd s) = length buf \<and> drop (fst s) (snd s) = drop (fst s) buf"

definition filled_part :: "recv_state \<Rightarrow> byte list" where
  "filled_part s = take (fst s) (snd s)"

lemma copy_receiving:
  assumes "length buf = data_size"
  shows "receiving (copy_recv_step call err buffer_size) data_size buffer_size
     (preallocated buf) filled_part"
proof
  fix s b
  assume s: "preallocated buf s" and p: "piece_ok buffer_size b" and le: "fst s + length b \<le> data_size"
  moreover have "drop (fst s + length b) (snd s) = drop (fst s + length b) buf"
    using arg_cong [of "drop (fst s) (snd s)" "drop (fst s) buf" "drop (length b)"] s
    unfolding drop_drop preallocated_def by (simp add: add.commute)
  moreover have "fst s < data_size"
  proof -
    have "0 < length b" using p by (simp add: piece_ok_def)
    then show ?thesis using le by linarith
  qed
  ultimately show "\<exists>evs s'. copy_recv_step call err buffer_size (RecvBytes b) s = (evs, Val (True, s'))
      \<and> preallocated buf s' \<and> filled_part s' = filled_part s @ b \<and> barrier_trace evs = []"
    using assms by (simp add: copy_recv_step_def preallocated_def filled_part_def piece_ok_def
        ret_def copy_into_def min_def)
qed (auto simp: copy_recv_step_def preallocated_def filled_part_def ret_def)

lemma preallocated_split: "preallocated buf s \<Longrightarrow> snd s = filled_part s @ drop (fst s) buf"
  unfolding preallocated_def filled_part_def by (metis append_take_drop_id)

section \<open>System calls that are fatal when they fail\<close>

definition sys_call :: "string \<Rightarrow> int \<Rightarrow> string \<Rightarrow> unit act" where
  "sys_call name reply err =
     andthen (emit (Call name)) (if reply = -1 then lift (Abort err) else ret ())"

lemma sys_call_ok [simp]: "reply \<noteq> -1 \<Longrightarrow> sys_call name reply err = ([Call name], Val ())"
  by (simp add: sys_call_def ret_def)

lemma sys_call_fails [simp]: "sys_call name (-1) err = ([Call name], Abort err)"
  by (simp add: sys_call_def lift_def)

section \<open>Verification and the end of a round\<close>

definition verify_or_abort :: "byte list \<Rightarrow> nat \<Rightarrow> unit act" where
  "verify_or_abort received_data data_size =
     abind (lift (VerifyDataReceived received_data data_size))
       (\<lambda>ok. if ok then ret () else lift (Abort ''Data verification failed!''))"

lemma verify_or_abort_True:
  "VerifyDataReceived d n = Val True \<Longrightarrow> verify_or_abort d n = ([], Val ())"
  by (simp add: verify_or_abort_def ret_def)

lemma verify_or_abort_short:
  "CHECKSUM_SIZE < n \<Longrightarrow> length d \<noteq> n \<Longrightarrow>
   verify_or_abort d n = ([], Abort ''Data verification failed!'')"
  by (simp add: verify_or_abort_def VerifyDataReceived_eq lift_def)

text \<open>A measured round records its time, a warm-up round does not.\<close>

definition record_duration :: "bool \<Rightarrow> dbl \<Rightarrow> dbl list \<Rightarrow> dbl list" where
  "record_duration is_warmup elapsed durations =
     (if is_warmup then durations else durations @ [elapsed])"

text \<open>A payload is whatever verification accepts.\<close>

definition payload :: "nat \<Rightarrow> byte list \<Rightarrow> bool" where
  "payload n d \<longleftrightarrow> length d = n \<and> VerifyDataReceived d n = Val True"

lemma generated_payload: "GenerateDataToSend draws n = Val d \<Longrightarrow> payload n d"
  using generate_verify by (auto simp: payload_def)

section \<open>Rounds of a transfer\<close>

text \<open>What the kernel and the clock answer to the sender and to the receiver in one round.\<close>

record send_round =
  writes :: "int list"
  send_time :: dbl

record recv_round =
  reads :: "recv_reply list"
  recv_time :: dbl

text \<open>
  The contract of the transport: the receiver reads the bytes \<open>sent\<close>, in order and in non-empty
  pieces that fit its buffer.
\<close>

definition delivers :: "nat \<Rightarrow> byte list \<Rightarrow> recv_reply list \<Rightarrow> bool" where
  "delivers buffer_size sent replies \<longleftrightarrow>
     (let ps = map (\<lambda>r. case r of RecvBytes p \<Rightarrow> p | RecvError _ \<Rightarrow> []) replies
      in replies = map RecvBytes ps \<and> list_all (piece_ok buffer_size) ps \<and> concat ps = sent)"

lemma deliversE:
  assumes "delivers buffer_size sent replies"
  obtains ps where "replies = map RecvBytes ps" "list_all (piece_ok buffer_size) ps"
    "concat ps = sent"
  using assms unfolding delivers_def Let_def by blast

text \<open>The bytes that the kernel took from a sending loop that ended.\<close>

definition accepted :: "send_state act \<Rightarrow> byte list" where
  "accepted m = (case snd m of Val s \<Rightarrow> snd s | _ \<Rightarrow> [])"

definition all_sent :: "nat \<Rightarrow> nat \<Rightarrow> int list \<Rightarrow> bool" where
  "all_sent data_size buffer_size rs \<longleftrightarrow> complete (honest_write data_size buffer_size) taken data_size 0 rs"

lemma stream_send_all:
  assumes "all_sent data_size buffer_size rs" and "length data = data_size"
  shows "\<exists>evs. send_loop (stream_send_step call err data_size buffer_size data) data_size rs (0, []) =
     (evs, Val (data_size, data)) \<and> barrier_trace evs = []"
  using sending.send_complete [OF stream_sending, of data_size buffer_size 0 rs call err data] assms
  by (simp add: all_sent_def)

lemma append_recv_all:
  assumes "payload data_size data" and "delivers buffer_size data replies"
  shows "\<exists>evs. recv_loop (append_recv_step call err buffer_size) data_size replies (0, []) =
     (evs, Val (data_size, data)) \<and> barrier_trace evs = []"
proof -
  obtain ps where ps: "replies = map RecvBytes ps" "list_all (piece_ok buffer_size) ps" "concat ps = data"
    using deliversE [OF assms(2)] by blast
  show ?thesis
    using receiving.receive_all [OF append_receiving ps(2), of "(0, [])" data_size call err]
      ps assms(1) by (auto simp: appended_def payload_def)
qed

lemma copy_recv_all:
  assumes "payload data_size data" and "delivers buffer_size data replies"
    and "length buf = data_size"
  shows "\<exists>evs. recv_loop (copy_recv_step call err buffer_size) data_size replies (0, buf) =
     (evs, Val (data_size, data)) \<and> barrier_trace evs = []"
proof -
  obtain ps where ps: "replies = map RecvBytes ps" "list_all (piece_ok buffer_size) ps" "concat ps = data"
    using deliversE [OF assms(2)] by blast
  obtain evs s where s: "recv_loop (copy_recv_step call err buffer_size) data_size
        (map RecvBytes ps) (0, buf) = (evs, Val s)" "preallocated buf s"
      "filled_part s = data" "barrier_trace evs = []"
    using receiving.receive_all [OF copy_receiving [OF assms(3)] ps(2), of "(0, buf)" call err]
      ps(3) assms(1,3) by (auto simp: preallocated_def payload_def filled_part_def)
  have "fst s = data_size"
    using s(2,3) assms(1,3) by (auto simp: preallocated_def filled_part_def payload_def)
  then have "s = (data_size, data)"
    using preallocated_split [OF s(2)] s(3) assms(3) by (simp add: prod_eq_iff)
  then show ?thesis using s(1,4) ps(1) by simp
qed

text \<open>After an early end the rest of the preallocated vector keeps what it held before.\<close>

lemma copy_recv_truncated:
  assumes "list_all (piece_ok buffer_size) ps" and "length (concat ps) < data_size"
    and "length buf = data_size"
  shows "\<exists>evs s. recv_loop (copy_recv_step call err buffer_size) data_size
      (map RecvBytes ps @ RecvBytes [] # rest) (0, buf) = (evs, Val s)
      \<and> snd s = concat ps @ drop (length (concat ps)) buf \<and> barrier_trace evs = []"
proof -
  obtain evs s where s: "recv_loop (copy_recv_step call err buffer_size) data_size
        (map RecvBytes ps @ RecvBytes [] # rest) (0, buf) = (evs, Val s)" "preallocated buf s"
      "filled_part s = concat ps" "barrier_trace evs = []"
    using receiving.receive_truncated [OF copy_receiving [OF assms(3)] assms(1), of "(0, buf)" call err rest]
      assms(2,3) by (auto simp: preallocated_def filled_part_def)
  moreover have "fst s = length (concat ps)"
    using s(2,3) by (metis filled_part_def length_take min.absorb2 preallocated_def)
  ultimately show ?thesis using preallocated_split [OF s(2)] by auto
qed

lemma accepted_stream:
  "all_sent data_size buffer_size rs \<Longrightarrow> length data = data_size \<Longrightarrow>
   accepted (send_loop (stream_send_step call err data_size buffer_size data) data_size rs (0, [])) = data"
  using stream_send_all [of data_size buffer_size rs data call err] by (auto simp: accepted_def)

text \<open>A transfer that the peer ends early leaves the appended data short.\<close>

lemma append_recv_truncated:
  assumes "list_all (piece_ok buffer_size) ps" and "length (concat ps) < data_size"
  shows "\<exists>evs s. recv_loop (append_recv_step call err buffer_size) data_size
      (map RecvBytes ps @ RecvBytes [] # rest) (0, []) = (evs, Val s) \<and> snd s = concat ps"
  using receiving.receive_truncated [OF append_receiving assms(1), of "(0, [])" data_size call err rest]
    assms(2) by (auto simp: appended_def)

section \<open>A concrete transfer\<close>

text \<open>129 bytes, sent as 100 and 29 bytes through a buffer of 100, received as 64, 64 and 1.\<close>

definition sample_data :: "byte list" where
  "sample_data = replicate 129 0"

lemma sample_generated: "GenerateDataToSend (\<lambda>_. 0) 129 = Val sample_data"
  by code_simp

lemma sample_payload: "payload 129 sample_data"
  using generated_payload [OF sample_generated] .

definition sample_writes :: "int list" where
  "sample_writes = [100, 29]"

definition sample_reads :: "recv_reply list" where
  "sample_reads = map RecvBytes [replicate 64 0, replicate 64 0, [0]]"

lemma sample_all_sent: "all_sent 129 100 sample_writes"
  by (simp add: all_sent_def sample_writes_def honest_write_def taken_def)

lemma sample_delivers: "delivers 100 sample_data sample_reads"
proof -
  have "sample_data = replicate 64 0 @ replicate 64 0 @ [0 :: byte]"
    by code_simp
  then show ?thesis by (simp add: delivers_def sample_reads_def piece_ok_def Let_def)
qed

definition sample_srounds :: "send_round list" where
  "sample_srounds = replicate 2 \<lparr>writes = sample_writes, send_time = Fin 2\<rparr>"

definition sample_rrounds :: "recv_round list" where
  "sample_rrounds = replicate 2 \<lparr>reads = sample_reads, recv_time = Fin 3\<rparr>"

lemma sample_counts: "counts_ok 1 1 2"
  by (simp add: counts_ok_def int32_range_def)

lemma sample_result:
  "CalculateBandwidth [Fin 3] 1 129 = Val \<lparr>average = Fin 43, stddev = Fin 0\<rparr>"
  using CalculateBandwidth_Fin [of "[3]" 129] by (simp add: mean_def spread_def)

end
