(* ===== verification/Semaphore_Latency.thy ===== *)
theory Semaphore_Latency
  imports Round_Trip Stream_Loops
begin

text \<open>
  \<^verbatim>\<open>akbench/semaphore_latency.cc\<close>: two processes hand a turn back and forth with two named
  counting semaphores. \<^verbatim>\<open>sem_wait\<close> returns after it has decremented a positive count;
  an interruption by a signal handler, which the source does not look for, is not modelled.
  Unlike in the other latency programs the processes do not meet between two rounds.
\<close>

datatype sem_pc = Posting | Awaiting | Loops_Done

record sem_sys =
  parent_sem :: nat
  child_sem :: nat
  p_pc :: sem_pc
  c_pc :: sem_pc
  p_i :: nat
  p_j :: nat
  c_i :: nat
  c_j :: nat

text \<open>The next pass of an inner loop of \<open>n\<close> passes, or the first one of the next round.\<close>

definition next_pass :: "nat \<Rightarrow> nat \<Rightarrow> nat \<Rightarrow> nat \<times> nat" where
  "next_pass n i j = (if Suc j < n then (i, Suc j) else (Suc i, 0))"

definition sem_parent_loop :: "nat \<Rightarrow> nat \<Rightarrow> sem_sys \<Rightarrow> sem_sys option" where
  "sem_parent_loop loop_size rounds s =
     (case p_pc s of
        Posting \<Rightarrow> Some (s\<lparr>child_sem := Suc (child_sem s), p_pc := Awaiting\<rparr>)
      | Awaiting \<Rightarrow>
          (case parent_sem s of
             0 \<Rightarrow> None
           | Suc m \<Rightarrow>
               let (i, j) = next_pass loop_size (p_i s) (p_j s)
               in Some (s\<lparr>parent_sem := m, p_i := i, p_j := j,
                          p_pc := (if i < rounds then Posting else Loops_Done)\<rparr>))
      | Loops_Done \<Rightarrow> None)"

definition sem_child_loop :: "nat \<Rightarrow> nat \<Rightarrow> sem_sys \<Rightarrow> sem_sys option" where
  "sem_child_loop loop_size total_iterations s =
     (case c_pc s of
        Awaiting \<Rightarrow>
          (case child_sem s of
             0 \<Rightarrow> None
           | Suc m \<Rightarrow> Some (s\<lparr>child_sem := m, c_pc := Posting\<rparr>))
      | Posting \<Rightarrow>
          let (i, j) = next_pass loop_size (c_i s) (c_j s)
          in Some (s\<lparr>parent_sem := Suc (parent_sem s), c_i := i, c_j := j,
                     c_pc := (if i < total_iterations then Awaiting else Loops_Done)\<rparr>)
      | Loops_Done \<Rightarrow> None)"

inductive sem_step :: "nat \<Rightarrow> nat \<Rightarrow> sem_sys \<Rightarrow> sem_sys \<Rightarrow> bool" for n T where
  parent: "sem_parent_loop n T s = Some t \<Longrightarrow> sem_step n T s t"
| child: "sem_child_loop n T s = Some t \<Longrightarrow> sem_step n T s t"

text \<open>Both semaphores are created with count 0; loops without a pass end at once.\<close>

definition sem_init :: "nat \<Rightarrow> nat \<Rightarrow> sem_sys" where
  "sem_init n T =
     (if 0 < n \<and> 0 < T
      then \<lparr>parent_sem = 0, child_sem = 0, p_pc = Posting, c_pc = Awaiting,
            p_i = 0, p_j = 0, c_i = 0, c_j = 0\<rparr>
      else \<lparr>parent_sem = 0, child_sem = 0, p_pc = Loops_Done, c_pc = Loops_Done,
            p_i = T, p_j = 0, c_i = T, c_j = 0\<rparr>)"

definition sem_final :: "sem_sys \<Rightarrow> bool" where
  "sem_final s \<longleftrightarrow> p_pc s = Loops_Done \<and> c_pc s = Loops_Done"

section \<open>The turn\<close>

text \<open>Posts of the parent and of the child so far.\<close>

definition p_posts :: "nat \<Rightarrow> sem_sys \<Rightarrow> nat" where
  "p_posts n s = n * p_i s + p_j s + (if p_pc s = Awaiting then 1 else 0)"

definition c_posts :: "nat \<Rightarrow> sem_sys \<Rightarrow> nat" where
  "c_posts n s = n * c_i s + c_j s"

definition c_waits :: "nat \<Rightarrow> sem_sys \<Rightarrow> nat" where
  "c_waits n s = c_posts n s + (if c_pc s = Posting then 1 else 0)"

definition p_waits :: "nat \<Rightarrow> sem_sys \<Rightarrow> nat" where
  "p_waits n s = n * p_i s + p_j s"

definition position_ok :: "nat \<Rightarrow> nat \<Rightarrow> sem_pc \<Rightarrow> nat \<Rightarrow> nat \<Rightarrow> bool" where
  "position_ok n T l i j \<longleftrightarrow> (if l = Loops_Done then i = T \<and> j = 0 else i < T \<and> j < n)"

definition sem_ok :: "nat \<Rightarrow> nat \<Rightarrow> sem_sys \<Rightarrow> bool" where
  "sem_ok n T s \<longleftrightarrow>
     position_ok n T (p_pc s) (p_i s) (p_j s) \<and> position_ok n T (c_pc s) (c_i s) (c_j s) \<and>
     p_posts n s = c_waits n s + child_sem s \<and> c_posts n s = p_waits n s + parent_sem s"

lemma next_pass_count:
  "j < n \<Longrightarrow> next_pass n i j = (i', j') \<Longrightarrow> n * i' + j' = Suc (n * i + j)"
  by (auto simp: next_pass_def split: if_splits)

lemma next_pass_ok:
  "i < T \<Longrightarrow> j < n \<Longrightarrow> next_pass n i j = (i', j') \<Longrightarrow> l \<noteq> Loops_Done \<Longrightarrow>
   position_ok n T (if i' < T then l else Loops_Done) i' j'"
  by (auto simp: next_pass_def position_ok_def split: if_splits)

lemma sem_ok_init: "sem_ok n T (sem_init n T)"
  by (simp add: sem_ok_def sem_init_def position_ok_def p_posts_def c_posts_def c_waits_def p_waits_def)

lemma sem_parent_step:
  assumes "sem_parent_loop n T s = Some t" and "sem_ok n T s"
  shows "sem_ok n T t \<and> c_posts n t = c_posts n s \<and> c_waits n t = c_waits n s
    \<and> (p_posts n t = Suc (p_posts n s) \<and> p_waits n t = p_waits n s \<and> p_posts n s = c_posts n s
       \<or> p_posts n t = p_posts n s \<and> p_waits n t = Suc (p_waits n s))"
proof (cases "p_pc s")
  case Posting
  then have t: "t = s\<lparr>child_sem := Suc (child_sem s), p_pc := Awaiting\<rparr>"
    using assms(1) by (simp add: sem_parent_loop_def)
  have "p_posts n s = p_waits n s" "p_posts n t = Suc (p_posts n s)" "p_waits n t = p_waits n s"
      "c_posts n t = c_posts n s" "c_waits n t = c_waits n s" "c_posts n s \<le> c_waits n s"
    using Posting by (simp_all add: t p_posts_def c_posts_def c_waits_def p_waits_def)
  moreover have "position_ok n T (p_pc t) (p_i t) (p_j t)" "position_ok n T (c_pc t) (c_i t) (c_j t)"
    using assms(2) Posting by (simp_all add: t sem_ok_def position_ok_def)
  ultimately show ?thesis using assms(2) by (simp add: t sem_ok_def)
next
  case Awaiting
  obtain i j where np: "next_pass n (p_i s) (p_j s) = (i, j)" by fastforce
  obtain m where m: "parent_sem s = Suc m"
    and t: "t = s\<lparr>parent_sem := m, p_i := i, p_j := j, p_pc := (if i < T then Posting else Loops_Done)\<rparr>"
    using assms(1) Awaiting np by (auto simp: sem_parent_loop_def split: nat.splits)
  have "p_i s < T" "p_j s < n" using assms(2) Awaiting by (auto simp: sem_ok_def position_ok_def)
  then have "n * i + j = Suc (n * p_i s + p_j s)"
      "position_ok n T (if i < T then Posting else Loops_Done) i j"
    using next_pass_count np next_pass_ok [OF _ _ np] by simp_all
  moreover from this have "p_posts n t = p_posts n s" "p_waits n t = Suc (p_waits n s)"
      "c_posts n t = c_posts n s" "c_waits n t = c_waits n s"
    using Awaiting by (simp_all add: t p_posts_def c_posts_def c_waits_def p_waits_def)
  ultimately show ?thesis using assms(2) m by (simp add: t sem_ok_def)
qed (use assms(1) in \<open>simp add: sem_parent_loop_def\<close>)

lemma sem_child_step:
  assumes "sem_child_loop n T s = Some t" and "sem_ok n T s"
  shows "sem_ok n T t \<and> p_posts n t = p_posts n s \<and> p_waits n t = p_waits n s
    \<and> (c_posts n t = Suc (c_posts n s) \<and> c_waits n t = c_waits n s \<and> p_posts n s = Suc (c_posts n s)
       \<or> c_posts n t = c_posts n s \<and> c_waits n t = Suc (c_waits n s))"
proof (cases "c_pc s")
  case Awaiting
  then obtain m where m: "child_sem s = Suc m" and t: "t = s\<lparr>child_sem := m, c_pc := Posting\<rparr>"
    using assms(1) by (auto simp: sem_child_loop_def split: nat.splits)
  have "p_posts n t = p_posts n s" "p_waits n t = p_waits n s"
      "c_posts n t = c_posts n s" "c_waits n t = Suc (c_waits n s)"
    using Awaiting by (simp_all add: t p_posts_def c_posts_def c_waits_def p_waits_def)
  moreover have "position_ok n T (p_pc t) (p_i t) (p_j t)" "position_ok n T (c_pc t) (c_i t) (c_j t)"
    using assms(2) Awaiting by (simp_all add: t sem_ok_def position_ok_def)
  ultimately show ?thesis using assms(2) m by (simp add: t sem_ok_def)
next
  case Posting
  obtain i j where np: "next_pass n (c_i s) (c_j s) = (i, j)" by fastforce
  have t: "t = s\<lparr>parent_sem := Suc (parent_sem s), c_i := i, c_j := j,
                 c_pc := (if i < T then Awaiting else Loops_Done)\<rparr>"
    using assms(1) Posting np by (auto simp: sem_child_loop_def)
  have "c_i s < T" "c_j s < n" using assms(2) Posting by (auto simp: sem_ok_def position_ok_def)
  then have "n * i + j = Suc (n * c_i s + c_j s)"
      "position_ok n T (if i < T then Awaiting else Loops_Done) i j"
    using next_pass_count np next_pass_ok [OF _ _ np] by simp_all
  moreover from this have "p_posts n t = p_posts n s" "p_waits n t = p_waits n s"
      "c_posts n t = Suc (c_posts n s)" "c_waits n t = c_waits n s" "c_waits n s = Suc (c_posts n s)"
    using Posting by (simp_all add: t p_posts_def c_posts_def c_waits_def p_waits_def)
  moreover have "p_posts n s \<le> Suc (p_waits n s)" by (simp add: p_posts_def p_waits_def)
  ultimately show ?thesis using assms(2) by (simp add: t sem_ok_def)
qed (use assms(1) in \<open>simp add: sem_child_loop_def\<close>)

definition sem_rank :: "nat \<Rightarrow> sem_sys \<Rightarrow> nat" where
  "sem_rank n s = p_posts n s + p_waits n s + c_posts n s + c_waits n s"

lemma sem_step_ok:
  assumes "sem_step n T s t" and "sem_ok n T s"
  shows "sem_ok n T t \<and> sem_rank n t = Suc (sem_rank n s)
    \<and> trip_step (p_posts n s, c_posts n s) (p_posts n t, c_posts n t)"
  using assms(1)
proof cases
  case parent
  from sem_parent_step [OF this assms(2)] show ?thesis
    by (auto simp: sem_rank_def intro: trip_step.intros)
next
  case child
  from sem_child_step [OF this assms(2)] show ?thesis
    by (auto simp: sem_rank_def intro: trip_step.intros)
qed

lemma position_bound:
  assumes "position_ok n T l i j"
  shows "n * i + j + (if l = Loops_Done then 0 else 1) \<le> n * T"
proof (cases "l = Loops_Done")
  case False
  then have "Suc i \<le> T" "j < n" using assms by (auto simp: position_ok_def)
  then have "n * Suc i \<le> n * T" "n * i + j < n * Suc i" by (simp_all only: mult_le_mono2) simp
  then show ?thesis using False by simp
qed (use assms in \<open>simp add: position_ok_def\<close>)

lemma sem_rank_bound:
  assumes "sem_ok n T s"
  shows "sem_rank n s \<le> 4 * (n * T)"
proof -
  have "position_ok n T (p_pc s) (p_i s) (p_j s)" "position_ok n T (c_pc s) (c_i s) (c_j s)"
    using assms unfolding sem_ok_def by blast+
  from this [THEN position_bound]
  have "p_posts n s \<le> n * T" "p_waits n s \<le> n * T" "c_posts n s \<le> n * T" "c_waits n s \<le> n * T"
    by (cases "p_pc s"; cases "c_pc s"; simp add: p_posts_def p_waits_def c_posts_def c_waits_def)+
  then show ?thesis by (simp add: sem_rank_def)
qed

lemma parent_loop_moves:
  "p_pc s = Posting \<or> p_pc s = Awaiting \<and> 0 < parent_sem s \<Longrightarrow> \<exists>t. sem_parent_loop n T s = Some t"
  by (auto simp: sem_parent_loop_def gr0_conv_Suc split: prod.split)

lemma child_loop_moves:
  "c_pc s = Posting \<or> c_pc s = Awaiting \<and> 0 < child_sem s \<Longrightarrow> \<exists>t. sem_child_loop n T s = Some t"
  by (auto simp: sem_child_loop_def gr0_conv_Suc split: prod.split)

lemma sem_enabled:
  assumes "sem_ok n T s" and "\<not> sem_final s"
  shows "\<exists>t. sem_step n T s t"
proof -
  have can: "p_pc s = Posting \<or> p_pc s = Awaiting \<and> 0 < parent_sem s \<Longrightarrow> ?thesis"
      "c_pc s = Posting \<or> c_pc s = Awaiting \<and> 0 < child_sem s \<Longrightarrow> ?thesis"
    using parent_loop_moves [of s n T] child_loop_moves [of s n T] sem_step.parent sem_step.child by blast+
  have pos: "n * p_i s + p_j s + (if p_pc s = Loops_Done then 0 else 1) \<le> n * T"
      "n * c_i s + c_j s + (if c_pc s = Loops_Done then 0 else 1) \<le> n * T"
    using assms(1) position_bound unfolding sem_ok_def by blast+
  have counts: "p_posts n s = c_waits n s + child_sem s" "c_posts n s = p_waits n s + parent_sem s"
    using assms(1) by (simp_all add: sem_ok_def)
  have ends: "p_pc s = Loops_Done \<longrightarrow> p_posts n s = n * T \<and> p_waits n s = n * T"
      "c_pc s = Loops_Done \<longrightarrow> c_posts n s = n * T"
    using assms(1)
    by (auto simp: sem_ok_def position_ok_def p_posts_def p_waits_def c_posts_def)
  show ?thesis
  proof (cases "p_pc s")
    case Awaiting
    then have "0 < parent_sem s \<or> c_pc s = Posting \<or> c_pc s = Awaiting \<and> 0 < child_sem s"
      using counts pos ends
      by (cases "c_pc s") (auto simp: p_posts_def p_waits_def c_posts_def c_waits_def)
    then show ?thesis using can Awaiting by blast
  next
    case Loops_Done
    then have "c_pc s = Posting \<or> c_pc s = Awaiting \<and> 0 < child_sem s"
      using counts pos ends assms(2)
      by (cases "c_pc s") (auto simp: sem_final_def c_posts_def c_waits_def)
    then show ?thesis using can by blast
  qed (use can in blast)
qed

interpretation sem_progress: bounded_progress "sem_init n T" "sem_step n T" "sem_ok n T" "sem_rank n"
    "4 * (n * T)" sem_final for n T
proof
  show "sem_ok n T (sem_init n T)" by (rule sem_ok_init)
  show "sem_ok n T t" if "sem_ok n T s" "sem_step n T s t" for s t
    using sem_step_ok that by blast
  show "sem_rank n s < sem_rank n t" if "sem_ok n T s" "sem_step n T s t" for s t
    using sem_step_ok that by fastforce
  show "sem_rank n s \<le> 4 * (n * T)" if "sem_ok n T s" for s
    by (rule sem_rank_bound [OF that])
  show "\<exists>t. sem_step n T s t" if "sem_ok n T s" "\<not> sem_final s" for s
    by (rule sem_enabled [OF that])
qed

interpretation sem_trips: round_trip "sem_init n T" "sem_step n T" "p_posts n" "c_posts n" for n T
proof
  show "p_posts n (sem_init n T) = 0" "c_posts n (sem_init n T) = 0"
    by (simp_all add: sem_init_def p_posts_def c_posts_def)
  show "trip_step (p_posts n s, c_posts n s) (p_posts n t, c_posts n t)"
    if "rtranclp (sem_step n T) (sem_init n T) s" "sem_step n T s t" for s t
    using sem_step_ok sem_progress.reachable_ok that by blast
qed

section \<open>The benchmark\<close>

definition sem_ChildProcess :: "int \<Rightarrow> int \<Rightarrow> unit act" where
  "sem_ChildProcess parent_open child_open =
     andthen (sys_call ''sem_open'' parent_open ''Failed to open parent semaphore'')
     (andthen (sys_call ''sem_open'' child_open ''Failed to open child semaphore'')
     (andthen (emit (Call ''sem_close'')) (emit (Call ''sem_close''))))"

definition sem_ParentProcess ::
  "int \<Rightarrow> int \<Rightarrow> u64 \<Rightarrow> int \<Rightarrow> int \<Rightarrow> dbl list \<Rightarrow> dbl list act" where
  "sem_ParentProcess num_iterations num_warmups loop_size parent_open child_open elapsed_times =
     andthen (sys_call ''sem_open'' parent_open ''Failed to open parent semaphore'')
     (andthen (sys_call ''sem_open'' child_open ''Failed to open child semaphore'')
     (abind (benchmark_loop (latency_iteration 2 num_warmups loop_size)
               num_warmups num_iterations elapsed_times []) (\<lambda>durations.
     andthen (emit (Call ''sem_close''))
     (andthen (emit (Call ''sem_close'')) (ret durations)))))"

definition CleanupSemaphores :: "unit act" where
  "CleanupSemaphores = andthen (emit (Call ''sem_unlink'')) (emit (Call ''sem_unlink''))"

text \<open>
  \<open>opens\<close> are the answers of the four calls of \<^verbatim>\<open>sem_open\<close> that a process sees, \<open>-1\<close> for
  \<^verbatim>\<open>SEM_FAILED\<close>: two when the semaphores are created, two in the process itself.
\<close>

definition RunSemaphoreLatencyBenchmark ::
  "int \<Rightarrow> int \<Rightarrow> u64 \<Rightarrow> int \<times> int \<times> int \<times> int \<Rightarrow> int \<Rightarrow> dbl list \<Rightarrow> BenchmarkResult act" where
  "RunSemaphoreLatencyBenchmark num_iterations num_warmups loop_size opens pid elapsed_times =
     (case opens of (create_parent, create_child, parent_open, child_open) \<Rightarrow>
       andthen CleanupSemaphores
       (andthen (sys_call ''sem_open'' create_parent ''Failed to create parent semaphore'')
       (andthen (sys_call ''sem_open'' create_child ''Failed to create child semaphore'')
       (andthen (emit (Call ''sem_close''))
       (andthen (emit (Call ''sem_close''))
       (andthen (sys_call ''fork'' pid ''Fork failed'')
         (if pid = 0 then
            andthen (sem_ChildProcess parent_open child_open) (lift (Exit 0))
          else
            abind (sem_ParentProcess num_iterations num_warmups loop_size parent_open child_open
                     elapsed_times)
              (\<lambda>durations. andthen (emit (Call ''waitpid''))
                (andthen CleanupSemaphores (lift (CalculateOneTripDuration durations)))))))))))"

section \<open>Properties\<close>

text \<open>
  C18 (liveness). However the two processes are scheduled, every run of all \<open>T\<close> rounds ends after
  at most \<open>4 * loop_size * T\<close> semaphore operations and never deadlocks, although the processes do
  not meet between two rounds. The turn alternates strictly, both counts stay at most one
  together, and at the end every pass has made two trips, the divisor of the benchmark.
\<close>

theorem semaphore_handshake:
  assumes "(sem_step n T ^^ m) (sem_init n T) s"
  shows "m \<le> 4 * (n * T) \<and> parent_sem s + child_sem s \<le> 1
    \<and> c_posts n s \<le> p_posts n s \<and> p_posts n s \<le> Suc (c_posts n s)
    \<and> (sem_final s \<and> p_posts n s + c_posts n s = 2 * (n * T) \<or> (\<exists>t. sem_step n T s t))"
proof -
  have reach: "rtranclp (sem_step n T) (sem_init n T) s" using assms by (rule relpowp_imp_rtranclp)
  have ok: "sem_ok n T s" by (rule sem_progress.reachable_ok [OF reach])
  have "parent_sem s + child_sem s \<le> 1"
    using ok by (auto simp: sem_ok_def p_posts_def p_waits_def c_waits_def split: if_splits)
  moreover have "p_posts n s + c_posts n s = 2 * (n * T)" if "sem_final s"
    using ok that by (auto simp: sem_ok_def sem_final_def position_ok_def p_posts_def c_posts_def)
  ultimately show ?thesis
    using sem_progress.run_bounded [OF assms] sem_trips.alternation [OF reach] sem_enabled [OF ok] by blast
qed

theorem semaphore_handshake_witness:
  "p_posts 2 ((sem_init 2 3)\<lparr>child_sem := 1, p_pc := Awaiting\<rparr>) = 1
    \<and> parent_sem (sem_init 2 3) + child_sem ((sem_init 2 3)\<lparr>child_sem := 1, p_pc := Awaiting\<rparr>) \<le> 1"
proof -
  have "(sem_step 2 3 ^^ 1) (sem_init 2 3) ((sem_init 2 3)\<lparr>child_sem := 1, p_pc := Awaiting\<rparr>)"
    unfolding relpowp_1 by (rule sem_step.parent) (simp add: sem_init_def sem_parent_loop_def)
  from semaphore_handshake [OF this] show ?thesis by (simp add: sem_init_def p_posts_def)
qed

end
