(* ===== verification/Latency_Results.thy ===== *)
theory Latency_Results
  imports Atomic_Latency Condition_Variable_Latency Semaphore_Latency
begin









end
