(* ===== verification/Syscall_Latency.thy ===== *)
theory Syscall_Latency
  imports Iterations
begin

text \<open>
  \<^verbatim>\<open>akbench/syscall_latency.cc\<close>: rounds of \<^verbatim>\<open>loop_size\<close> calls of \<^verbatim>\<open>statfs\<close>, \<^verbatim>\<open>fstatfs\<close> or
  \<^verbatim>\<open>getpid\<close>, whose answers the source ignores. The time of a round over the number of calls is
  recorded. Only \<^verbatim>\<open>fstatfs\<close> can fail, when the current directory cannot be opened; it then
  reports a negative latency instead of stopping the program.
\<close>

definition call_time :: "u64 \<Rightarrow> dbl \<Rightarrow> dbl" where
  "call_time loop_size elapsed = ddiv elapsed (double_of_nat (unat loop_size))"

definition syscall_iteration ::
  "string \<Rightarrow> int \<Rightarrow> u64 \<Rightarrow> int \<Rightarrow> dbl \<Rightarrow> dbl list \<Rightarrow> dbl list act" where
  "syscall_iteration name num_warmups loop_size i elapsed durations =
     (replicate (unat loop_size) (Call name),
      Val (if num_warmups \<le> i then durations @ [call_time loop_size elapsed] else durations))"

definition RunStatfsLatencyBenchmark :: "int \<Rightarrow> int \<Rightarrow> u64 \<Rightarrow> dbl list \<Rightarrow> BenchmarkResult act" where
  "RunStatfsLatencyBenchmark num_iterations num_warmups loop_size elapsed_times =
     abind (benchmark_loop (syscall_iteration ''statfs'' num_warmups loop_size)
              num_warmups num_iterations elapsed_times [])
       (\<lambda>durations. lift (CalculateOneTripDuration durations))"

definition RunFstatfsLatencyBenchmark ::
  "int \<Rightarrow> int \<Rightarrow> u64 \<Rightarrow> int \<Rightarrow> dbl list \<Rightarrow> BenchmarkResult act" where
  "RunFstatfsLatencyBenchmark num_iterations num_warmups loop_size fd elapsed_times =
     andthen (emit (Call ''open''))
       (if fd = -1 then ret \<lparr>average = Fin (-1), stddev = Fin 0\<rparr>
        else
          abind (benchmark_loop (syscall_iteration ''fstatfs'' num_warmups loop_size)
                   num_warmups num_iterations elapsed_times [])
            (\<lambda>durations. andthen (emit (Call ''close'')) (lift (CalculateOneTripDuration durations))))"

definition RunGetpidLatencyBenchmark :: "int \<Rightarrow> int \<Rightarrow> u64 \<Rightarrow> dbl list \<Rightarrow> BenchmarkResult act" where
  "RunGetpidLatencyBenchmark num_iterations num_warmups loop_size elapsed_times =
     abind (benchmark_loop (syscall_iteration ''getpid'' num_warmups loop_size)
              num_warmups num_iterations elapsed_times [])
       (\<lambda>durations. lift (CalculateOneTripDuration durations))"

section \<open>Rounds of calls\<close>

interpretation syscall_rounds: measured_rounds
  "syscall_iteration name W L" "\<lambda>_. True" "\<lambda>_. True" "\<lambda>ds. ds" "call_time L" 0 W for name W L
  by unfold_locales (auto simp: syscall_iteration_def)

lemma syscall_events:
  "i + int (length es) = bound \<Longrightarrow>
   fst (for_iterations (syscall_iteration name W L) bound i es ds) =
     replicate (length es * unat L) (Call name)"
  by (induction es arbitrary: i ds)
    (simp_all add: syscall_iteration_def ret_def replicate_add)

lemma syscall_loop:
  assumes "int (length es) = W + N" and "int32_range (W + N)"
  shows "benchmark_loop (syscall_iteration name W L) W N es [] =
     (replicate (length es * unat L) (Call name), Val (map (call_time L) (drop (nat W) es)))"
proof -
  have "list_all (\<lambda>_. True) es" by (simp add: list_all_iff)
  then obtain durations evs where
      r: "benchmark_loop (syscall_iteration name W L) W N es [] = (evs, Val durations)"
      "durations = map (call_time L) (drop (nat W) es)"
    by (rule syscall_rounds.benchmark [OF _ TrueI refl assms])
  moreover have "evs = replicate (length es * unat L) (Call name)"
    using syscall_events [of 0 es "W + N" name W L "[]"] r(1) assms
    by (simp add: benchmark_loop_def add_int32_def)
  ultimately show ?thesis by simp
qed

section \<open>Properties\<close>

text \<open>
  C21 (functional). Each benchmark makes exactly \<open>loop_size\<close> calls in each of the warm-up and
  measured rounds and returns the statistics of the time per call of the measured ones. When the
  directory cannot be opened, the \<^verbatim>\<open>fstatfs\<close> benchmark makes no call and reports -1 seconds.
\<close>

theorem syscall_results:
  assumes "int (length es) = W + N" and "int32_range (W + N)"
  shows "RunStatfsLatencyBenchmark N W L es =
      (replicate (length es * unat L) (Call ''statfs''),
       CalculateOneTripDuration (map (call_time L) (drop (nat W) es))) \<and>
    RunGetpidLatencyBenchmark N W L es =
      (replicate (length es * unat L) (Call ''getpid''),
       CalculateOneTripDuration (map (call_time L) (drop (nat W) es))) \<and>
    RunFstatfsLatencyBenchmark N W L fd es =
      (if fd = -1 then ([Call ''open''], Val \<lparr>average = Fin (-1), stddev = Fin 0\<rparr>)
       else (Call ''open'' # replicate (length es * unat L) (Call ''fstatfs'') @ [Call ''close''],
             CalculateOneTripDuration (map (call_time L) (drop (nat W) es))))"
  by (simp add: RunStatfsLatencyBenchmark_def RunGetpidLatencyBenchmark_def
      RunFstatfsLatencyBenchmark_def syscall_loop [OF assms])

theorem syscall_results_witness:
  "RunGetpidLatencyBenchmark 3 1 2 [Fin 8, Fin 6, Fin 6, Fin 6] =
     (replicate 8 (Call ''getpid''), CalculateOneTripDuration [Fin 3, Fin 3, Fin 3])"
  using syscall_results [of "[Fin 8, Fin 6, Fin 6, Fin 6]" 1 3 2]
  by (simp add: int32_range_def call_time_def double_of_nat_def)

end
