(* ===== verification/Barrier_Latency.thy ===== *)
theory Barrier_Latency
  imports Iterations
begin

text \<open>
  \<^verbatim>\<open>akbench/barrier_latency.cc\<close>: every run forks one child and lets both processes go
  \<^verbatim>\<open>loop_size\<close> times through the sense-reversing barrier of the bandwidth tests. A run is
  recorded by the answer of \<^verbatim>\<open>fork\<close> and the elapsed nanoseconds. Times stay in nanoseconds
  until the statistics are converted to seconds.
\<close>

record barrier_run =
  fork_reply :: int
  elapsed_ns :: int

definition ChildBarrierProcess :: "u64 \<Rightarrow> unit act" where
  "ChildBarrierProcess loop_size =
     andthen (emit BarrierNew)
       (andthen (replicate (unat loop_size) BarrierWait, Val ()) (emit BarrierDelete))"

text \<open>\<open>fork\<close> answers 0 in the child, which ends here, and the child's pid in the parent.\<close>

definition RunSingleBenchmark :: "u64 \<Rightarrow> barrier_run \<Rightarrow> dbl act" where
  "RunSingleBenchmark loop_size run =
     andthen (emit (Call ''fork''))
       (if fork_reply run < 0 then lift (Abort ''Fork failed'')
        else if fork_reply run = 0 then andthen (ChildBarrierProcess loop_size) (lift (Exit 0))
        else
          andthen (emit BarrierNew)
          (andthen (replicate (unat loop_size) BarrierWait, Val ())
          (andthen (emit (Call ''waitpid''))
          (andthen (emit BarrierDelete)
            (ret (ddiv (Fin (of_int (elapsed_ns run))) (double_of_nat (unat loop_size))))))))"

definition warmup_iteration :: "u64 \<Rightarrow> int \<Rightarrow> barrier_run \<Rightarrow> unit \<Rightarrow> unit act" where
  "warmup_iteration loop_size i run u =
     abind (RunSingleBenchmark loop_size run) (\<lambda>_. emit BarrierClear)"

definition measurement_iteration :: "u64 \<Rightarrow> int \<Rightarrow> barrier_run \<Rightarrow> dbl list \<Rightarrow> dbl list act" where
  "measurement_iteration loop_size i run measurements =
     abind (RunSingleBenchmark loop_size run)
       (\<lambda>latency_ns. andthen (emit BarrierClear) (ret (measurements @ [latency_ns])))"

definition RunBarrierLatencyBenchmark ::
  "int \<Rightarrow> int \<Rightarrow> u64 \<Rightarrow> barrier_run list \<Rightarrow> barrier_run list \<Rightarrow> BenchmarkResult act" where
  "RunBarrierLatencyBenchmark num_iterations num_warmups loop_size warmup_runs runs =
     andthen (emit BarrierClear)
     (abind (for_iterations (warmup_iteration loop_size) num_warmups 0 warmup_runs ()) (\<lambda>_.
      abind (for_iterations (measurement_iteration loop_size) num_iterations 0 runs []) (\<lambda>measurements.
      abind (lift (CalculateOneTripDuration measurements)) (\<lambda>result.
      ret (result\<lparr>average := ddiv (average result) (Fin 1000000000),
                  stddev := ddiv (stddev result) (Fin 1000000000)\<rparr>)))))"

section \<open>Runs\<close>

definition parent_runs :: "barrier_run list \<Rightarrow> bool" where
  "parent_runs runs \<longleftrightarrow> list_all (\<lambda>r. 0 < fork_reply r) runs"

text \<open>The barrier calls of the parent in one run, with the clean-up after it.\<close>

definition run_trace :: "u64 \<Rightarrow> event list" where
  "run_trace loop_size = barrier_lifetime (unat loop_size) @ [BarrierClear]"

lemma barrier_trace_waits [simp]:
  "barrier_trace (replicate n BarrierWait) = replicate n BarrierWait"
  by (simp add: barrier_trace_def)

definition run_latency :: "u64 \<Rightarrow> barrier_run \<Rightarrow> dbl" where
  "run_latency L r = ddiv (Fin (of_int (elapsed_ns r))) (double_of_nat (unat L))"

lemma RunSingleBenchmark_parent:
  assumes "0 < fork_reply r"
  obtains evs where "RunSingleBenchmark L r = (evs, Val (run_latency L r))"
    and "barrier_trace evs @ [BarrierClear] = run_trace L"
proof
  show "RunSingleBenchmark L r = (fst (RunSingleBenchmark L r), Val (run_latency L r))"
    using assms by (simp add: prod_eq_iff RunSingleBenchmark_def run_latency_def andthen_def emit_def)
  show "barrier_trace (fst (RunSingleBenchmark L r)) @ [BarrierClear] = run_trace L"
    using assms by (simp add: RunSingleBenchmark_def run_trace_def barrier_lifetime_def andthen_def emit_def)
qed

lemma warmup_loop:
  "parent_runs rs \<Longrightarrow> i + int (length rs) = bound \<Longrightarrow>
   \<exists>evs. for_iterations (warmup_iteration L) bound i rs u = (evs, Val ())
     \<and> barrier_trace evs = concat (replicate (length rs) (run_trace L))"
proof (induction rs arbitrary: i u)
  case (Cons r rs)
  have r: "0 < fork_reply r" "parent_runs rs" using Cons.prems by (simp_all add: parent_runs_def)
  obtain e where e: "RunSingleBenchmark L r = (e, Val (run_latency L r))"
      "barrier_trace e @ [BarrierClear] = run_trace L"
    by (rule RunSingleBenchmark_parent [OF r(1)])
  obtain evs where "for_iterations (warmup_iteration L) bound (i + 1) rs () = (evs, Val ())"
      "barrier_trace evs = concat (replicate (length rs) (run_trace L))"
    using Cons.IH [OF r(2)] Cons.prems by fastforce
  moreover have "warmup_iteration L i r u = (e @ [BarrierClear], Val ())"
    using e(1) by (simp add: warmup_iteration_def emit_def)
  ultimately show ?case using Cons.prems e(2) by (auto simp flip: append_assoc)
qed (simp add: ret_def)

lemma measurement_loop:
  "parent_runs rs \<Longrightarrow> i + int (length rs) = bound \<Longrightarrow>
   \<exists>evs. for_iterations (measurement_iteration L) bound i rs ms = (evs, Val (ms @ map (run_latency L) rs))
     \<and> barrier_trace evs = concat (replicate (length rs) (run_trace L))"
proof (induction rs arbitrary: i ms)
  case (Cons r rs)
  have r: "0 < fork_reply r" "parent_runs rs" using Cons.prems by (simp_all add: parent_runs_def)
  obtain e where e: "RunSingleBenchmark L r = (e, Val (run_latency L r))"
      "barrier_trace e @ [BarrierClear] = run_trace L"
    by (rule RunSingleBenchmark_parent [OF r(1)])
  obtain evs where "for_iterations (measurement_iteration L) bound (i + 1) rs (ms @ [run_latency L r]) =
        (evs, Val ((ms @ [run_latency L r]) @ map (run_latency L) rs))"
      "barrier_trace evs = concat (replicate (length rs) (run_trace L))"
    using Cons.IH [OF r(2)] Cons.prems by fastforce
  moreover have "measurement_iteration L i r ms = (e @ [BarrierClear], Val (ms @ [run_latency L r]))"
    using e(1) by (simp add: measurement_iteration_def)
  ultimately show ?case using Cons.prems e(2) by (auto simp flip: append_assoc)
qed (simp add: ret_def)

section \<open>Changing the unit\<close>

text \<open>Both statistics are homogeneous: they may be converted after the fact.\<close>

lemma sum_list_divide: "sum_list (map (\<lambda>x. x / c) xs) = sum_list xs / (c :: real)"
  by (induction xs) (simp_all add: add_divide_distrib)

lemma spread_divide: "spread (m / c) (map (\<lambda>x. x / c) xs) = spread m xs / c\<^sup>2"
  by (simp add: spread_def sum_list_divide [symmetric] power_divide o_def diff_divide_distrib [symmetric])

lemma one_trip_scales:
  assumes "2 \<le> length xs" and "0 < c"
  obtains a d where "CalculateOneTripDuration (map Fin xs) = Val \<lparr>average = Fin a, stddev = Fin d\<rparr>"
    and "CalculateOneTripDuration (map (\<lambda>x. Fin (x / c)) xs) =
           Val \<lparr>average = Fin (a / c), stddev = Fin (d / c)\<rparr>"
proof
  define inner where "inner = butlast (tl xs)"
  define m where "m = sum_list inner / real (length xs)"
  define d where "d = sqrt (spread m inner / real (length xs))"
  show "CalculateOneTripDuration (map Fin xs) = Val \<lparr>average = Fin m, stddev = Fin d\<rparr>"
    using CalculateOneTripDuration_Fin [OF assms(1)] by (simp add: m_def d_def inner_def Let_def)
  let ?ys = "map (\<lambda>x. x / c) xs"
  have i: "butlast (tl ?ys) = map (\<lambda>x. x / c) inner" by (simp add: inner_def map_butlast map_tl)
  have a: "sum_list (map (\<lambda>x. x / c) inner) / real (length xs) = m / c"
    by (simp add: sum_list_divide m_def)
  have "sqrt (spread m inner / c\<^sup>2 / real (length xs)) = d / c"
    using assms(2) by (simp add: d_def real_sqrt_divide real_sqrt_mult)
  then show "CalculateOneTripDuration (map (\<lambda>x. Fin (x / c)) xs) =
      Val \<lparr>average = Fin (m / c), stddev = Fin (d / c)\<rparr>"
    using CalculateOneTripDuration_Fin [of ?ys] assms(1)
    by (simp add: i a Let_def spread_divide o_def)
qed

section \<open>Properties\<close>

text \<open>
  C20 (equivalence). Converting the statistics from nanoseconds at the end gives what measuring in
  seconds gives. In every run the parent and the child construct the barrier, wait
  \<open>loop_size\<close> times and destroy it, so the calls of both match; the barrier's name is cleared
  before the first and after every run.
\<close>

theorem barrier_latency_in_seconds:
  assumes "0 < unat L" and "parent_runs warmups" and "parent_runs runs"
    and "int (length warmups) = W" and "int (length runs) = N" and "2 \<le> N"
  shows "snd (RunBarrierLatencyBenchmark N W L warmups runs) =
      CalculateOneTripDuration
        (map (\<lambda>r. Fin (real_of_int (elapsed_ns r) / real (unat L) / 1000000000)) runs)
    \<and> barrier_trace (fst (RunBarrierLatencyBenchmark N W L warmups runs)) =
        BarrierClear # concat (replicate (nat (W + N)) (barrier_lifetime (unat L) @ [BarrierClear]))
    \<and> RunSingleBenchmark L \<lparr>fork_reply = 0, elapsed_ns = t\<rparr> =
        (Call ''fork'' # barrier_lifetime (unat L), Exit 0)"
proof -
  define xs where "xs = map (\<lambda>r. real_of_int (elapsed_ns r) / real (unat L)) runs"
  have "real (unat L) \<noteq> 0" using assms(1) by linarith
  then have fin: "map (run_latency L) runs = map Fin xs"
    by (simp add: xs_def run_latency_def double_of_nat_def)
  have len: "2 \<le> length xs" using assms(5,6) by (simp add: xs_def)
  obtain a d where r: "CalculateOneTripDuration (map Fin xs) = Val \<lparr>average = Fin a, stddev = Fin d\<rparr>"
    "CalculateOneTripDuration (map (\<lambda>x. Fin (x / 1000000000)) xs) =
       Val \<lparr>average = Fin (a / 1000000000), stddev = Fin (d / 1000000000)\<rparr>"
    by (rule one_trip_scales [OF len, of 1000000000]) auto
  obtain evs where w: "for_iterations (warmup_iteration L) W 0 warmups () = (evs, Val ())"
      "barrier_trace evs = concat (replicate (length warmups) (run_trace L))"
    using warmup_loop [of warmups 0 W L "()"] assms(2,4) by auto
  obtain evs' where m: "for_iterations (measurement_iteration L) N 0 runs [] = (evs', Val (map Fin xs))"
      "barrier_trace evs' = concat (replicate (length runs) (run_trace L))"
    using measurement_loop [of runs 0 N L "[]"] assms(3,5) fin by auto
  have n: "nat (W + N) = length warmups + length runs" using assms(4,5) by auto
  have "CalculateOneTripDuration (map (\<lambda>r. Fin (real_of_int (elapsed_ns r) / real (unat L) / 1000000000)) runs)
      = Val \<lparr>average = Fin (a / 1000000000), stddev = Fin (d / 1000000000)\<rparr>"
    using r(2) by (simp add: xs_def o_def)
  then show ?thesis
    using w m r(1)
    by (simp add: RunBarrierLatencyBenchmark_def n replicate_add run_trace_def
        RunSingleBenchmark_def ChildBarrierProcess_def barrier_lifetime_def andthen_def emit_def lift_def)
qed

theorem barrier_latency_in_seconds_witness:
  "snd (RunBarrierLatencyBenchmark 3 1 2 [\<lparr>fork_reply = 7, elapsed_ns = 9\<rparr>]
      (replicate 3 \<lparr>fork_reply = 7, elapsed_ns = 4000000000\<rparr>)) =
    CalculateOneTripDuration [Fin 2, Fin 2, Fin 2]"
  using barrier_latency_in_seconds [of 2 "[\<lparr>fork_reply = 7, elapsed_ns = 9\<rparr>]"
      "replicate 3 \<lparr>fork_reply = 7, elapsed_ns = 4000000000\<rparr>" 1 3]
  by (simp add: parent_runs_def numeral_3_eq_3)

end
