(* ===== verification/Pipe_Bandwidth.thy ===== *)
theory Pipe_Bandwidth
  imports Stream_Loops
begin

text \<open>
  \<^verbatim>\<open>akbench/pipe_bandwidth.cc\<close>: the child writes the payload into a pipe, the parent reads and
  verifies it, once per round, with one barrier call per round on each side.
\<close>

section \<open>The sender\<close>

definition pipe_send_step :: "nat \<Rightarrow> nat \<Rightarrow> byte list \<Rightarrow> int \<Rightarrow> send_state \<Rightarrow> send_state act" where
  "pipe_send_step = stream_send_step ''write'' ''send: write''"

definition pipe_send_iteration ::
  "int \<Rightarrow> nat \<Rightarrow> nat \<Rightarrow> byte list \<Rightarrow> int \<Rightarrow> send_round \<Rightarrow> dbl list \<Rightarrow> dbl list act" where
  "pipe_send_iteration num_warmups data_size buffer_size data_to_send iteration r durations =
     (let is_warmup = iteration < num_warmups
      in andthen (emit BarrierWait)
        (abind (send_loop (pipe_send_step data_size buffer_size data_to_send) data_size
                  (writes r) (0, []))
          (\<lambda>_. ret (record_duration is_warmup (send_time r) durations))))"

definition pipe_SendProcess ::
  "int \<Rightarrow> int \<Rightarrow> nat \<Rightarrow> nat \<Rightarrow> (nat \<Rightarrow> u64) \<Rightarrow> send_round list \<Rightarrow> unit act" where
  "pipe_SendProcess num_warmups num_iterations data_size buffer_size draws rounds =
     andthen (emit BarrierNew)
       (abind (lift (GenerateDataToSend draws data_size)) (\<lambda>data_to_send.
        abind (benchmark_loop (pipe_send_iteration num_warmups data_size buffer_size data_to_send)
                 num_warmups num_iterations rounds []) (\<lambda>durations.
        abind (lift (CalculateBandwidth durations num_iterations data_size)) (\<lambda>result.
        andthen (emit (Call ''close write_fd'')) (emit BarrierDelete)))))"

section \<open>The receiver\<close>

definition pipe_recv_step :: "nat \<Rightarrow> recv_reply \<Rightarrow> recv_state \<Rightarrow> (bool \<times> recv_state) act" where
  "pipe_recv_step = append_recv_step ''read'' ''receive: read''"

definition pipe_receive_iteration ::
  "int \<Rightarrow> nat \<Rightarrow> nat \<Rightarrow> int \<Rightarrow> recv_round \<Rightarrow> dbl list \<Rightarrow> dbl list act" where
  "pipe_receive_iteration num_warmups data_size buffer_size iteration r durations =
     (let is_warmup = iteration < num_warmups
      in andthen (emit BarrierWait)
        (abind (recv_loop (pipe_recv_step buffer_size) data_size (reads r) (0, [])) (\<lambda>s.
         let durations = record_duration is_warmup (recv_time r) durations
         in andthen (verify_or_abort (snd s) data_size) (ret durations))))"

definition pipe_ReceiveProcess ::
  "int \<Rightarrow> int \<Rightarrow> nat \<Rightarrow> nat \<Rightarrow> recv_round list \<Rightarrow> BenchmarkResult act" where
  "pipe_ReceiveProcess num_warmups num_iterations data_size buffer_size rounds =
     andthen (emit BarrierNew)
       (abind (benchmark_loop (pipe_receive_iteration num_warmups data_size buffer_size)
                 num_warmups num_iterations rounds []) (\<lambda>durations.
        abind (lift (CalculateBandwidth durations num_iterations data_size)) (\<lambda>result.
        andthen (emit (Call ''close read_fd''))
          (andthen (emit BarrierDelete) (ret result)))))"

section \<open>The benchmark\<close>

text \<open>
  \<open>pipe_reply\<close> and \<open>pid\<close> are what \<^verbatim>\<open>pipe\<close> and \<^verbatim>\<open>fork\<close> return; the child (\<open>pid = 0\<close>)
  sends, the parent receives.
\<close>

definition RunPipeBandwidthBenchmark ::
  "int \<Rightarrow> int \<Rightarrow> nat \<Rightarrow> nat \<Rightarrow> int \<Rightarrow> int \<Rightarrow> (nat \<Rightarrow> u64) \<Rightarrow> send_round list \<Rightarrow> recv_round list
     \<Rightarrow> BenchmarkResult act" where
  "RunPipeBandwidthBenchmark num_iterations num_warmups data_size buffer_size pipe_reply pid draws
      srounds rrounds =
     andthen (emit (Call ''pipe''))
       (if pipe_reply = -1 then lift (Abort ''pipe'')
        else andthen (emit (Call ''fork''))
          (if pid = -1 then lift (Abort ''fork'')
           else if pid = 0 then
             andthen (emit (Call ''close read_fd''))
               (andthen (pipe_SendProcess num_warmups num_iterations data_size buffer_size draws srounds)
                  (lift (Exit 0)))
           else
             andthen (emit (Call ''close write_fd''))
               (abind (pipe_ReceiveProcess num_warmups num_iterations data_size buffer_size rrounds)
                  (\<lambda>result. andthen (emit (Call ''waitpid''))
                    (andthen (emit BarrierClear) (ret result))))))"

section \<open>Rounds\<close>

interpretation pipe_sender: measured_rounds
  "pipe_send_iteration W n b data" "\<lambda>r. length data = n \<and> all_sent n b (writes r)"
  "\<lambda>_. True" "\<lambda>ds. ds" send_time 1 W for W n b data
proof
  fix r :: send_round and ds i
  assume "length data = n \<and> all_sent n b (writes r)"
  then obtain evs where "send_loop (pipe_send_step n b data) n (writes r) (0, []) = (evs, Val (n, data))"
      "barrier_trace evs = []"
    using stream_send_all unfolding pipe_send_step_def by blast
  then show "\<exists>s'. snd (pipe_send_iteration W n b data i r ds) = Val s' \<and> True
       \<and> s' = (if i < W then ds else ds @ [send_time r])"
    and "barrier_trace (fst (pipe_send_iteration W n b data i r ds)) = replicate 1 BarrierWait"
    by (simp_all add: pipe_send_iteration_def record_duration_def)
qed

interpretation pipe_receiver: measured_rounds
  "pipe_receive_iteration W n b" "\<lambda>r. payload n data \<and> delivers b data (reads r)"
  "\<lambda>_. True" "\<lambda>ds. ds" recv_time 1 W for W n b data
proof
  fix r :: recv_round and ds i
  assume g: "payload n data \<and> delivers b data (reads r)"
  then obtain evs where "recv_loop (pipe_recv_step b) n (reads r) (0, []) = (evs, Val (n, data))"
      "barrier_trace evs = []"
    using append_recv_all unfolding pipe_recv_step_def by blast
  then show "\<exists>s'. snd (pipe_receive_iteration W n b i r ds) = Val s' \<and> True
       \<and> s' = (if i < W then ds else ds @ [recv_time r])"
    and "barrier_trace (fst (pipe_receive_iteration W n b i r ds)) = replicate 1 BarrierWait"
    using g by (simp_all add: pipe_receive_iteration_def record_duration_def verify_or_abort_True
        payload_def andthen_def)
qed

section \<open>Processes\<close>

lemma pipe_SendProcess_ok:
  assumes "GenerateDataToSend draws n = Val data" and "counts_ok W N (length rounds)"
    and "list_all (\<lambda>r. all_sent n b (writes r)) rounds"
  shows "\<exists>evs. pipe_SendProcess W N n b draws rounds = (evs, Val ())
     \<and> barrier_trace evs = barrier_lifetime (length rounds)"
proof -
  have "list_all (\<lambda>r. length data = n \<and> all_sent n b (writes r)) rounds"
    using assms(3) generated_payload [OF assms(1)] by (simp add: payload_def list_all_iff)
  then obtain durations evs result where
      "benchmark_loop (pipe_send_iteration W n b data) W N rounds [] = (evs, Val durations)" "True"
      "durations = map send_time (drop (nat W) rounds)"
      "barrier_trace evs = replicate (1 * length rounds) BarrierWait"
      "CalculateBandwidth (map send_time (drop (nat W) rounds)) N n = Val result"
    by (rule pipe_sender.benchmark_statistics [OF _ TrueI refl assms(2)])
  then show ?thesis
    using assms(1) by (simp add: pipe_SendProcess_def barrier_lifetime_def act_defs)
qed

lemma pipe_ReceiveProcess_ok:
  assumes "payload n data" and "counts_ok W N (length rounds)"
    and "list_all (\<lambda>r. delivers b data (reads r)) rounds"
  shows "\<exists>evs result. pipe_ReceiveProcess W N n b rounds = (evs, Val result)
     \<and> CalculateBandwidth (map recv_time (drop (nat W) rounds)) N n = Val result
     \<and> barrier_trace evs = barrier_lifetime (length rounds)"
proof -
  have "list_all (\<lambda>r. payload n data \<and> delivers b data (reads r)) rounds"
    using assms(1,3) by (simp add: list_all_iff)
  then obtain durations evs result where
      "benchmark_loop (pipe_receive_iteration W n b) W N rounds [] = (evs, Val durations)" "True"
      "durations = map recv_time (drop (nat W) rounds)"
      "barrier_trace evs = replicate (1 * length rounds) BarrierWait"
      "CalculateBandwidth (map recv_time (drop (nat W) rounds)) N n = Val result"
    by (rule pipe_receiver.benchmark_statistics [OF _ TrueI refl assms(2)])
  then show ?thesis
    by (simp add: pipe_ReceiveProcess_def barrier_lifetime_def act_defs)
qed

section \<open>Properties of the pipe benchmark\<close>

text \<open>
  C30 (functional). End to end: when every \<^verbatim>\<open>write\<close> takes between one byte and all it was offered,
  and the pipe hands the bytes written in a round to the reader in that round in any non-empty
  pieces, then the child exits with 0, and the parent accepts every round and returns the statistics
  of exactly the rounds after the warm-up. Both sides use the barrier equally often, and the parent
  clears its names at the end.
\<close>

theorem pipe_end_to_end:
  assumes "GenerateDataToSend draws n = Val data" and "counts_ok W N (length srounds)"
    and "list_all (\<lambda>s. all_sent n b (writes s)) srounds"
    and "list_all2 (\<lambda>s r. delivers b
           (accepted (send_loop (pipe_send_step n b data) n (writes s) (0, []))) (reads r))
         srounds rrounds"
    and "fd \<noteq> -1" and "pid \<noteq> -1" and "pid \<noteq> 0"
  shows "snd (RunPipeBandwidthBenchmark N W n b fd 0 draws srounds rrounds) = Exit 0
    \<and> snd (RunPipeBandwidthBenchmark N W n b fd pid draws srounds rrounds) =
        CalculateBandwidth (map recv_time (drop (nat W) rrounds)) N n
    \<and> (\<exists>result. CalculateBandwidth (map recv_time (drop (nat W) rrounds)) N n = Val result)
    \<and> barrier_trace (fst (RunPipeBandwidthBenchmark N W n b fd 0 draws srounds rrounds)) =
        barrier_lifetime (nat (W + N))
    \<and> barrier_trace (fst (RunPipeBandwidthBenchmark N W n b fd pid draws srounds rrounds)) =
        barrier_lifetime (nat (W + N)) @ [BarrierClear]"
proof -
  have len: "length rrounds = length srounds" using assms(4) by (simp add: list_all2_lengthD)
  have pay: "payload n data" by (rule generated_payload [OF assms(1)])
  have "list_all (\<lambda>r. delivers b data (reads r)) rrounds"
    using assms(3,4) pay accepted_stream [of n b _ data]
    by (fastforce simp: list_all2_conv_all_nth list_all_length pipe_send_step_def payload_def)
  moreover have rc: "counts_ok W N (length rrounds)" using assms(2) len by simp
  ultimately obtain evs result where r: "pipe_ReceiveProcess W N n b rrounds = (evs, Val result)"
      "CalculateBandwidth (map recv_time (drop (nat W) rrounds)) N n = Val result"
      "barrier_trace evs = barrier_lifetime (length rrounds)"
    using pipe_ReceiveProcess_ok [OF pay] by blast
  obtain evs' where s: "pipe_SendProcess W N n b draws srounds = (evs', Val ())"
      "barrier_trace evs' = barrier_lifetime (length srounds)"
    using pipe_SendProcess_ok [OF assms(1-3)] by blast
  show ?thesis
    using r s assms(5-7) len counts_ok_nat [OF assms(2)]
    by (simp add: RunPipeBandwidthBenchmark_def act_defs)
qed

theorem pipe_end_to_end_witness:
  "snd (RunPipeBandwidthBenchmark 1 1 129 100 0 77 (\<lambda>_. 0) sample_srounds sample_rrounds) =
     Val \<lparr>average = Fin 43, stddev = Fin 0\<rparr>"
proof -
  have "snd (RunPipeBandwidthBenchmark 1 1 129 100 0 77 (\<lambda>_. 0) sample_srounds sample_rrounds) =
      CalculateBandwidth (map recv_time (drop (nat 1) sample_rrounds)) 1 129"
  proof (rule pipe_end_to_end [where data = sample_data, THEN conjunct2, THEN conjunct1])
    show "list_all2 (\<lambda>s r. delivers 100
           (accepted (send_loop (pipe_send_step 129 100 sample_data) 129 (writes s) (0, []))) (reads r))
         sample_srounds sample_rrounds"
      using sample_delivers sample_payload sample_all_sent accepted_stream [of 129 100 _ sample_data]
      by (simp add: sample_srounds_def sample_rrounds_def pipe_send_step_def payload_def numeral_2_eq_2)
  qed (use sample_generated sample_counts sample_all_sent in
      \<open>simp_all add: sample_srounds_def numeral_2_eq_2\<close>)
  then show ?thesis by (simp add: sample_rrounds_def sample_result numeral_2_eq_2)
qed



end
