(* ===== verification/Fifo_Bandwidth.thy ===== *)
theory Fifo_Bandwidth
  imports Stream_Loops
begin

text \<open>
  \<^verbatim>\<open>akbench/fifo_bandwidth.cc\<close>: as the pipe benchmark, through a named FIFO that both sides open
  and close in every round. Both open it before the barrier call of the round.
\<close>

record fifo_send_round = send_round +
  write_fd :: int

record fifo_recv_round = recv_round +
  read_fd :: int

section \<open>The sender\<close>

definition fifo_send_step :: "nat \<Rightarrow> nat \<Rightarrow> byte list \<Rightarrow> int \<Rightarrow> send_state \<Rightarrow> send_state act" where
  "fifo_send_step = stream_send_step ''write'' ''send: write''"

definition fifo_send_iteration ::
  "int \<Rightarrow> nat \<Rightarrow> nat \<Rightarrow> byte list \<Rightarrow> int \<Rightarrow> fifo_send_round \<Rightarrow> dbl list \<Rightarrow> dbl list act" where
  "fifo_send_iteration num_warmups data_size buffer_size data_to_send iteration r durations =
     (let is_warmup = iteration < num_warmups
      in andthen (emit (Call ''open''))
        (if write_fd r = -1 then lift (Abort ''send: open FIFO for writing'')
         else andthen (emit BarrierWait)
           (abind (send_loop (fifo_send_step data_size buffer_size data_to_send) data_size
                     (writes r) (0, []))
             (\<lambda>_. let durations = record_duration is_warmup (send_time r) durations
                  in andthen (emit (Call ''close'')) (ret durations)))))"

definition fifo_SendProcess ::
  "int \<Rightarrow> int \<Rightarrow> nat \<Rightarrow> nat \<Rightarrow> (nat \<Rightarrow> u64) \<Rightarrow> fifo_send_round list \<Rightarrow> unit act" where
  "fifo_SendProcess num_warmups num_iterations data_size buffer_size draws rounds =
     andthen (emit BarrierNew)
       (abind (lift (GenerateDataToSend draws data_size)) (\<lambda>data_to_send.
        abind (benchmark_loop (fifo_send_iteration num_warmups data_size buffer_size data_to_send)
                 num_warmups num_iterations rounds []) (\<lambda>durations.
        abind (lift (CalculateBandwidth durations num_iterations data_size)) (\<lambda>result.
        emit BarrierDelete))))"

section \<open>The receiver\<close>

definition fifo_recv_step :: "nat \<Rightarrow> recv_reply \<Rightarrow> recv_state \<Rightarrow> (bool \<times> recv_state) act" where
  "fifo_recv_step = append_recv_step ''read'' ''receive: read''"

definition fifo_receive_iteration ::
  "int \<Rightarrow> nat \<Rightarrow> nat \<Rightarrow> int \<Rightarrow> fifo_recv_round \<Rightarrow> dbl list \<Rightarrow> dbl list act" where
  "fifo_receive_iteration num_warmups data_size buffer_size iteration r durations =
     (let is_warmup = iteration < num_warmups
      in andthen (emit (Call ''open''))
        (if read_fd r = -1 then lift (Abort ''receive: open FIFO for reading'')
         else andthen (emit BarrierWait)
           (abind (recv_loop (fifo_recv_step buffer_size) data_size (reads r) (0, [])) (\<lambda>s.
            let durations = record_duration is_warmup (recv_time r) durations
            in andthen (verify_or_abort (snd s) data_size)
                 (andthen (emit (Call ''close'')) (ret durations))))))"

definition fifo_ReceiveProcess ::
  "int \<Rightarrow> int \<Rightarrow> nat \<Rightarrow> nat \<Rightarrow> fifo_recv_round list \<Rightarrow> BenchmarkResult act" where
  "fifo_ReceiveProcess num_warmups num_iterations data_size buffer_size rounds =
     andthen (emit BarrierNew)
       (abind (benchmark_loop (fifo_receive_iteration num_warmups data_size buffer_size)
                 num_warmups num_iterations rounds []) (\<lambda>durations.
        abind (lift (CalculateBandwidth durations num_iterations data_size)) (\<lambda>result.
        andthen (emit BarrierDelete) (ret result))))"

section \<open>The benchmark\<close>

definition RunFifoBandwidthBenchmark ::
  "int \<Rightarrow> int \<Rightarrow> nat \<Rightarrow> nat \<Rightarrow> int \<Rightarrow> int \<Rightarrow> (nat \<Rightarrow> u64) \<Rightarrow> fifo_send_round list
     \<Rightarrow> fifo_recv_round list \<Rightarrow> BenchmarkResult act" where
  "RunFifoBandwidthBenchmark num_iterations num_warmups data_size buffer_size mkfifo_reply pid draws
      srounds rrounds =
     andthen (emit (Call ''unlink'')) (andthen (emit (Call ''mkfifo''))
       (if mkfifo_reply = -1 then lift (Abort ''mkfifo'')
        else andthen (emit (Call ''fork''))
          (if pid = -1 then lift (Abort ''fork'')
           else if pid = 0 then
             andthen (fifo_SendProcess num_warmups num_iterations data_size buffer_size draws srounds)
               (lift (Exit 0))
           else
             abind (fifo_ReceiveProcess num_warmups num_iterations data_size buffer_size rrounds)
               (\<lambda>result. andthen (emit (Call ''waitpid''))
                 (andthen (emit (Call ''unlink''))
                   (andthen (emit BarrierClear) (ret result)))))))"

section \<open>Rounds\<close>

interpretation fifo_sender: measured_rounds
  "fifo_send_iteration W n b data" "\<lambda>r. write_fd r \<noteq> -1 \<and> length data = n \<and> all_sent n b (writes r)"
  "\<lambda>_. True" "\<lambda>ds. ds" send_time 1 W for W n b data
proof
  fix r :: fifo_send_round and ds i
  assume g: "write_fd r \<noteq> -1 \<and> length data = n \<and> all_sent n b (writes r)"
  then obtain evs where "send_loop (fifo_send_step n b data) n (writes r) (0, []) = (evs, Val (n, data))"
      "barrier_trace evs = []"
    using stream_send_all unfolding fifo_send_step_def by blast
  then show "\<exists>s'. snd (fifo_send_iteration W n b data i r ds) = Val s' \<and> True
       \<and> s' = (if i < W then ds else ds @ [send_time r])"
    and "barrier_trace (fst (fifo_send_iteration W n b data i r ds)) = replicate 1 BarrierWait"
    using g by (simp_all add: fifo_send_iteration_def record_duration_def)
qed

interpretation fifo_receiver: measured_rounds
  "fifo_receive_iteration W n b" "\<lambda>r. read_fd r \<noteq> -1 \<and> payload n data \<and> delivers b data (reads r)"
  "\<lambda>_. True" "\<lambda>ds. ds" recv_time 1 W for W n b data
proof
  fix r :: fifo_recv_round and ds i
  assume g: "read_fd r \<noteq> -1 \<and> payload n data \<and> delivers b data (reads r)"
  then obtain evs where "recv_loop (fifo_recv_step b) n (reads r) (0, []) = (evs, Val (n, data))"
      "barrier_trace evs = []"
    using append_recv_all unfolding fifo_recv_step_def by blast
  then show "\<exists>s'. snd (fifo_receive_iteration W n b i r ds) = Val s' \<and> True
       \<and> s' = (if i < W then ds else ds @ [recv_time r])"
    and "barrier_trace (fst (fifo_receive_iteration W n b i r ds)) = replicate 1 BarrierWait"
    using g by (simp_all add: fifo_receive_iteration_def record_duration_def verify_or_abort_True
        payload_def andthen_def)
qed

section \<open>Processes\<close>

lemma fifo_SendProcess_ok:
  assumes "GenerateDataToSend draws n = Val data" and "counts_ok W N (length rounds)"
    and "list_all (\<lambda>r. write_fd r \<noteq> -1 \<and> all_sent n b (writes r)) rounds"
  shows "\<exists>evs. fifo_SendProcess W N n b draws rounds = (evs, Val ())
     \<and> barrier_trace evs = barrier_lifetime (length rounds)"
proof -
  have "list_all (\<lambda>r. write_fd r \<noteq> -1 \<and> length data = n \<and> all_sent n b (writes r)) rounds"
    using assms(3) generated_payload [OF assms(1)] by (simp add: payload_def list_all_iff)
  then obtain durations evs result where
      "benchmark_loop (fifo_send_iteration W n b data) W N rounds [] = (evs, Val durations)" "True"
      "durations = map send_time (drop (nat W) rounds)"
      "barrier_trace evs = replicate (1 * length rounds) BarrierWait"
      "CalculateBandwidth (map send_time (drop (nat W) rounds)) N n = Val result"
    by (rule fifo_sender.benchmark_statistics [OF _ TrueI refl assms(2)])
  then show ?thesis
    using assms(1) by (simp add: fifo_SendProcess_def barrier_lifetime_def act_defs)
qed

lemma fifo_ReceiveProcess_ok:
  assumes "payload n data" and "counts_ok W N (length rounds)"
    and "list_all (\<lambda>r. read_fd r \<noteq> -1 \<and> delivers b data (reads r)) rounds"
  shows "\<exists>evs result. fifo_ReceiveProcess W N n b rounds = (evs, Val result)
     \<and> CalculateBandwidth (map recv_time (drop (nat W) rounds)) N n = Val result
     \<and> barrier_trace evs = barrier_lifetime (length rounds)"
proof -
  have "list_all (\<lambda>r. read_fd r \<noteq> -1 \<and> payload n data \<and> delivers b data (reads r)) rounds"
    using assms(1,3) by (simp add: list_all_iff)
  then obtain durations evs result where
      "benchmark_loop (fifo_receive_iteration W n b) W N rounds [] = (evs, Val durations)" "True"
      "durations = map recv_time (drop (nat W) rounds)"
      "barrier_trace evs = replicate (1 * length rounds) BarrierWait"
      "CalculateBandwidth (map recv_time (drop (nat W) rounds)) N n = Val result"
    by (rule fifo_receiver.benchmark_statistics [OF _ TrueI refl assms(2)])
  then show ?thesis
    by (simp add: fifo_ReceiveProcess_def barrier_lifetime_def act_defs)
qed

section \<open>Properties of the FIFO benchmark\<close>

text \<open>
  End to end: when both sides can open the FIFO in every round, the writes are
  honest, and the FIFO hands over the bytes of a round in that round, the child exits with 0 and the
  parent returns the statistics of exactly the rounds after the warm-up. The barrier calls of both
  sides match, and the parent removes the FIFO and the barrier's names.
\<close>

theorem fifo_end_to_end:
  assumes "GenerateDataToSend draws n = Val data" and "counts_ok W N (length srounds)"
    and "list_all (\<lambda>s. write_fd s \<noteq> -1 \<and> all_sent n b (writes s)) srounds"
    and "list_all2 (\<lambda>s r. read_fd r \<noteq> -1 \<and> delivers b
           (accepted (send_loop (fifo_send_step n b data) n (writes s) (0, []))) (reads r))
         srounds rrounds"
    and "mk \<noteq> -1" and "pid \<noteq> -1" and "pid \<noteq> 0"
  shows "snd (RunFifoBandwidthBenchmark N W n b mk 0 draws srounds rrounds) = Exit 0
    \<and> snd (RunFifoBandwidthBenchmark N W n b mk pid draws srounds rrounds) =
        CalculateBandwidth (map recv_time (drop (nat W) rrounds)) N n
    \<and> (\<exists>result. CalculateBandwidth (map recv_time (drop (nat W) rrounds)) N n = Val result)
    \<and> barrier_trace (fst (RunFifoBandwidthBenchmark N W n b mk 0 draws srounds rrounds)) =
        barrier_lifetime (nat (W + N))
    \<and> barrier_trace (fst (RunFifoBandwidthBenchmark N W n b mk pid draws srounds rrounds)) =
        barrier_lifetime (nat (W + N)) @ [BarrierClear]"
proof -
  have len: "length rrounds = length srounds" using assms(4) by (simp add: list_all2_lengthD)
  have pay: "payload n data" by (rule generated_payload [OF assms(1)])
  have "list_all (\<lambda>r. read_fd r \<noteq> -1 \<and> delivers b data (reads r)) rrounds"
    using assms(3,4) pay accepted_stream [of n b _ data]
    by (fastforce simp: list_all2_conv_all_nth list_all_length fifo_send_step_def payload_def)
  moreover have rc: "counts_ok W N (length rrounds)" using assms(2) len by simp
  ultimately obtain evs result where r: "fifo_ReceiveProcess W N n b rrounds = (evs, Val result)"
      "CalculateBandwidth (map recv_time (drop (nat W) rrounds)) N n = Val result"
      "barrier_trace evs = barrier_lifetime (length rrounds)"
    using fifo_ReceiveProcess_ok [OF pay] by blast
  obtain evs' where s: "fifo_SendProcess W N n b draws srounds = (evs', Val ())"
      "barrier_trace evs' = barrier_lifetime (length srounds)"
    using fifo_SendProcess_ok [OF assms(1-3)] by blast
  show ?thesis
    using r s assms(5-7) len counts_ok_nat [OF assms(2)]
    by (simp add: RunFifoBandwidthBenchmark_def act_defs)
qed

definition fifo_sample_srounds :: "fifo_send_round list" where
  "fifo_sample_srounds = replicate 2 \<lparr>writes = sample_writes, send_time = Fin 2, write_fd = 4\<rparr>"

definition fifo_sample_rrounds :: "fifo_recv_round list" where
  "fifo_sample_rrounds = replicate 2 \<lparr>reads = sample_reads, recv_time = Fin 3, read_fd = 4\<rparr>"

theorem fifo_end_to_end_witness:
  "snd (RunFifoBandwidthBenchmark 1 1 129 100 0 77 (\<lambda>_. 0) fifo_sample_srounds fifo_sample_rrounds) =
     Val \<lparr>average = Fin 43, stddev = Fin 0\<rparr>"
proof -
  have "snd (RunFifoBandwidthBenchmark 1 1 129 100 0 77 (\<lambda>_. 0) fifo_sample_srounds fifo_sample_rrounds) =
      CalculateBandwidth (map recv_time (drop (nat 1) fifo_sample_rrounds)) 1 129"
  proof (rule fifo_end_to_end [where data = sample_data, THEN conjunct2, THEN conjunct1])
    show "list_all2 (\<lambda>s r. read_fd r \<noteq> -1 \<and> delivers 100
           (accepted (send_loop (fifo_send_step 129 100 sample_data) 129 (writes s) (0, []))) (reads r))
         fifo_sample_srounds fifo_sample_rrounds"
      using sample_delivers sample_payload sample_all_sent accepted_stream [of 129 100 _ sample_data]
      by (simp add: fifo_sample_srounds_def fifo_sample_rrounds_def fifo_send_step_def payload_def
          numeral_2_eq_2)
  qed (use sample_generated sample_counts sample_all_sent in
      \<open>simp_all add: fifo_sample_srounds_def numeral_2_eq_2\<close>)
  then show ?thesis by (simp add: fifo_sample_rrounds_def sample_result numeral_2_eq_2)
qed

end
