(* ===== verification/Tcp_Bandwidth.thy ===== *)
theory Tcp_Bandwidth
  imports Stream_Loops
begin

text \<open>
  \<^verbatim>\<open>akbench/tcp_bandwidth.cc\<close>: every round opens a connection over the loopback interface. Three
  barrier calls per round on each side: the receiver listens before the first, the connection
  exists after the second, and the third ends the measurement. The receiver copies into a vector
  that already has \<^verbatim>\<open>data_size\<close> bytes, all zero.
\<close>

record tcp_recv_round = recv_round +
  listen_fd :: int
  setsockopt_reply :: int
  bind_reply :: int
  listen_reply :: int
  conn_fd :: int

record tcp_send_round = send_round +
  sock_fd :: int
  connects :: "int list"

section \<open>The receiver\<close>

definition tcp_recv_step :: "nat \<Rightarrow> recv_reply \<Rightarrow> recv_state \<Rightarrow> (bool \<times> recv_state) act" where
  "tcp_recv_step = copy_recv_step ''recv'' ''receive: recv''"

definition tcp_receive_iteration ::
  "int \<Rightarrow> nat \<Rightarrow> nat \<Rightarrow> int \<Rightarrow> tcp_recv_round \<Rightarrow> dbl list \<Rightarrow> dbl list act" where
  "tcp_receive_iteration num_warmups data_size buffer_size iteration r durations =
     (let is_warmup = iteration < num_warmups
      in andthen (sys_call ''socket'' (listen_fd r) ''receive: socket'')
        (andthen (sys_call ''setsockopt'' (setsockopt_reply r) ''receive: setsockopt SO_REUSEADDR'')
        (andthen (sys_call ''bind'' (bind_reply r) ''receive: bind'')
        (andthen (sys_call ''listen'' (listen_reply r) ''receive: listen'')
        (andthen (emit BarrierWait)
        (andthen (sys_call ''accept'' (conn_fd r) ''receive: accept'')
        (andthen (emit BarrierWait)
        (abind (recv_loop (tcp_recv_step buffer_size) data_size (reads r) (0, replicate data_size 0))
           (\<lambda>s. andthen (emit BarrierWait)
             (let durations = record_duration is_warmup (recv_time r) durations
              in andthen (verify_or_abort (snd s) data_size)
                (andthen (emit (Call ''close'')) (andthen (emit (Call ''close'')) (ret durations)))))))))))))"

definition tcp_ReceiveProcess ::
  "int \<Rightarrow> int \<Rightarrow> nat \<Rightarrow> nat \<Rightarrow> tcp_recv_round list \<Rightarrow> BenchmarkResult act" where
  "tcp_ReceiveProcess num_warmups num_iterations data_size buffer_size rounds =
     andthen (emit BarrierNew)
       (abind (benchmark_loop (tcp_receive_iteration num_warmups data_size buffer_size)
                 num_warmups num_iterations rounds []) (\<lambda>durations.
        abind (lift (CalculateBandwidth durations num_iterations data_size)) (\<lambda>result.
        andthen (emit BarrierDelete) (ret result))))"

section \<open>The sender\<close>

definition tcp_send_step :: "nat \<Rightarrow> nat \<Rightarrow> byte list \<Rightarrow> int \<Rightarrow> send_state \<Rightarrow> send_state act" where
  "tcp_send_step = stream_send_step ''send'' ''send: send''"

text \<open>Retry once per second until the connection is there.\<close>

fun tcp_connect_loop :: "int list \<Rightarrow> unit act" where
  "tcp_connect_loop [] = ([], Blocked)"
| "tcp_connect_loop (reply # rs) =
     andthen (emit (Call ''connect''))
       (if reply = -1 then andthen (emit (Call ''sleep'')) (tcp_connect_loop rs) else ret ())"

definition tcp_send_iteration ::
  "int \<Rightarrow> nat \<Rightarrow> nat \<Rightarrow> byte list \<Rightarrow> int \<Rightarrow> tcp_send_round \<Rightarrow> dbl list \<Rightarrow> dbl list act" where
  "tcp_send_iteration num_warmups data_size buffer_size data_to_send iteration r durations =
     (let is_warmup = iteration < num_warmups
      in andthen (sys_call ''socket'' (sock_fd r) ''send: socket'')
        (andthen (emit BarrierWait)
        (andthen (tcp_connect_loop (connects r))
        (andthen (emit BarrierWait)
        (abind (send_loop (tcp_send_step data_size buffer_size data_to_send) data_size
                  (writes r) (0, []))
          (\<lambda>_. andthen (emit (Call ''shutdown''))
            (andthen (emit BarrierWait)
              (let durations = record_duration is_warmup (send_time r) durations
               in andthen (emit (Call ''close'')) (ret durations)))))))))"

definition tcp_SendProcess ::
  "int \<Rightarrow> int \<Rightarrow> nat \<Rightarrow> nat \<Rightarrow> (nat \<Rightarrow> u64) \<Rightarrow> tcp_send_round list \<Rightarrow> unit act" where
  "tcp_SendProcess num_warmups num_iterations data_size buffer_size draws rounds =
     andthen (emit BarrierNew)
       (abind (lift (GenerateDataToSend draws data_size)) (\<lambda>data_to_send.
        abind (benchmark_loop (tcp_send_iteration num_warmups data_size buffer_size data_to_send)
                 num_warmups num_iterations rounds []) (\<lambda>durations.
        abind (lift (CalculateBandwidth durations num_iterations data_size)) (\<lambda>result.
        emit BarrierDelete))))"

section \<open>The benchmark\<close>

definition RunTcpBandwidthBenchmark ::
  "int \<Rightarrow> int \<Rightarrow> nat \<Rightarrow> nat \<Rightarrow> int \<Rightarrow> (nat \<Rightarrow> u64) \<Rightarrow> tcp_send_round list
     \<Rightarrow> tcp_recv_round list \<Rightarrow> BenchmarkResult act" where
  "RunTcpBandwidthBenchmark num_iterations num_warmups data_size buffer_size pid draws
      srounds rrounds =
     andthen (emit BarrierClear) (andthen (emit (Call ''fork''))
       (if pid = -1 then lift (Abort ''fork'')
        else if pid = 0 then
          andthen (tcp_SendProcess num_warmups num_iterations data_size buffer_size draws srounds)
            (lift (Exit 0))
        else
          abind (tcp_ReceiveProcess num_warmups num_iterations data_size buffer_size rrounds)
            (\<lambda>result. andthen (emit (Call ''waitpid'')) (ret result))))"

section \<open>Rounds\<close>

lemma tcp_connect_ok:
  "list_ex (\<lambda>c. c \<noteq> -1) cs \<Longrightarrow>
   snd (tcp_connect_loop cs) = Val () \<and> barrier_trace (fst (tcp_connect_loop cs)) = []"
  by (induction cs) auto

definition tcp_listening :: "tcp_recv_round \<Rightarrow> bool" where
  "tcp_listening r \<longleftrightarrow> listen_fd r \<noteq> -1 \<and> setsockopt_reply r \<noteq> -1 \<and> bind_reply r \<noteq> -1
     \<and> listen_reply r \<noteq> -1 \<and> conn_fd r \<noteq> -1"

definition tcp_connected :: "tcp_send_round \<Rightarrow> bool" where
  "tcp_connected r \<longleftrightarrow> sock_fd r \<noteq> -1 \<and> list_ex (\<lambda>c. c \<noteq> -1) (connects r)"

interpretation tcp_sender: measured_rounds
  "tcp_send_iteration W n b data"
  "\<lambda>r. tcp_connected r \<and> length data = n \<and> all_sent n b (writes r)"
  "\<lambda>_. True" "\<lambda>ds. ds" send_time 3 W for W n b data
proof
  fix r :: tcp_send_round and ds i
  assume g: "tcp_connected r \<and> length data = n \<and> all_sent n b (writes r)"
  then obtain evs where "send_loop (tcp_send_step n b data) n (writes r) (0, []) = (evs, Val (n, data))"
      "barrier_trace evs = []"
    using stream_send_all unfolding tcp_send_step_def by blast
  moreover obtain evs' where "tcp_connect_loop (connects r) = (evs', Val ())" "barrier_trace evs' = []"
    using tcp_connect_ok [of "connects r"] g
    by (cases "tcp_connect_loop (connects r)") (simp add: tcp_connected_def)
  ultimately show "\<exists>s'. snd (tcp_send_iteration W n b data i r ds) = Val s' \<and> True
       \<and> s' = (if i < W then ds else ds @ [send_time r])"
    and "barrier_trace (fst (tcp_send_iteration W n b data i r ds)) = replicate 3 BarrierWait"
    using g by (simp_all add: tcp_send_iteration_def record_duration_def tcp_connected_def
        andthen_def numeral_3_eq_3)
qed

interpretation tcp_receiver: measured_rounds
  "tcp_receive_iteration W n b"
  "\<lambda>r. tcp_listening r \<and> payload n data \<and> delivers b data (reads r)"
  "\<lambda>_. True" "\<lambda>ds. ds" recv_time 3 W for W n b data
proof
  fix r :: tcp_recv_round and ds i
  assume g: "tcp_listening r \<and> payload n data \<and> delivers b data (reads r)"
  then obtain evs where
      "recv_loop (tcp_recv_step b) n (reads r) (0, replicate n 0) = (evs, Val (n, data))"
      "barrier_trace evs = []"
    using copy_recv_all [of n data b "reads r" "replicate n 0"] unfolding tcp_recv_step_def by auto
  then show "\<exists>s'. snd (tcp_receive_iteration W n b i r ds) = Val s' \<and> True
       \<and> s' = (if i < W then ds else ds @ [recv_time r])"
    and "barrier_trace (fst (tcp_receive_iteration W n b i r ds)) = replicate 3 BarrierWait"
    using g by (simp_all add: tcp_receive_iteration_def record_duration_def verify_or_abort_True
        payload_def andthen_def tcp_listening_def numeral_3_eq_3)
qed

section \<open>Processes\<close>

lemma tcp_SendProcess_ok:
  assumes "GenerateDataToSend draws n = Val data" and "counts_ok W N (length rounds)"
    and "list_all (\<lambda>r. tcp_connected r \<and> all_sent n b (writes r)) rounds"
  shows "\<exists>evs. tcp_SendProcess W N n b draws rounds = (evs, Val ())
     \<and> barrier_trace evs = barrier_lifetime (3 * length rounds)"
proof -
  have "list_all (\<lambda>r. tcp_connected r \<and> length data = n \<and> all_sent n b (writes r)) rounds"
    using assms(3) generated_payload [OF assms(1)] by (simp add: payload_def list_all_iff)
  then obtain durations evs result where
      "benchmark_loop (tcp_send_iteration W n b data) W N rounds [] = (evs, Val durations)" "True"
      "durations = map send_time (drop (nat W) rounds)"
      "barrier_trace evs = replicate (3 * length rounds) BarrierWait"
      "CalculateBandwidth (map send_time (drop (nat W) rounds)) N n = Val result"
    by (rule tcp_sender.benchmark_statistics [OF _ TrueI refl assms(2)])
  then show ?thesis
    using assms(1) by (simp add: tcp_SendProcess_def barrier_lifetime_def act_defs)
qed

lemma tcp_ReceiveProcess_ok:
  assumes "payload n data" and "counts_ok W N (length rounds)"
    and "list_all (\<lambda>r. tcp_listening r \<and> delivers b data (reads r)) rounds"
  shows "\<exists>evs result. tcp_ReceiveProcess W N n b rounds = (evs, Val result)
     \<and> CalculateBandwidth (map recv_time (drop (nat W) rounds)) N n = Val result
     \<and> barrier_trace evs = barrier_lifetime (3 * length rounds)"
proof -
  have "list_all (\<lambda>r. tcp_listening r \<and> payload n data \<and> delivers b data (reads r)) rounds"
    using assms(1,3) by (simp add: list_all_iff)
  then obtain durations evs result where
      "benchmark_loop (tcp_receive_iteration W n b) W N rounds [] = (evs, Val durations)" "True"
      "durations = map recv_time (drop (nat W) rounds)"
      "barrier_trace evs = replicate (3 * length rounds) BarrierWait"
      "CalculateBandwidth (map recv_time (drop (nat W) rounds)) N n = Val result"
    by (rule tcp_receiver.benchmark_statistics [OF _ TrueI refl assms(2)])
  then show ?thesis
    by (simp add: tcp_ReceiveProcess_def barrier_lifetime_def act_defs)
qed

section \<open>Properties of the TCP benchmark\<close>

text \<open>
  C32 (functional). End to end over TCP: if the receiver can listen and accept, the sender's
  connection attempts eventually succeed, sends are honest and the connection hands over the bytes in
  order, then the child exits with 0 and the parent returns the statistics of exactly the rounds after
  the warm-up; both sides make three barrier calls per round, so they never wait for each other at
  different points.
\<close>

theorem tcp_end_to_end:
  assumes "GenerateDataToSend draws n = Val data" and "counts_ok W N (length srounds)"
    and "list_all (\<lambda>s. tcp_connected s \<and> all_sent n b (writes s)) srounds"
    and "list_all2 (\<lambda>s r. tcp_listening r \<and> delivers b
           (accepted (send_loop (tcp_send_step n b data) n (writes s) (0, []))) (reads r))
         srounds rrounds"
    and "pid \<noteq> -1" and "pid \<noteq> 0"
  shows "snd (RunTcpBandwidthBenchmark N W n b 0 draws srounds rrounds) = Exit 0
    \<and> snd (RunTcpBandwidthBenchmark N W n b pid draws srounds rrounds) =
        CalculateBandwidth (map recv_time (drop (nat W) rrounds)) N n
    \<and> (\<exists>result. CalculateBandwidth (map recv_time (drop (nat W) rrounds)) N n = Val result)
    \<and> barrier_trace (fst (RunTcpBandwidthBenchmark N W n b 0 draws srounds rrounds)) =
        BarrierClear # barrier_lifetime (3 * nat (W + N))
    \<and> barrier_trace (fst (RunTcpBandwidthBenchmark N W n b pid draws srounds rrounds)) =
        BarrierClear # barrier_lifetime (3 * nat (W + N))"
proof -
  have len: "length rrounds = length srounds" using assms(4) by (simp add: list_all2_lengthD)
  have pay: "payload n data" by (rule generated_payload [OF assms(1)])
  have "list_all (\<lambda>r. tcp_listening r \<and> delivers b data (reads r)) rrounds"
    using assms(3,4) pay accepted_stream [of n b _ data]
    by (fastforce simp: list_all2_conv_all_nth list_all_length tcp_send_step_def payload_def)
  moreover have rc: "counts_ok W N (length rrounds)" using assms(2) len by simp
  ultimately obtain evs result where r: "tcp_ReceiveProcess W N n b rrounds = (evs, Val result)"
      "CalculateBandwidth (map recv_time (drop (nat W) rrounds)) N n = Val result"
      "barrier_trace evs = barrier_lifetime (3 * length rrounds)"
    using tcp_ReceiveProcess_ok [OF pay] by blast
  obtain evs' where s: "tcp_SendProcess W N n b draws srounds = (evs', Val ())"
      "barrier_trace evs' = barrier_lifetime (3 * length srounds)"
    using tcp_SendProcess_ok [OF assms(1-3)] by blast
  show ?thesis
    using r s assms(5-6) len counts_ok_nat [OF assms(2)]
    by (simp add: RunTcpBandwidthBenchmark_def act_defs)
qed

definition tcp_sample_srounds :: "tcp_send_round list" where
  "tcp_sample_srounds = replicate 2
     \<lparr>writes = sample_writes, send_time = Fin 2, sock_fd = 4, connects = [-1, 0]\<rparr>"

definition tcp_sample_recv :: "recv_reply list \<Rightarrow> tcp_recv_round" where
  "tcp_sample_recv rs = \<lparr>reads = rs, recv_time = Fin 3, listen_fd = 4, setsockopt_reply = 0,
     bind_reply = 0, listen_reply = 0, conn_fd = 5\<rparr>"

lemma tcp_sample_listening: "tcp_listening (tcp_sample_recv rs)"
  by (simp add: tcp_listening_def tcp_sample_recv_def)

theorem tcp_end_to_end_witness:
  "snd (RunTcpBandwidthBenchmark 1 1 129 100 77 (\<lambda>_. 0) tcp_sample_srounds
      (replicate 2 (tcp_sample_recv sample_reads))) = Val \<lparr>average = Fin 43, stddev = Fin 0\<rparr>"
proof -
  have "snd (RunTcpBandwidthBenchmark 1 1 129 100 77 (\<lambda>_. 0) tcp_sample_srounds
      (replicate 2 (tcp_sample_recv sample_reads))) =
      CalculateBandwidth (map recv_time (drop (nat 1) (replicate 2 (tcp_sample_recv sample_reads)))) 1 129"
  proof (rule tcp_end_to_end [where data = sample_data, THEN conjunct2, THEN conjunct1])
    show "list_all2 (\<lambda>s r. tcp_listening r \<and> delivers 100
           (accepted (send_loop (tcp_send_step 129 100 sample_data) 129 (writes s) (0, []))) (reads r))
         tcp_sample_srounds (replicate 2 (tcp_sample_recv sample_reads))"
      using sample_delivers sample_payload sample_all_sent accepted_stream [of 129 100 _ sample_data]
        tcp_sample_listening
      by (simp add: tcp_sample_srounds_def tcp_sample_recv_def tcp_send_step_def payload_def
          numeral_2_eq_2)
  qed (use sample_generated sample_counts sample_all_sent in
      \<open>simp_all add: tcp_sample_srounds_def numeral_2_eq_2 tcp_connected_def\<close>)
  then show ?thesis by (simp add: tcp_sample_recv_def sample_result numeral_2_eq_2)
qed

text \<open>
  C33 (error). A TCP peer that disconnects early is judged on the zero-initialised vector: the round
  is accepted exactly when the received prefix, padded with zeros, verifies. In particular a round in
  which not a single byte arrived is accepted and its duration is recorded, because all zeros have an
  all-zero checksum.
\<close>

theorem tcp_early_disconnect:
  assumes "CHECKSUM_SIZE < n" and "tcp_listening r" and "list_all (piece_ok b) ps"
    and "length (concat ps) < n" and "reads r = map RecvBytes ps @ RecvBytes [] # rest"
  shows "snd (tcp_receive_iteration W n b i r ds) =
     (if ps = [] \<or> VerifyDataReceived (concat ps @ replicate (n - length (concat ps)) 0) n = Val True
      then Val (record_duration (i < W) (recv_time r) ds)
      else Abort ''Data verification failed!'')"
proof -
  let ?d = "concat ps @ replicate (n - length (concat ps)) 0"
  have "length (replicate n (0 :: byte)) = n" by simp
  from copy_recv_truncated [OF assms(3,4) this]
  obtain evs s where s: "recv_loop (tcp_recv_step b) n (reads r) (0, replicate n 0) = (evs, Val s)"
      and "snd s = concat ps @ drop (length (concat ps)) (replicate n 0)"
    unfolding tcp_recv_step_def assms(5) by blast
  then have d: "snd s = ?d" by simp
  have zero: "VerifyDataReceived (replicate n 0) n = Val True"
    by (rule verify_zeros [OF assms(1)])
  have "snd (verify_or_abort ?d n) =
      (if VerifyDataReceived ?d n = Val True then Val () else Abort ''Data verification failed!'')"
    by (auto simp: verify_or_abort_def VerifyDataReceived_eq [OF assms(1)])
  then show ?thesis
    using s d zero assms(2) by (cases "verify_or_abort ?d n")
      (auto simp: tcp_receive_iteration_def tcp_listening_def andthen_def)
qed

theorem tcp_early_disconnect_witness:
  "snd (tcp_receive_iteration 0 129 64 0 (tcp_sample_recv [RecvBytes []]) []) = Val [Fin 3]"
  using tcp_early_disconnect [of 129 "tcp_sample_recv [RecvBytes []]" 64 "[]" "[]" 0 0 "[]"]
  by (simp add: CHECKSUM_SIZE_def tcp_sample_listening, simp add: tcp_sample_recv_def record_duration_def)

end
