(* ===== verification/Uds_Bandwidth.thy ===== *)
theory Uds_Bandwidth
  imports Stream_Loops
begin

text \<open>
  \<^verbatim>\<open>akbench/uds_bandwidth.cc\<close>: a connection over a socket in the file system per round, with two
  barrier calls per round on each side. The vector \<^verbatim>\<open>read_data\<close> is created once and carried from
  round to round, and the result of its verification is not used.
\<close>

record uds_recv_round = recv_round +
  uds_listen_fd :: int
  uds_bind_reply :: int
  uds_listen_reply :: int
  uds_conn_fd :: int

text \<open>A connection attempt: what \<^verbatim>\<open>connect\<close> returns, and \<^verbatim>\<open>errno\<close>.\<close>

record uds_send_round = send_round +
  uds_sock_fd :: int
  attempts :: "(int \<times> string) list"

section \<open>The receiver\<close>

definition uds_recv_step :: "nat \<Rightarrow> recv_reply \<Rightarrow> recv_state \<Rightarrow> (bool \<times> recv_state) act" where
  "uds_recv_step = copy_recv_step ''recv'' ''Failed to receive data''"

text \<open>The state of the loop: \<^verbatim>\<open>durations\<close> and \<^verbatim>\<open>read_data\<close>.\<close>

definition uds_receive_iteration ::
  "int \<Rightarrow> nat \<Rightarrow> nat \<Rightarrow> int \<Rightarrow> uds_recv_round \<Rightarrow> dbl list \<times> byte list \<Rightarrow> (dbl list \<times> byte list) act" where
  "uds_receive_iteration num_warmups data_size buffer_size iteration r st =
     andthen (sys_call ''socket'' (uds_listen_fd r) ''Failed to create socket'')
       (andthen (emit (Call ''remove''))
       (andthen (sys_call ''bind'' (uds_bind_reply r) ''Failed to bind socket'')
       (andthen (sys_call ''listen'' (uds_listen_reply r) ''Failed to listen on socket'')
       (andthen (sys_call ''accept'' (uds_conn_fd r) ''Failed to accept connection'')
       (andthen (emit BarrierWait)
       (abind (recv_loop (uds_recv_step buffer_size) data_size (reads r) (0, snd st))
          (\<lambda>s. andthen (emit BarrierWait)
            (andthen (emit (Call ''close'')) (andthen (emit (Call ''close''))
            (andthen (emit (Call ''remove''))
              (abind (lift (VerifyDataReceived (snd s) data_size))
                (\<lambda>_. ret (record_duration (\<not> num_warmups \<le> iteration) (recv_time r) (fst st),
                         snd s)))))))))))))"

definition uds_ReceiveProcess ::
  "nat \<Rightarrow> int \<Rightarrow> int \<Rightarrow> nat \<Rightarrow> uds_recv_round list \<Rightarrow> BenchmarkResult act" where
  "uds_ReceiveProcess buffer_size num_warmups num_iterations data_size rounds =
     andthen (emit BarrierNew)
       (abind (benchmark_loop (uds_receive_iteration num_warmups data_size buffer_size)
                 num_warmups num_iterations rounds ([], replicate data_size 0)) (\<lambda>st.
        abind (lift (CalculateBandwidth (fst st) num_iterations data_size)) (\<lambda>result.
        andthen (emit BarrierDelete) (ret result))))"

section \<open>The sender\<close>

definition uds_send_step :: "nat \<Rightarrow> nat \<Rightarrow> byte list \<Rightarrow> int \<Rightarrow> send_state \<Rightarrow> send_state act" where
  "uds_send_step = stream_send_step ''send'' ''Send: Failed to send data''"

fun uds_connect_loop :: "(int \<times> string) list \<Rightarrow> unit act" where
  "uds_connect_loop [] = ([], Blocked)"
| "uds_connect_loop ((reply, errno) # rs) =
     andthen (emit (Call ''connect''))
       (if reply = -1 then
          if errno = ''ENOENT'' \<or> errno = ''ECONNREFUSED''
          then andthen (emit (Call ''usleep'')) (uds_connect_loop rs)
          else lift (Abort ''Unexpected error'')
        else ret ())"

definition uds_send_iteration ::
  "int \<Rightarrow> nat \<Rightarrow> nat \<Rightarrow> byte list \<Rightarrow> int \<Rightarrow> uds_send_round \<Rightarrow> dbl list \<Rightarrow> dbl list act" where
  "uds_send_iteration num_warmups data_size buffer_size data_to_send iteration r durations =
     andthen (sys_call ''socket'' (uds_sock_fd r) ''Failed to create socket'')
       (andthen (uds_connect_loop (attempts r))
       (andthen (emit BarrierWait)
       (abind (send_loop (uds_send_step data_size buffer_size data_to_send) data_size
                 (writes r) (0, []))
         (\<lambda>_. andthen (emit BarrierWait)
           (let durations = record_duration (\<not> num_warmups \<le> iteration) (send_time r) durations
            in andthen (emit (Call ''close'')) (ret durations))))))"

definition uds_SendProcess ::
  "nat \<Rightarrow> int \<Rightarrow> int \<Rightarrow> nat \<Rightarrow> (nat \<Rightarrow> u64) \<Rightarrow> uds_send_round list \<Rightarrow> unit act" where
  "uds_SendProcess buffer_size num_warmups num_iterations data_size draws rounds =
     andthen (emit BarrierNew)
       (abind (lift (GenerateDataToSend draws data_size)) (\<lambda>data_to_send.
        abind (benchmark_loop (uds_send_iteration num_warmups data_size buffer_size data_to_send)
                 num_warmups num_iterations rounds []) (\<lambda>durations.
        abind (lift (CalculateBandwidth durations num_iterations data_size)) (\<lambda>result.
        emit BarrierDelete))))"

section \<open>The benchmark\<close>

definition RunUdsBandwidthBenchmark ::
  "int \<Rightarrow> int \<Rightarrow> nat \<Rightarrow> nat \<Rightarrow> int \<Rightarrow> (nat \<Rightarrow> u64) \<Rightarrow> uds_send_round list
     \<Rightarrow> uds_recv_round list \<Rightarrow> BenchmarkResult act" where
  "RunUdsBandwidthBenchmark num_iterations num_warmups data_size buffer_size pid draws
      srounds rrounds =
     andthen (emit BarrierClear) (andthen (emit (Call ''fork''))
       (if pid = -1 then lift (Abort ''Failed to fork process'')
        else if pid = 0 then
          andthen (uds_SendProcess buffer_size num_warmups num_iterations data_size draws srounds)
            (lift (Exit 0))
        else
          abind (uds_ReceiveProcess buffer_size num_warmups num_iterations data_size rrounds)
            (\<lambda>result. andthen (emit (Call ''waitpid'')) (ret result))))"

section \<open>Rounds\<close>

definition retryable :: "int \<times> string \<Rightarrow> bool" where
  "retryable a \<longleftrightarrow> fst a = -1 \<and> (snd a = ''ENOENT'' \<or> snd a = ''ECONNREFUSED'')"

text \<open>The attempts end with a connection, and every earlier failure is one that is retried.\<close>

fun connects_eventually :: "(int \<times> string) list \<Rightarrow> bool" where
  "connects_eventually [] = False"
| "connects_eventually (a # as) = (fst a \<noteq> -1 \<or> retryable a \<and> connects_eventually as)"

lemma uds_connect_ok:
  "connects_eventually as \<Longrightarrow>
   snd (uds_connect_loop as) = Val () \<and> barrier_trace (fst (uds_connect_loop as)) = []"
  by (induction as) (auto simp: retryable_def)

definition uds_listening :: "uds_recv_round \<Rightarrow> bool" where
  "uds_listening r \<longleftrightarrow> uds_listen_fd r \<noteq> -1 \<and> uds_bind_reply r \<noteq> -1 \<and> uds_listen_reply r \<noteq> -1
     \<and> uds_conn_fd r \<noteq> -1"

definition uds_connected :: "uds_send_round \<Rightarrow> bool" where
  "uds_connected r \<longleftrightarrow> uds_sock_fd r \<noteq> -1 \<and> connects_eventually (attempts r)"

interpretation uds_sender: measured_rounds
  "uds_send_iteration W n b data"
  "\<lambda>r. uds_connected r \<and> length data = n \<and> all_sent n b (writes r)"
  "\<lambda>_. True" "\<lambda>ds. ds" send_time 2 W for W n b data
proof
  fix r :: uds_send_round and ds i
  assume g: "uds_connected r \<and> length data = n \<and> all_sent n b (writes r)"
  then obtain evs where "send_loop (uds_send_step n b data) n (writes r) (0, []) = (evs, Val (n, data))"
      "barrier_trace evs = []"
    using stream_send_all unfolding uds_send_step_def by blast
  moreover obtain evs' where "uds_connect_loop (attempts r) = (evs', Val ())" "barrier_trace evs' = []"
    using uds_connect_ok [of "attempts r"] g
    by (cases "uds_connect_loop (attempts r)") (simp add: uds_connected_def)
  ultimately show "\<exists>s'. snd (uds_send_iteration W n b data i r ds) = Val s' \<and> True
       \<and> s' = (if i < W then ds else ds @ [send_time r])"
    and "barrier_trace (fst (uds_send_iteration W n b data i r ds)) = replicate 2 BarrierWait"
    using g by (simp_all add: uds_send_iteration_def record_duration_def uds_connected_def
        andthen_def numeral_2_eq_2)
qed

interpretation uds_receiver: measured_rounds
  "uds_receive_iteration W n b"
  "\<lambda>r. uds_listening r \<and> payload n data \<and> delivers b data (reads r)"
  "\<lambda>st. length (snd st) = n" fst recv_time 2 W for W n b data
proof
  fix r :: uds_recv_round and st :: "dbl list \<times> byte list" and i
  assume g: "uds_listening r \<and> payload n data \<and> delivers b data (reads r)" and l: "length (snd st) = n"
  then obtain evs where
      "recv_loop (uds_recv_step b) n (reads r) (0, snd st) = (evs, Val (n, data))"
      "barrier_trace evs = []"
    using copy_recv_all [of n data b "reads r" "snd st"] unfolding uds_recv_step_def by auto
  then show "\<exists>s'. snd (uds_receive_iteration W n b i r st) = Val s' \<and> length (snd s') = n
       \<and> fst s' = (if i < W then fst st else fst st @ [recv_time r])"
    and "barrier_trace (fst (uds_receive_iteration W n b i r st)) = replicate 2 BarrierWait"
    using g by (simp_all add: uds_receive_iteration_def record_duration_def
        payload_def andthen_def uds_listening_def numeral_2_eq_2)
qed

section \<open>Processes\<close>

lemma uds_SendProcess_ok:
  assumes "GenerateDataToSend draws n = Val data" and "counts_ok W N (length rounds)"
    and "list_all (\<lambda>r. uds_connected r \<and> all_sent n b (writes r)) rounds"
  shows "\<exists>evs. uds_SendProcess b W N n draws rounds = (evs, Val ())
     \<and> barrier_trace evs = barrier_lifetime (2 * length rounds)"
proof -
  have "list_all (\<lambda>r. uds_connected r \<and> length data = n \<and> all_sent n b (writes r)) rounds"
    using assms(3) generated_payload [OF assms(1)] by (simp add: payload_def list_all_iff)
  then obtain durations evs result where
      "benchmark_loop (uds_send_iteration W n b data) W N rounds [] = (evs, Val durations)" "True"
      "durations = map send_time (drop (nat W) rounds)"
      "barrier_trace evs = replicate (2 * length rounds) BarrierWait"
      "CalculateBandwidth (map send_time (drop (nat W) rounds)) N n = Val result"
    by (rule uds_sender.benchmark_statistics [OF _ TrueI refl assms(2)])
  then show ?thesis
    using assms(1) by (simp add: uds_SendProcess_def barrier_lifetime_def act_defs)
qed

lemma uds_ReceiveProcess_ok:
  assumes "payload n data" and "counts_ok W N (length rounds)"
    and "list_all (\<lambda>r. uds_listening r \<and> delivers b data (reads r)) rounds"
  shows "\<exists>evs result. uds_ReceiveProcess b W N n rounds = (evs, Val result)
     \<and> CalculateBandwidth (map recv_time (drop (nat W) rounds)) N n = Val result
     \<and> barrier_trace evs = barrier_lifetime (2 * length rounds)"
proof -
  have "list_all (\<lambda>r. uds_listening r \<and> payload n data \<and> delivers b data (reads r)) rounds"
    using assms(1,3) by (simp add: list_all_iff)
  moreover have "length (snd ([] :: dbl list, replicate n (0 :: byte))) = n" by simp
  ultimately obtain st evs result where
      "benchmark_loop (uds_receive_iteration W n b) W N rounds ([], replicate n 0) = (evs, Val st)"
      "length (snd st) = n" "fst st = map recv_time (drop (nat W) rounds)"
      "barrier_trace evs = replicate (2 * length rounds) BarrierWait"
      "CalculateBandwidth (map recv_time (drop (nat W) rounds)) N n = Val result"
    by (rule uds_receiver.benchmark_statistics [OF _ _ fst_conv assms(2)])
  then show ?thesis
    by (simp add: uds_ReceiveProcess_def barrier_lifetime_def act_defs)
qed

section \<open>Properties of the Unix domain socket benchmark\<close>

text \<open>
  End to end over a Unix domain socket: if the receiver can listen and accept, the sender's
  connection attempts eventually succeed, sends are honest and the connection hands over the bytes in
  order, then the child exits with 0 and the parent returns the statistics of exactly the rounds after
  the warm-up; both sides make two barrier calls per round, so they never wait for each other at
  different points.
\<close>

theorem uds_end_to_end:
  assumes "GenerateDataToSend draws n = Val data" and "counts_ok W N (length srounds)"
    and "list_all (\<lambda>s. uds_connected s \<and> all_sent n b (writes s)) srounds"
    and "list_all2 (\<lambda>s r. uds_listening r \<and> delivers b
           (accepted (send_loop (uds_send_step n b data) n (writes s) (0, []))) (reads r))
         srounds rrounds"
    and "pid \<noteq> -1" and "pid \<noteq> 0"
  shows "snd (RunUdsBandwidthBenchmark N W n b 0 draws srounds rrounds) = Exit 0
    \<and> snd (RunUdsBandwidthBenchmark N W n b pid draws srounds rrounds) =
        CalculateBandwidth (map recv_time (drop (nat W) rrounds)) N n
    \<and> (\<exists>result. CalculateBandwidth (map recv_time (drop (nat W) rrounds)) N n = Val result)
    \<and> barrier_trace (fst (RunUdsBandwidthBenchmark N W n b 0 draws srounds rrounds)) =
        BarrierClear # barrier_lifetime (2 * nat (W + N))
    \<and> barrier_trace (fst (RunUdsBandwidthBenchmark N W n b pid draws srounds rrounds)) =
        BarrierClear # barrier_lifetime (2 * nat (W + N))"
proof -
  have len: "length rrounds = length srounds" using assms(4) by (simp add: list_all2_lengthD)
  have pay: "payload n data" by (rule generated_payload [OF assms(1)])
  have "list_all (\<lambda>r. uds_listening r \<and> delivers b data (reads r)) rrounds"
    using assms(3,4) pay accepted_stream [of n b _ data]
    by (fastforce simp: list_all2_conv_all_nth list_all_length uds_send_step_def payload_def)
  moreover have rc: "counts_ok W N (length rrounds)" using assms(2) len by simp
  ultimately obtain evs result where r: "uds_ReceiveProcess b W N n rrounds = (evs, Val result)"
      "CalculateBandwidth (map recv_time (drop (nat W) rrounds)) N n = Val result"
      "barrier_trace evs = barrier_lifetime (2 * length rrounds)"
    using uds_ReceiveProcess_ok [OF pay] by blast
  obtain evs' where s: "uds_SendProcess b W N n draws srounds = (evs', Val ())"
      "barrier_trace evs' = barrier_lifetime (2 * length srounds)"
    using uds_SendProcess_ok [OF assms(1-3)] by blast
  show ?thesis
    using r s assms(5-6) len counts_ok_nat [OF assms(2)]
    by (simp add: RunUdsBandwidthBenchmark_def act_defs)
qed

definition uds_sample_srounds :: "uds_send_round list" where
  "uds_sample_srounds = replicate 2
     \<lparr>writes = sample_writes, send_time = Fin 2, uds_sock_fd = 4, attempts = [(-1, ''ENOENT''), (0, '''')]\<rparr>"

definition uds_sample_recv :: "recv_reply list \<Rightarrow> uds_recv_round" where
  "uds_sample_recv rs = \<lparr>reads = rs, recv_time = Fin 3, uds_listen_fd = 4,
     uds_bind_reply = 0, uds_listen_reply = 0, uds_conn_fd = 5\<rparr>"

lemma uds_sample_listening: "uds_listening (uds_sample_recv rs)"
  by (simp add: uds_listening_def uds_sample_recv_def)

theorem uds_end_to_end_witness:
  "snd (RunUdsBandwidthBenchmark 1 1 129 100 77 (\<lambda>_. 0) uds_sample_srounds
      (replicate 2 (uds_sample_recv sample_reads))) = Val \<lparr>average = Fin 43, stddev = Fin 0\<rparr>"
proof -
  have "snd (RunUdsBandwidthBenchmark 1 1 129 100 77 (\<lambda>_. 0) uds_sample_srounds
      (replicate 2 (uds_sample_recv sample_reads))) =
      CalculateBandwidth (map recv_time (drop (nat 1) (replicate 2 (uds_sample_recv sample_reads)))) 1 129"
  proof (rule uds_end_to_end [where data = sample_data, THEN conjunct2, THEN conjunct1])
    show "list_all2 (\<lambda>s r. uds_listening r \<and> delivers 100
           (accepted (send_loop (uds_send_step 129 100 sample_data) 129 (writes s) (0, []))) (reads r))
         uds_sample_srounds (replicate 2 (uds_sample_recv sample_reads))"
      using sample_delivers sample_payload sample_all_sent accepted_stream [of 129 100 _ sample_data]
        uds_sample_listening
      by (simp add: uds_sample_srounds_def uds_sample_recv_def uds_send_step_def payload_def
          numeral_2_eq_2)
  qed (use sample_generated sample_counts sample_all_sent in
      \<open>simp_all add: uds_sample_srounds_def numeral_2_eq_2 uds_connected_def retryable_def\<close>)
  then show ?thesis by (simp add: uds_sample_recv_def sample_result numeral_2_eq_2)
qed



end
