(* ===== verification/Mq_Bandwidth.thy ===== *)
theory Mq_Bandwidth
  imports Stream_Loops
begin

text \<open>
  \<^verbatim>\<open>akbench/mq_bandwidth.cc\<close>: the payload travels as messages of a POSIX message queue, each of
  at most \<open>min buffer_size 8192\<close> bytes. A message is taken as a whole or not at all, so the sender
  counts what it offered and not what the call returns.
\<close>

record mq_send_round = send_round +
  send_mq :: int

record mq_recv_round = recv_round +
  recv_mq :: int

section \<open>The sender\<close>

definition mq_send_step :: "nat \<Rightarrow> nat \<Rightarrow> byte list \<Rightarrow> int \<Rightarrow> send_state \<Rightarrow> send_state act" where
  "mq_send_step data_size buffer_size data reply s =
     (let total_sent = fst s;
          bytes_to_send = min buffer_size (data_size - total_sent)
      in andthen (emit (Call ''mq_send''))
           (if reply = -1 then lift (Abort ''send: mq_send'')
            else ret (total_sent + bytes_to_send, snd s @ take bytes_to_send (drop total_sent data))))"

definition mq_send_iteration ::
  "int \<Rightarrow> nat \<Rightarrow> nat \<Rightarrow> byte list \<Rightarrow> int \<Rightarrow> mq_send_round \<Rightarrow> dbl list \<Rightarrow> dbl list act" where
  "mq_send_iteration num_warmups data_size buffer_size data_to_send iteration r durations =
     (let is_warmup = iteration < num_warmups
      in andthen (sys_call ''mq_open'' (send_mq r) ''send: mq_open for writing'')
        (andthen (emit BarrierWait)
           (abind (send_loop (mq_send_step data_size buffer_size data_to_send) data_size
                     (writes r) (0, []))
             (\<lambda>_. let durations = record_duration is_warmup (send_time r) durations
                  in andthen (emit (Call ''mq_close'')) (ret durations)))))"

definition mq_SendProcess ::
  "int \<Rightarrow> int \<Rightarrow> nat \<Rightarrow> nat \<Rightarrow> (nat \<Rightarrow> u64) \<Rightarrow> mq_send_round list \<Rightarrow> unit act" where
  "mq_SendProcess num_warmups num_iterations data_size buffer_size draws rounds =
     andthen (emit BarrierNew)
       (abind (lift (GenerateDataToSend draws data_size)) (\<lambda>data_to_send.
        abind (benchmark_loop (mq_send_iteration num_warmups data_size buffer_size data_to_send)
                 num_warmups num_iterations rounds []) (\<lambda>durations.
        abind (lift (CalculateBandwidth durations num_iterations data_size)) (\<lambda>result.
        emit BarrierDelete))))"

section \<open>The receiver\<close>

text \<open>No message in time ends the loop like an empty one; any other error is fatal.\<close>

definition mq_recv_step :: "nat \<Rightarrow> recv_reply \<Rightarrow> recv_state \<Rightarrow> (bool \<times> recv_state) act" where
  "mq_recv_step buffer_size reply s =
     andthen (emit (Call ''mq_receive''))
       (case reply of
          RecvError errno \<Rightarrow>
            if errno = ''EAGAIN'' \<or> errno = ''ETIMEDOUT'' then ret (False, s)
            else lift (Abort ''receive: mq_receive'')
        | RecvBytes bytes \<Rightarrow>
            if bytes = [] then ret (False, s)
            else if buffer_size < length bytes then lift (Undefined ''recv_buffer out of range'')
            else ret (True, fst s + length bytes, snd s @ bytes))"

definition mq_receive_iteration ::
  "int \<Rightarrow> nat \<Rightarrow> nat \<Rightarrow> int \<Rightarrow> mq_recv_round \<Rightarrow> dbl list \<Rightarrow> dbl list act" where
  "mq_receive_iteration num_warmups data_size buffer_size iteration r durations =
     (let is_warmup = iteration < num_warmups
      in andthen (sys_call ''mq_open'' (recv_mq r) ''receive: mq_open for reading'')
        (andthen (emit BarrierWait)
           (abind (recv_loop (mq_recv_step buffer_size) data_size (reads r) (0, [])) (\<lambda>s.
            let durations = record_duration is_warmup (recv_time r) durations
            in andthen (verify_or_abort (snd s) data_size)
                 (andthen (emit (Call ''mq_close'')) (ret durations))))))"

definition mq_ReceiveProcess ::
  "int \<Rightarrow> int \<Rightarrow> nat \<Rightarrow> nat \<Rightarrow> mq_recv_round list \<Rightarrow> BenchmarkResult act" where
  "mq_ReceiveProcess num_warmups num_iterations data_size buffer_size rounds =
     andthen (emit BarrierNew)
       (abind (benchmark_loop (mq_receive_iteration num_warmups data_size buffer_size)
                 num_warmups num_iterations rounds []) (\<lambda>durations.
        abind (lift (CalculateBandwidth durations num_iterations data_size)) (\<lambda>result.
        andthen (emit BarrierDelete) (ret result))))"

section \<open>The benchmark\<close>

definition max_msg_size :: "nat \<Rightarrow> nat" where
  "max_msg_size buffer_size = min buffer_size 8192"

definition RunMqBandwidthBenchmark ::
  "int \<Rightarrow> int \<Rightarrow> nat \<Rightarrow> nat \<Rightarrow> int \<Rightarrow> int \<Rightarrow> (nat \<Rightarrow> u64) \<Rightarrow> mq_send_round list
     \<Rightarrow> mq_recv_round list \<Rightarrow> BenchmarkResult act" where
  "RunMqBandwidthBenchmark num_iterations num_warmups data_size buffer_size mq_reply pid draws
      srounds rrounds =
     (let msg = max_msg_size buffer_size
      in andthen (emit (Call ''mq_unlink''))
        (andthen (sys_call ''mq_open'' mq_reply ''mq_open (create)'')
        (andthen (emit (Call ''mq_close''))
        (andthen (sys_call ''fork'' pid ''fork'')
          (if pid = 0 then
             andthen (mq_SendProcess num_warmups num_iterations data_size msg draws srounds)
               (lift (Exit 0))
           else
             abind (mq_ReceiveProcess num_warmups num_iterations data_size msg rrounds)
               (\<lambda>result. andthen (emit (Call ''waitpid''))
                 (andthen (emit (Call ''mq_unlink''))
                   (andthen (emit BarrierClear) (ret result)))))))))"

section \<open>Messages\<close>

definition mq_taken :: "nat \<Rightarrow> nat \<Rightarrow> int \<Rightarrow> bool" where
  "mq_taken m t reply \<longleftrightarrow> reply \<noteq> -1 \<and> 0 < m"

definition mq_amount :: "nat \<Rightarrow> nat \<Rightarrow> nat \<Rightarrow> int \<Rightarrow> nat" where
  "mq_amount n m t reply = min m (n - t)"

definition mq_all_sent :: "nat \<Rightarrow> nat \<Rightarrow> int list \<Rightarrow> bool" where
  "mq_all_sent n m rs \<longleftrightarrow> complete (mq_taken m) (mq_amount n m) n 0 rs"

interpretation mq_sending: sending "mq_send_step n m data" n data "mq_taken m" "mq_amount n m"
  for n m data
  by unfold_locales
    (auto simp: mq_taken_def mq_amount_def mq_send_step_def Let_def ret_def take_add)

interpretation mq_receiving: receiving "mq_recv_step m" n m appended snd for n m
  by unfold_locales (auto simp: mq_recv_step_def appended_def piece_ok_def ret_def)

lemma mq_send_all:
  assumes "mq_all_sent n m rs" and "length data = n"
  shows "\<exists>evs. send_loop (mq_send_step n m data) n rs (0, []) = (evs, Val (n, data))
     \<and> barrier_trace evs = []"
  using mq_sending.send_complete [of m n 0 rs data] assms by (simp add: mq_all_sent_def)

lemma mq_recv_all:
  assumes "payload n data" and "delivers m data replies"
  shows "\<exists>evs. recv_loop (mq_recv_step m) n replies (0, []) = (evs, Val (n, data))
     \<and> barrier_trace evs = []"
proof -
  obtain ps where ps: "replies = map RecvBytes ps" "list_all (piece_ok m) ps" "concat ps = data"
    using deliversE [OF assms(2)] by blast
  show ?thesis
    using mq_receiving.receive_all [OF ps(2), of "(0, [])" n] ps assms(1)
    by (auto simp: appended_def payload_def)
qed

lemma mq_accepted:
  "mq_all_sent n m rs \<Longrightarrow> length data = n \<Longrightarrow>
   accepted (send_loop (mq_send_step n m data) n rs (0, [])) = data"
  using mq_send_all [of n m rs data] by (auto simp: accepted_def)

text \<open>How many messages the payload needs.\<close>

lemma mq_complete_iff:
  assumes "0 < m"
  shows "t \<le> n \<Longrightarrow> complete (mq_taken m) (mq_amount n m) n t rs \<longleftrightarrow>
     length rs = (n - t + m - 1) div m \<and> list_all (\<lambda>r. r \<noteq> -1) rs"
proof (induction rs arbitrary: t)
  case Nil
  then show ?case using assms by (auto simp: div_eq_0_iff)
next
  case (Cons r rs)
  show ?case
  proof (cases "t < n")
    case True
    let ?t = "t + min m (n - t)"
    have "(n - t + m - 1) div m = Suc ((n - ?t + m - 1) div m)"
    proof (cases "m \<le> n - t")
      case True
      then have eq: "n - t + m - 1 = (n - ?t + m - 1) + m" using assms by (simp add: min_def)
      show ?thesis unfolding eq using assms by (subst div_add_self2) auto
    next
      case False
      then have eq: "n - t + m - 1 = (n - t - 1) + m" and lt: "n - t - 1 < m" "n - ?t + m - 1 < m"
        using True assms by (auto simp: min_def)
      show ?thesis unfolding eq div_less [OF lt(2)] using assms lt(1) by (subst div_add_self2) auto
    qed
    then show ?thesis
      using Cons.IH [of ?t] True assms by (auto simp: mq_taken_def mq_amount_def)
  next
    case False
    then have "n - t + m - 1 < m" using assms Cons.prems by simp
    then show ?thesis using False by simp
  qed
qed

section \<open>Rounds\<close>

interpretation mq_sender: measured_rounds
  "mq_send_iteration W n b data" "\<lambda>r. send_mq r \<noteq> -1 \<and> length data = n \<and> mq_all_sent n b (writes r)"
  "\<lambda>_. True" "\<lambda>ds. ds" send_time 1 W for W n b data
proof
  fix r :: mq_send_round and ds i
  assume g: "send_mq r \<noteq> -1 \<and> length data = n \<and> mq_all_sent n b (writes r)"
  then obtain evs where "send_loop (mq_send_step n b data) n (writes r) (0, []) = (evs, Val (n, data))"
      "barrier_trace evs = []"
    using mq_send_all by blast
  then show "\<exists>s'. snd (mq_send_iteration W n b data i r ds) = Val s' \<and> True
       \<and> s' = (if i < W then ds else ds @ [send_time r])"
    and "barrier_trace (fst (mq_send_iteration W n b data i r ds)) = replicate 1 BarrierWait"
    using g by (simp_all add: mq_send_iteration_def record_duration_def andthen_def)
qed

interpretation mq_receiver: measured_rounds
  "mq_receive_iteration W n b" "\<lambda>r. recv_mq r \<noteq> -1 \<and> payload n data \<and> delivers b data (reads r)"
  "\<lambda>_. True" "\<lambda>ds. ds" recv_time 1 W for W n b data
proof
  fix r :: mq_recv_round and ds i
  assume g: "recv_mq r \<noteq> -1 \<and> payload n data \<and> delivers b data (reads r)"
  then obtain evs where "recv_loop (mq_recv_step b) n (reads r) (0, []) = (evs, Val (n, data))"
      "barrier_trace evs = []"
    using mq_recv_all by blast
  then show "\<exists>s'. snd (mq_receive_iteration W n b i r ds) = Val s' \<and> True
       \<and> s' = (if i < W then ds else ds @ [recv_time r])"
    and "barrier_trace (fst (mq_receive_iteration W n b i r ds)) = replicate 1 BarrierWait"
    using g by (simp_all add: mq_receive_iteration_def record_duration_def verify_or_abort_True
        payload_def andthen_def)
qed

section \<open>Processes\<close>

lemma mq_SendProcess_ok:
  assumes "GenerateDataToSend draws n = Val data" and "counts_ok W N (length rounds)"
    and "list_all (\<lambda>r. send_mq r \<noteq> -1 \<and> mq_all_sent n b (writes r)) rounds"
  shows "\<exists>evs. mq_SendProcess W N n b draws rounds = (evs, Val ())
     \<and> barrier_trace evs = barrier_lifetime (length rounds)"
proof -
  have "list_all (\<lambda>r. send_mq r \<noteq> -1 \<and> length data = n \<and> mq_all_sent n b (writes r)) rounds"
    using assms(3) generated_payload [OF assms(1)] by (simp add: payload_def list_all_iff)
  then obtain durations evs result where
      "benchmark_loop (mq_send_iteration W n b data) W N rounds [] = (evs, Val durations)" "True"
      "durations = map send_time (drop (nat W) rounds)"
      "barrier_trace evs = replicate (1 * length rounds) BarrierWait"
      "CalculateBandwidth (map send_time (drop (nat W) rounds)) N n = Val result"
    by (rule mq_sender.benchmark_statistics [OF _ TrueI refl assms(2)])
  then show ?thesis
    using assms(1) by (simp add: mq_SendProcess_def barrier_lifetime_def act_defs)
qed

lemma mq_ReceiveProcess_ok:
  assumes "payload n data" and "counts_ok W N (length rounds)"
    and "list_all (\<lambda>r. recv_mq r \<noteq> -1 \<and> delivers b data (reads r)) rounds"
  shows "\<exists>evs result. mq_ReceiveProcess W N n b rounds = (evs, Val result)
     \<and> CalculateBandwidth (map recv_time (drop (nat W) rounds)) N n = Val result
     \<and> barrier_trace evs = barrier_lifetime (length rounds)"
proof -
  have "list_all (\<lambda>r. recv_mq r \<noteq> -1 \<and> payload n data \<and> delivers b data (reads r)) rounds"
    using assms(1,3) by (simp add: list_all_iff)
  then obtain durations evs result where
      "benchmark_loop (mq_receive_iteration W n b) W N rounds [] = (evs, Val durations)" "True"
      "durations = map recv_time (drop (nat W) rounds)"
      "barrier_trace evs = replicate (1 * length rounds) BarrierWait"
      "CalculateBandwidth (map recv_time (drop (nat W) rounds)) N n = Val result"
    by (rule mq_receiver.benchmark_statistics [OF _ TrueI refl assms(2)])
  then show ?thesis
    by (simp add: mq_ReceiveProcess_def barrier_lifetime_def act_defs)
qed

section \<open>Properties of the message queue benchmark\<close>

text \<open>
  C35 (functional). End to end over a message queue: when both sides can open the queue in every
  round, every message is taken, and the receiver gets the bytes of a round in that round, the child
  exits with 0 and the parent returns the statistics of exactly the rounds after the warm-up. The
  messages have at most 8192 bytes, and a round takes exactly as many of them as the payload needs.
\<close>

theorem mq_end_to_end:
  assumes "GenerateDataToSend draws n = Val data" and "counts_ok W N (length srounds)"
    and "m = max_msg_size b" and "0 < b"
    and "list_all (\<lambda>s. send_mq s \<noteq> -1 \<and> list_all (\<lambda>r. r \<noteq> -1) (writes s)
           \<and> length (writes s) = (n + m - 1) div m) srounds"
    and "list_all2 (\<lambda>s r. recv_mq r \<noteq> -1 \<and> delivers m
           (accepted (send_loop (mq_send_step n m data) n (writes s) (0, []))) (reads r))
         srounds rrounds"
    and "mq \<noteq> -1" and "pid \<noteq> -1" and "pid \<noteq> 0"
  shows "snd (RunMqBandwidthBenchmark N W n b mq 0 draws srounds rrounds) = Exit 0
    \<and> snd (RunMqBandwidthBenchmark N W n b mq pid draws srounds rrounds) =
        CalculateBandwidth (map recv_time (drop (nat W) rrounds)) N n
    \<and> (\<exists>result. CalculateBandwidth (map recv_time (drop (nat W) rrounds)) N n = Val result)
    \<and> barrier_trace (fst (RunMqBandwidthBenchmark N W n b mq 0 draws srounds rrounds)) =
        barrier_lifetime (nat (W + N))
    \<and> barrier_trace (fst (RunMqBandwidthBenchmark N W n b mq pid draws srounds rrounds)) =
        barrier_lifetime (nat (W + N)) @ [BarrierClear]"
proof -
  have m: "0 < m" using assms(3,4) by (simp add: max_msg_size_def)
  have sent: "list_all (\<lambda>s. send_mq s \<noteq> -1 \<and> mq_all_sent n m (writes s)) srounds"
    using assms(5) mq_complete_iff [OF m, of 0 n] by (simp add: list_all_iff mq_all_sent_def)
  have len: "length rrounds = length srounds" using assms(6) by (simp add: list_all2_lengthD)
  have pay: "payload n data" by (rule generated_payload [OF assms(1)])
  have "list_all (\<lambda>r. recv_mq r \<noteq> -1 \<and> delivers m data (reads r)) rrounds"
    using sent assms(6) pay mq_accepted [of n m _ data]
    by (fastforce simp: list_all2_conv_all_nth list_all_length payload_def)
  moreover have rc: "counts_ok W N (length rrounds)" using assms(2) len by simp
  ultimately obtain evs result where r: "mq_ReceiveProcess W N n m rrounds = (evs, Val result)"
      "CalculateBandwidth (map recv_time (drop (nat W) rrounds)) N n = Val result"
      "barrier_trace evs = barrier_lifetime (length rrounds)"
    using mq_ReceiveProcess_ok [OF pay] by blast
  obtain evs' where s: "mq_SendProcess W N n m draws srounds = (evs', Val ())"
      "barrier_trace evs' = barrier_lifetime (length srounds)"
    using mq_SendProcess_ok [OF assms(1,2) sent] by blast
  show ?thesis
    using r s assms(3,7-9) len counts_ok_nat [OF assms(2)]
    by (simp add: RunMqBandwidthBenchmark_def act_defs)
qed

definition mq_sample_srounds :: "mq_send_round list" where
  "mq_sample_srounds = replicate 2 \<lparr>writes = [0, 0], send_time = Fin 2, send_mq = 4\<rparr>"

definition mq_sample_rrounds :: "mq_recv_round list" where
  "mq_sample_rrounds = replicate 2 \<lparr>reads = sample_reads, recv_time = Fin 3, recv_mq = 4\<rparr>"

theorem mq_end_to_end_witness:
  "snd (RunMqBandwidthBenchmark 1 1 129 100 0 77 (\<lambda>_. 0) mq_sample_srounds mq_sample_rrounds) =
     Val \<lparr>average = Fin 43, stddev = Fin 0\<rparr>"
proof -
  have sent: "mq_all_sent 129 100 [0, 0]"
    using mq_complete_iff [of 100 0 129 "[0, 0]"] by (simp add: mq_all_sent_def)
  have "snd (RunMqBandwidthBenchmark 1 1 129 100 0 77 (\<lambda>_. 0) mq_sample_srounds mq_sample_rrounds) =
      CalculateBandwidth (map recv_time (drop (nat 1) mq_sample_rrounds)) 1 129"
  proof (rule mq_end_to_end [where data = sample_data and m = 100, THEN conjunct2, THEN conjunct1])
    show "list_all2 (\<lambda>s r. recv_mq r \<noteq> -1 \<and> delivers 100
           (accepted (send_loop (mq_send_step 129 100 sample_data) 129 (writes s) (0, []))) (reads r))
         mq_sample_srounds mq_sample_rrounds"
      using sample_delivers sample_payload mq_accepted [OF sent, of sample_data]
      by (simp add: mq_sample_srounds_def mq_sample_rrounds_def payload_def numeral_2_eq_2)
  qed (use sample_generated sample_counts in
      \<open>simp_all add: mq_sample_srounds_def numeral_2_eq_2 max_msg_size_def\<close>)
  then show ?thesis by (simp add: mq_sample_rrounds_def sample_result numeral_2_eq_2)
qed

end
