(* ===== verification/Phase_Sync.thy ===== *)
theory Phase_Sync
  imports Prelude
begin

text \<open>
  What a barrier promises, independently of how it works. Every process counts the rounds it has
  entered (its arrivals) and the rounds it has left (its completed \<^verbatim>\<open>Wait\<close> calls). The abstract
  barrier lets a process enter when it is outside, and lets it leave only when every process has
  entered the same round. The locale states that a transition system implements this abstract
  barrier and derives what its clients use: processes that are between two \<^verbatim>\<open>Wait\<close> calls at the
  same moment are in the same round.
\<close>

section \<open>The abstract barrier\<close>

type_synonym counters = "(nat \<Rightarrow> nat) \<times> (nat \<Rightarrow> nat)"

inductive sync_step :: "nat \<Rightarrow> counters \<Rightarrow> counters \<Rightarrow> bool" for n where
  stutter: "sync_step n (e, l) (e, l)"
| enter: "p < n \<Longrightarrow> e p = l p \<Longrightarrow> sync_step n (e, l) (e(p := Suc (e p)), l)"
| leave: "p < n \<Longrightarrow> e p = Suc (l p) \<Longrightarrow> \<forall>q<n. e p \<le> e q \<Longrightarrow>
          sync_step n (e, l) (e, l(p := Suc (l p)))"

inductive_cases sync_stepE: "sync_step n (e, l) (e', l')"

definition sync_ok :: "nat \<Rightarrow> counters \<Rightarrow> bool" where
  "sync_ok n c \<longleftrightarrow>
     (\<forall>p<n. snd c p \<le> fst c p \<and> fst c p \<le> Suc (snd c p))
     \<and> (\<forall>p<n. \<forall>q<n. snd c p \<le> fst c q)"

lemma sync_step_ok: "sync_step n c d \<Longrightarrow> sync_ok n c \<Longrightarrow> sync_ok n d"
proof (induction rule: sync_step.induct)
  case (enter p e l)
  then show ?case by (force simp: sync_ok_def)
next
  case (leave p e l)
  then show ?case by (auto simp: sync_ok_def)
qed simp

section \<open>Implementations of the abstract barrier\<close>

locale phase_sync =
  fixes n :: nat
    and init :: 's
    and step :: "'s \<Rightarrow> 's \<Rightarrow> bool"
    and entered :: "'s \<Rightarrow> nat \<Rightarrow> nat"
    and left :: "'s \<Rightarrow> nat \<Rightarrow> nat"
  assumes init_zero: "entered init p = 0" "left init p = 0"
    and refines: "rtranclp step init s \<Longrightarrow> step s t \<Longrightarrow>
                  sync_step n (entered s, left s) (entered t, left t)"
begin

lemma counters_ok: "rtranclp step init s \<Longrightarrow> sync_ok n (entered s, left s)"
proof (induction rule: rtranclp_induct)
  case base
  show ?case by (simp add: sync_ok_def init_zero)
next
  case (step s t)
  then show ?case by (blast intro: sync_step_ok refines)
qed

text \<open>A process is inside at most one round.\<close>

lemma within_one_round:
  "rtranclp step init s \<Longrightarrow> p < n \<Longrightarrow> left s p \<le> entered s p \<and> entered s p \<le> Suc (left s p)"
  using counters_ok by (auto simp: sync_ok_def)

text \<open>Nobody leaves a round that somebody has not entered.\<close>

lemma separation:
  "rtranclp step init s \<Longrightarrow> p < n \<Longrightarrow> q < n \<Longrightarrow> left s p \<le> entered s q"
  using counters_ok by (auto simp: sync_ok_def)

text \<open>Processes that are outside the barrier at the same moment completed equally many rounds.\<close>

lemma same_phase:
  assumes "rtranclp step init s" "p < n" "q < n"
    and "entered s p = left s p" "entered s q = left s q"
  shows "left s p = left s q"
  using separation [OF assms(1-3)] separation [OF assms(1,3,2)] assms(4,5) by simp

text \<open>The progress of two processes differs by one round at most.\<close>

lemma skew:
  "rtranclp step init s \<Longrightarrow> p < n \<Longrightarrow> q < n \<Longrightarrow> left s p \<le> Suc (left s q)"
  using separation [of s p q] within_one_round [of s q] by fastforce

end

end
