(* ===== verification/Double_Buffer.thy ===== *)
theory Double_Buffer
  imports Stream_Loops Phase_Sync Progress
begin

text \<open>
  The double buffer of \<^verbatim>\<open>akbench/mmap_bandwidth.cc\<close> and \<^verbatim>\<open>shm_bandwidth.cc\<close>: a mapped
  region with two slots and their sizes. In pass \<open>i\<close> of the pipeline the sender fills slot
  \<open>i mod 2\<close> while the receiver empties slot \<open>(i + 1) mod 2\<close>; a barrier call separates the
  passes and there is no other synchronisation.

  The first part has the single accesses to the region. The second part is the interleaving of
  the two processes in one round, from the clearing of the region to the end of the pipeline, over
  the abstract barrier of \<open>Phase_Sync\<close>. The two programs differ in who clears the region and in
  whether the receiver reads the size of a slot once or twice.
\<close>

section \<open>The mapped region\<close>

text \<open>\<^verbatim>\<open>MmapBuffer\<close> and \<^verbatim>\<open>SharedBuffer\<close>: two sizes, then the bytes of both slots.\<close>

record shared_buffer =
  slot_size :: "nat list"
  slot_data :: "byte list"

definition header_size :: u64 where
  "header_size = 16"

definition total_size :: "u64 \<Rightarrow> u64" where
  "total_size buffer_size = header_size + 2 * buffer_size"

text \<open>\<^verbatim>\<open>memset\<close> of a region of \<open>n\<close> bytes behind the header.\<close>

definition zero_buffer :: "nat \<Rightarrow> shared_buffer" where
  "zero_buffer n = \<lparr>slot_size = [0, 0], slot_data = replicate n 0\<rparr>"

definition n_pipeline :: "u64 \<Rightarrow> u64 \<Rightarrow> u64 outcome" where
  "n_pipeline data_size buffer_size =
     (if buffer_size = 0 then Undefined ''division by zero''
      else Val ((data_size + buffer_size - 1) div buffer_size + 1))"

section \<open>Accesses of one pass\<close>

definition size_to_send :: "nat \<Rightarrow> nat \<Rightarrow> nat \<Rightarrow> nat" where
  "size_to_send data_size buffer_size bytes_sent = min (data_size - bytes_sent) buffer_size"

definition send_copy ::
  "nat \<Rightarrow> nat \<Rightarrow> byte list \<Rightarrow> nat \<Rightarrow> nat \<Rightarrow> shared_buffer \<Rightarrow> shared_buffer outcome" where
  "send_copy data_size buffer_size data i bytes_sent buf =
     obind (copy_into (slot_data buf) (i mod 2 * buffer_size)
              (take (size_to_send data_size buffer_size bytes_sent) (drop bytes_sent data)))
       (\<lambda>d. Val (buf\<lparr>slot_data := d\<rparr>))"

definition send_size :: "nat \<Rightarrow> nat \<Rightarrow> nat \<Rightarrow> nat \<Rightarrow> shared_buffer \<Rightarrow> shared_buffer" where
  "send_size data_size buffer_size i bytes_sent buf =
     buf\<lparr>slot_size := (slot_size buf)[i mod 2 := size_to_send data_size buffer_size bytes_sent]\<rparr>"

definition recv_size :: "nat \<Rightarrow> shared_buffer \<Rightarrow> nat" where
  "recv_size i buf = slot_size buf ! ((i + 1) mod 2)"

definition recv_slot :: "nat \<Rightarrow> nat \<Rightarrow> nat \<Rightarrow> shared_buffer \<Rightarrow> byte list outcome" where
  "recv_slot buffer_size i size_to_receive buf =
     (let off = (i + 1) mod 2 * buffer_size
      in if off + size_to_receive \<le> length (slot_data buf)
         then Val (take size_to_receive (drop off (slot_data buf)))
         else Undefined ''slot out of bounds'')"

section \<open>One round of both processes\<close>

text \<open>Process 0 sends and process 1 receives.\<close>

datatype variant = Mmap | Shm

primrec clearer :: "variant \<Rightarrow> nat" where
  "clearer Mmap = 0"
| "clearer Shm = 1"

text \<open>
  The state: how often each process entered and left the barrier, how many accesses of the present
  segment it has made, the region, and the local variables of the two loops. \<open>seen\<close> is a history:
  what the receiver copied in each pass.
\<close>

record dsys =
  db_entered :: "nat \<Rightarrow> nat"
  db_left :: "nat \<Rightarrow> nat"
  pos :: "nat \<Rightarrow> nat"
  region :: shared_buffer
  bytes_sent :: nat
  r_len :: nat
  received :: "byte list"
  bytes_received :: nat
  seen :: "byte list list"

text \<open>
  Number of accesses of process \<open>p\<close> after its \<open>k\<close>th barrier call of the round: one of them
  clears the region in the first segment, and segment \<open>i + 2\<close> holds pass \<open>i\<close>.
\<close>

definition work :: "variant \<Rightarrow> nat \<Rightarrow> nat \<Rightarrow> nat \<Rightarrow> nat" where
  "work v n p k =
     (if k = 0 then (if p = clearer v then 1 else 0)
      else if 2 \<le> k \<and> k < n + 2 then (if p = 0 then 2 else 3) else 0)"

definition db_access ::
  "variant \<Rightarrow> nat \<Rightarrow> nat \<Rightarrow> byte list \<Rightarrow> nat \<Rightarrow> dsys \<Rightarrow> dsys outcome" where
  "db_access v data_size buffer_size data p s =
     (let k = db_left s p; i = k - 2
      in if k = 0 then Val (s\<lparr>region := zero_buffer (2 * buffer_size)\<rparr>)
         else if p = 0 then
           (if pos s 0 = 0 then
              obind (send_copy data_size buffer_size data i (bytes_sent s) (region s))
                (\<lambda>b. Val (s\<lparr>region := b\<rparr>))
            else Val (s\<lparr>region := send_size data_size buffer_size i (bytes_sent s) (region s),
                        bytes_sent := bytes_sent s
                          + size_to_send data_size buffer_size (bytes_sent s)\<rparr>))
         else
           (if pos s 1 = 0 then Val (s\<lparr>r_len := recv_size i (region s)\<rparr>)
            else if pos s 1 = 1 then
              obind (recv_slot buffer_size i (r_len s) (region s)) (\<lambda>bytes.
              obind (copy_into (received s) (bytes_received s) bytes) (\<lambda>d.
              Val (s\<lparr>received := d, seen := seen s @ [bytes]\<rparr>)))
            else Val (s\<lparr>bytes_received := bytes_received s
                         + (if v = Shm then recv_size i (region s) else r_len s)\<rparr>)))"

inductive db_step :: "variant \<Rightarrow> nat \<Rightarrow> nat \<Rightarrow> nat \<Rightarrow> byte list \<Rightarrow> dsys \<Rightarrow> dsys \<Rightarrow> bool"
  for v n data_size buffer_size data where
  access: "p < 2 \<Longrightarrow> db_entered s p = db_left s p \<Longrightarrow> pos s p < work v n p (db_left s p) \<Longrightarrow>
    db_access v data_size buffer_size data p s = Val s' \<Longrightarrow>
    db_step v n data_size buffer_size data s (s'\<lparr>pos := (pos s)(p := Suc (pos s p))\<rparr>)"
| enter: "p < 2 \<Longrightarrow> db_entered s p = db_left s p \<Longrightarrow> pos s p = work v n p (db_left s p) \<Longrightarrow>
    db_left s p < n + 2 \<Longrightarrow>
    db_step v n data_size buffer_size data s
      (s\<lparr>db_entered := (db_entered s)(p := Suc (db_entered s p))\<rparr>)"
| leave: "p < 2 \<Longrightarrow> db_entered s p = Suc (db_left s p) \<Longrightarrow>
    (\<forall>q<2. db_entered s p \<le> db_entered s q) \<Longrightarrow>
    db_step v n data_size buffer_size data s
      (s\<lparr>db_left := (db_left s)(p := Suc (db_left s p)), pos := (pos s)(p := 0)\<rparr>)"

text \<open>The round starts with any contents of the region.\<close>

definition db_init :: "nat \<Rightarrow> shared_buffer \<Rightarrow> dsys" where
  "db_init data_size g =
     \<lparr>db_entered = (\<lambda>_. 0), db_left = (\<lambda>_. 0), pos = (\<lambda>_. 0), region = g, bytes_sent = 0,
      r_len = 0, received = replicate data_size 0, bytes_received = 0, seen = []\<rparr>"

definition db_reachable ::
  "variant \<Rightarrow> nat \<Rightarrow> nat \<Rightarrow> nat \<Rightarrow> byte list \<Rightarrow> shared_buffer \<Rightarrow> dsys \<Rightarrow> bool" where
  "db_reachable v n data_size buffer_size data g =
     rtranclp (db_step v n data_size buffer_size data) (db_init data_size g)"

definition db_final :: "nat \<Rightarrow> dsys \<Rightarrow> bool" where
  "db_final n s \<longleftrightarrow> db_left s 0 = n + 2 \<and> db_left s 1 = n + 2"

section \<open>The barrier of the round\<close>

lemma db_access_frame:
  "db_access v ds bs data p s = Val s' \<Longrightarrow>
   db_entered s' = db_entered s \<and> db_left s' = db_left s \<and> pos s' = pos s"
  by (auto simp: db_access_def Let_def obind_Val_iff split: if_splits)

interpretation db_sync: phase_sync 2 "db_init ds g" "db_step v n ds bs data" db_entered db_left
  for v n ds bs data g
proof
  fix p
  show "db_entered (db_init ds g) p = 0" "db_left (db_init ds g) p = 0"
    by (simp_all add: db_init_def)
next
  fix s t
  assume "db_step v n ds bs data s t"
  then show "sync_step 2 (db_entered s, db_left s) (db_entered t, db_left t)"
  proof cases
    case (access p s')
    then show ?thesis using db_access_frame [OF access(5)] by (simp add: sync_step.stutter)
  next
    case (enter p)
    then show ?thesis using sync_step.enter [of p 2 "db_entered s" "db_left s"] by simp
  next
    case (leave p)
    then show ?thesis using sync_step.leave [of p 2 "db_entered s" "db_left s"] by simp
  qed
qed

lemma less_2: "(p :: nat) < 2 \<longleftrightarrow> p = 0 \<or> p = 1"
  by auto

text \<open>Program counters stay inside their segment.\<close>

definition ctrl_inv :: "variant \<Rightarrow> nat \<Rightarrow> dsys \<Rightarrow> bool" where
  "ctrl_inv v n s \<longleftrightarrow>
     (\<forall>p<2. pos s p \<le> work v n p (db_left s p)
        \<and> (db_entered s p \<noteq> db_left s p \<longrightarrow> pos s p = work v n p (db_left s p))
        \<and> db_left s p \<le> db_entered s p \<and> db_entered s p \<le> Suc (db_left s p)
        \<and> db_entered s p \<le> n + 2)"

lemma ctrl_inv_step: "db_step v n ds bs data s t \<Longrightarrow> ctrl_inv v n s \<Longrightarrow> ctrl_inv v n t"
proof (induction rule: db_step.induct)
  case (access p s s')
  then show ?case
    using db_access_frame [OF access(4)] by (auto simp: ctrl_inv_def)
next
  case (enter p s)
  then show ?case by (auto simp: ctrl_inv_def)
next
  case (leave p s)
  then show ?case by (auto simp: ctrl_inv_def)
qed

lemma ctrl_inv_reachable: "db_reachable v n ds bs data g s \<Longrightarrow> ctrl_inv v n s"
  unfolding db_reachable_def
proof (induction rule: rtranclp_induct)
  case base
  show ?case by (simp add: ctrl_inv_def db_init_def)
qed (rule ctrl_inv_step)

lemma db_sync_reachable:
  "db_reachable v n ds bs data g s \<Longrightarrow> sync_ok 2 (db_entered s, db_left s)"
  unfolding db_reachable_def by (rule db_sync.counters_ok)

section \<open>Contents of the slots\<close>

text \<open>What the receiver shall find in pass \<open>j\<close>: nothing in the first, then chunk by chunk.\<close>

definition piece :: "nat \<Rightarrow> byte list \<Rightarrow> nat \<Rightarrow> byte list" where
  "piece bs data j = (case j of 0 \<Rightarrow> [] | Suc m \<Rightarrow> take bs (drop (m * bs) data))"

lemma length_piece_le: "length (piece bs data j) \<le> bs"
  by (simp add: piece_def split: nat.split)

lemma concat_pieces: "concat (map (piece bs data) [0..<j]) = take ((j - 1) * bs) data"
proof (induction j)
  case (Suc j)
  show ?case
  proof (cases j)
    case (Suc m)
    have split: "take (m * bs) data @ take bs (drop (m * bs) data) = take (Suc m * bs) data"
      using take_add [of "m * bs" bs data] by (simp add: add.commute)
    have "concat (map (piece bs data) [0..<Suc j]) =
        concat (map (piece bs data) [0..<j]) @ take bs (drop (m * bs) data)"
      using Suc by (simp add: piece_def)
    also have "\<dots> = take (Suc m * bs) data"
    proof -
      have "j - 1 = m" using Suc by simp
      then show ?thesis unfolding Suc.IH using split by simp
    qed
    finally show ?thesis using Suc by simp
  qed (simp add: piece_def)
qed simp

lemma pieces_prefix:
  "length (concat (map (piece bs data) [0..<j])) + length (piece bs data j) \<le> length data"
proof -
  have "length (concat (map (piece bs data) [0..<Suc j])) \<le> length data"
    unfolding concat_pieces by simp
  then show ?thesis by simp
qed

definition holds :: "nat \<Rightarrow> byte list \<Rightarrow> shared_buffer \<Rightarrow> nat \<Rightarrow> nat \<Rightarrow> bool" where
  "holds bs data b slot j \<longleftrightarrow> slot_size b ! slot = length (piece bs data j)
     \<and> take (length (piece bs data j)) (drop (slot * bs) (slot_data b)) = piece bs data j"

text \<open>
  The region after \<open>a\<close> passes of the sender; \<open>mid\<close> says that the next chunk is copied but its size
  is not yet set.
\<close>

definition region_ok :: "nat \<Rightarrow> byte list \<Rightarrow> nat \<Rightarrow> bool \<Rightarrow> shared_buffer \<Rightarrow> bool" where
  "region_ok bs data a mid b \<longleftrightarrow>
     length (slot_size b) = 2 \<and> length (slot_data b) = 2 * bs
     \<and> holds bs data b (Suc a mod 2) a
     \<and> (if mid then take (length (piece bs data (Suc a))) (drop (a mod 2 * bs) (slot_data b))
                    = piece bs data (Suc a)
        else holds bs data b (a mod 2) (a - 1))"

lemma region_ok_zero: "region_ok bs data 0 False (zero_buffer (2 * bs))"
  by (simp add: region_ok_def holds_def zero_buffer_def piece_def)

lemma size_to_send_piece:
  "length data = ds \<Longrightarrow> size_to_send ds bs (min ds (a * bs)) = length (piece bs data (Suc a))"
  by (auto simp: size_to_send_def piece_def min_def)

lemma sent_piece:
  "length data = ds \<Longrightarrow>
   take (size_to_send ds bs (min ds (a * bs))) (drop (min ds (a * bs)) data) = piece bs data (Suc a)"
  by (auto simp: size_to_send_def piece_def min_def)

lemma other_slot_kept:
  assumes "copy_into d (i * bs) xs = Val d'" and "length xs \<le> bs" and "i < 2" and "j < 2" and "i \<noteq> j"
    and "length ys \<le> bs" and "length d = 2 * bs"
    and "take (length ys) (drop (j * bs) d) = ys"
  shows "take (length ys) (drop (j * bs) d') = ys"
proof -
  have d': "d' = take (i * bs) d @ xs @ drop (i * bs + length xs) d"
    using assms(1) by (auto simp: copy_into_def split: if_splits)
  consider "i = 0" "j = 1" | "i = 1" "j = 0" using assms(3-5) by (auto simp: less_2)
  then show ?thesis
  proof cases
    case 1
    then have "drop bs d' = drop bs d" using assms(2) by (simp add: d')
    then show ?thesis using 1 assms(8) by simp
  next
    case 2
    then have "take bs d' = take bs d" using assms(7) by (simp add: d')
    then have "take (length ys) d' = take (length ys) d"
      using assms(6) by (metis min.absorb1 take_take)
    then show ?thesis using 2 assms(8) by simp
  qed
qed

lemma send_copy_ok:
  assumes "length data = ds" and "region_ok bs data a False b"
  shows "\<exists>b'. send_copy ds bs data a (min ds (a * bs)) b = Val b' \<and> region_ok bs data a True b'"
proof -
  let ?p = "piece bs data (Suc a)"
  have len: "length (slot_data b) = 2 * bs" and sz: "length (slot_size b) = 2"
    and h: "holds bs data b (Suc a mod 2) a"
    using assms(2) by (simp_all add: region_ok_def)
  have a2: "a mod 2 * bs + bs \<le> 2 * bs" by (cases "a mod 2 = 0") (auto simp: mod_2_eq_odd)
  obtain d where d: "copy_into (slot_data b) (a mod 2 * bs) ?p = Val d"
      "d = take (a mod 2 * bs) (slot_data b) @ ?p @ drop (a mod 2 * bs + length ?p) (slot_data b)"
    using a2 length_piece_le [of bs data "Suc a"] len by (simp add: copy_into_def)
  have "length d = 2 * bs" using copy_into_Val_length [OF d(1)] len by simp
  moreover have "take (length (piece bs data a)) (drop (Suc a mod 2 * bs) d) = piece bs data a"
    by (rule other_slot_kept [OF d(1)])
      (use length_piece_le h len in \<open>auto simp: holds_def mod_2_eq_odd\<close>)
  moreover have "take (length ?p) (drop (a mod 2 * bs) d) = ?p"
    using a2 len by (simp add: d(2))
  ultimately show ?thesis
    using d(1) h sz by (simp add: send_copy_def sent_piece [OF assms(1)] region_ok_def holds_def)
qed

lemma send_size_ok:
  assumes "length data = ds" and "region_ok bs data a True b"
  shows "region_ok bs data (Suc a) False (send_size ds bs a (min ds (a * bs)) b)"
proof -
  have "Suc a mod 2 \<noteq> a mod 2" "a mod 2 < 2" "Suc (Suc a) mod 2 = a mod 2"
    by (simp_all add: mod_2_eq_odd)
  then show ?thesis
    using assms by (auto simp: region_ok_def holds_def send_size_def size_to_send_piece nth_list_update)
qed

lemma recv_ok:
  assumes "region_ok bs data a mid b" and "a = i \<or> a = Suc i \<and> \<not> mid"
  shows "recv_size i b = length (piece bs data i)
    \<and> recv_slot bs i (length (piece bs data i)) b = Val (piece bs data i)"
proof -
  have "holds bs data b (Suc i mod 2) i" using assms by (auto simp: region_ok_def)
  moreover have "Suc i mod 2 * bs + length (piece bs data i) \<le> 2 * bs"
    using length_piece_le [of bs data i] by (auto simp: mod_2_eq_odd)
  ultimately show ?thesis
    using assms(1) by (simp add: recv_size_def recv_slot_def holds_def region_ok_def)
qed

section \<open>Invariants of the round\<close>

definition passes :: "nat \<Rightarrow> nat \<Rightarrow> nat \<Rightarrow> nat" where
  "passes full k p = (if k < 2 then 0 else k - 2 + of_bool (full \<le> p))"

text \<open>Completed passes of the sender; passes whose bytes the receiver copied; completed passes.\<close>

definition s_passes :: "dsys \<Rightarrow> nat" where
  "s_passes s = passes 2 (db_left s 0) (pos s 0)"

definition r_copied :: "dsys \<Rightarrow> nat" where
  "r_copied s = passes 2 (db_left s 1) (pos s 1)"

definition r_passes :: "dsys \<Rightarrow> nat" where
  "r_passes s = passes 3 (db_left s 1) (pos s 1)"

definition s_mid :: "dsys \<Rightarrow> bool" where
  "s_mid s \<longleftrightarrow> 2 \<le> db_left s 0 \<and> pos s 0 = 1"

definition cleared :: "variant \<Rightarrow> dsys \<Rightarrow> bool" where
  "cleared v s \<longleftrightarrow> 0 < db_left s (clearer v) \<or> 0 < pos s (clearer v)"

definition sender_inv :: "variant \<Rightarrow> nat \<Rightarrow> byte list \<Rightarrow> dsys \<Rightarrow> bool" where
  "sender_inv v bs data s \<longleftrightarrow>
     bytes_sent s = min (length data) (s_passes s * bs)
     \<and> (cleared v s \<longrightarrow> region_ok bs data (s_passes s) (s_mid s) (region s))"

definition receiver_inv :: "nat \<Rightarrow> byte list \<Rightarrow> dsys \<Rightarrow> bool" where
  "receiver_inv bs data s \<longleftrightarrow>
     seen s = map (piece bs data) [0..<r_copied s]
     \<and> length (received s) = length data
     \<and> take (length (concat (seen s))) (received s) = concat (seen s)
     \<and> bytes_received s = length (concat (map (piece bs data) [0..<r_passes s]))
     \<and> (2 \<le> db_left s 1 \<and> pos s 1 \<in> {1, 2} \<longrightarrow> r_len s = length (piece bs data (db_left s 1 - 2)))"

lemma clearer_less [simp]: "clearer v < 2"
  by (cases v) simp_all

text \<open>The counters of the two processes, written out.\<close>

lemma counters:
  assumes "sync_ok 2 (db_entered s, db_left s)"
  shows "db_left s 0 \<le> db_entered s 0" "db_entered s 0 \<le> Suc (db_left s 0)"
    "db_left s 1 \<le> db_entered s 1" "db_entered s 1 \<le> Suc (db_left s 1)"
    "db_left s 0 \<le> db_entered s 1" "db_left s 1 \<le> db_entered s 0"
  using assms by (auto simp: sync_ok_def less_2)

lemma cleared_later:
  assumes "sync_ok 2 (db_entered s, db_left s)" and "p < 2" and "2 \<le> db_left s p"
  shows "cleared v s"
proof -
  have "db_left s p \<le> db_entered s (clearer v)" "db_entered s (clearer v) \<le> Suc (db_left s (clearer v))"
    using assms(1,2) by (auto simp: sync_ok_def)
  then show ?thesis using assms(3) by (simp add: cleared_def)
qed

text \<open>A receiver at work in pass \<open>i\<close> meets a sender that has completed \<open>i\<close> or \<open>i + 1\<close> passes.\<close>

lemma sender_near:
  assumes "ctrl_inv v n s" and "sync_ok 2 (db_entered s, db_left s)"
    and "db_entered s 1 = db_left s 1" and "2 \<le> db_left s 1" and "db_left s 1 < n + 2"
  shows "s_passes s = db_left s 1 - 2 \<or> s_passes s = Suc (db_left s 1 - 2) \<and> \<not> s_mid s"
proof -
  have ctrl: "pos s 0 \<le> work v n 0 (db_left s 0)"
    "db_entered s 0 \<noteq> db_left s 0 \<longrightarrow> pos s 0 = work v n 0 (db_left s 0)"
    using assms(1) by (auto simp: ctrl_inv_def)
  consider "db_left s 0 = db_left s 1" | "Suc (db_left s 0) = db_left s 1" "db_entered s 0 = Suc (db_left s 0)"
    using counters [OF assms(2)] assms(3) by linarith
  then show ?thesis
  proof cases
    case 1
    then show ?thesis
      using ctrl(1) assms(4) by (auto simp: s_passes_def passes_def s_mid_def work_def split: if_splits)
  next
    case 2
    then have "pos s 0 = work v n 0 (db_left s 0)" using ctrl(2) by simp
    then show ?thesis
      using 2 assms(4,5) by (auto simp: s_passes_def passes_def s_mid_def work_def split: if_splits)
  qed
qed

subsection \<open>Every access is defined\<close>

lemma sender_access:
  assumes "sync_ok 2 (db_entered s, db_left s)" and "sender_inv v bs data s" and "ctrl_inv v n s"
    and "0 < db_left s 0" and "pos s 0 < work v n 0 (db_left s 0)"
  shows "\<exists>b'. db_access v (length data) bs data 0 s =
      Val (if pos s 0 = 0 then s\<lparr>region := b'\<rparr>
           else s\<lparr>region := b', bytes_sent := min (length data) (Suc (s_passes s) * bs)\<rparr>)
    \<and> region_ok bs data (s_passes s + of_bool (pos s 0 = 1)) (pos s 0 = 0) b'"
proof -
  have k: "2 \<le> db_left s 0" "db_left s 0 < n + 2" "pos s 0 < 2"
    using assms(4,5) by (auto simp: work_def split: if_splits)
  have sp: "s_passes s = db_left s 0 - 2" using k by (simp add: s_passes_def passes_def)
  have reg: "region_ok bs data (s_passes s) (s_mid s) (region s)"
    and sent: "bytes_sent s = min (length data) (s_passes s * bs)"
    using assms(2) cleared_later [OF assms(1) _ k(1)] by (auto simp: sender_inv_def)
  consider "pos s 0 = 0" | "pos s 0 = 1" using k(3) by linarith
  then show ?thesis
  proof cases
    case 1
    then have "region_ok bs data (s_passes s) False (region s)" using reg by (simp add: s_mid_def)
    from send_copy_ok [OF refl this] show ?thesis
      using 1 assms(4) sent by (auto simp: db_access_def Let_def sp)
  next
    case 2
    then have r: "region_ok bs data (s_passes s) True (region s)" using reg k by (simp add: s_mid_def)
    have "min (length data) (s_passes s * bs)
        + size_to_send (length data) bs (min (length data) (s_passes s * bs)) =
        min (length data) (Suc (s_passes s) * bs)"
      by (auto simp: size_to_send_def min_def)
    then show ?thesis
      using 2 assms(4) sent send_size_ok [OF refl r]
      by (intro exI [of _ "send_size (length data) bs (s_passes s) (bytes_sent s) (region s)"])
        (simp add: db_access_def Let_def sp)
  qed
qed

lemma receiver_access:
  assumes "sync_ok 2 (db_entered s, db_left s)" and "sender_inv v bs data s" and "ctrl_inv v n s"
    and "receiver_inv bs data s" and "db_entered s 1 = db_left s 1"
    and "0 < db_left s 1" and "pos s 1 < work v n 1 (db_left s 1)"
  shows "\<exists>s'. db_access v (length data) bs data 1 s = Val s' \<and> region s' = region s
     \<and> bytes_sent s' = bytes_sent s
     \<and> receiver_inv bs data (s'\<lparr>pos := (pos s)(1 := Suc (pos s 1))\<rparr>)"
proof -
  let ?i = "db_left s 1 - 2" and ?P = "piece bs data"
  have k: "2 \<le> db_left s 1" "db_left s 1 < n + 2" "pos s 1 < 3"
    using assms(6,7) by (auto simp: work_def split: if_splits)
  have reg: "region_ok bs data (s_passes s) (s_mid s) (region s)"
    using assms(2) cleared_later [OF assms(1) _ k(1)] by (auto simp: sender_inv_def)
  note rd = recv_ok [OF reg sender_near [OF assms(3,1,5) k(1,2)]]
  have inv: "seen s = map ?P [0..<r_copied s]" "length (received s) = length data"
      "take (length (concat (seen s))) (received s) = concat (seen s)"
      "bytes_received s = length (concat (map ?P [0..<r_passes s]))"
      "pos s 1 \<in> {1, 2} \<Longrightarrow> r_len s = length (?P ?i)"
    using assms(4) k by (auto simp: receiver_inv_def)
  consider "pos s 1 = 0" | "pos s 1 = 1" | "pos s 1 = 2" using k(3) by linarith
  then show ?thesis
  proof cases
    case 1
    have "db_access v (length data) bs data 1 s = Val (s\<lparr>r_len := length (?P ?i)\<rparr>)"
      using 1 k rd by (simp add: db_access_def Let_def)
    then show ?thesis
      using inv 1 k by (auto simp: receiver_inv_def r_copied_def r_passes_def passes_def)
  next
    case 2
    have rp: "r_passes s = ?i" "r_copied s = ?i"
      using 2 k by (simp_all add: r_passes_def r_copied_def passes_def)
    let ?c = "concat (seen s)"
    have got: "bytes_received s = length ?c" using inv(1,4) rp by simp
    have fit: "length ?c + length (?P ?i) \<le> length data"
      using pieces_prefix [of bs data ?i] inv(1) rp(2) by simp
    obtain d where d: "copy_into (received s) (bytes_received s) (?P ?i) = Val d"
        "d = take (length ?c) (received s) @ ?P ?i @ drop (length ?c + length (?P ?i)) (received s)"
      using fit inv(2) got by (simp add: copy_into_def)
    have acc: "db_access v (length data) bs data 1 s =
        Val (s\<lparr>received := d, seen := seen s @ [?P ?i]\<rparr>)"
      using 2 k rd inv(5) d(1) by (simp add: db_access_def Let_def)
    have "take (length ?c + length (?P ?i)) d = ?c @ ?P ?i"
      using inv(3) d(2) fit inv(2) by simp
    moreover have "length d = length data" using copy_into_Val_length [OF d(1)] inv(2) by simp
    ultimately show ?thesis
      using acc inv rp 2 k
      by (auto simp: receiver_inv_def r_copied_def r_passes_def passes_def)
  next
    case 3
    have rp: "r_passes s = ?i" "r_copied s = Suc ?i"
      using 3 k by (simp_all add: r_passes_def r_copied_def passes_def)
    have "db_access v (length data) bs data 1 s =
        Val (s\<lparr>bytes_received := bytes_received s + length (?P ?i)\<rparr>)"
      using 3 k rd inv(5) by (simp add: db_access_def Let_def)
    then show ?thesis
      using inv rp 3 k by (auto simp: receiver_inv_def r_copied_def r_passes_def passes_def)
  qed
qed

subsection \<open>Preservation\<close>

lemma clear_access:
  assumes "p < 2" and "db_left s p = 0" and "pos s p < work v n p (db_left s p)"
  shows "p = clearer v \<and> pos s p = 0
     \<and> db_access v ds bs data p s = Val (s\<lparr>region := zero_buffer (2 * bs)\<rparr>)"
  using assms by (auto simp: work_def db_access_def split: if_splits)

lemma enter_keeps:
  "sender_inv v bs data (s\<lparr>db_entered := e\<rparr>) = sender_inv v bs data s"
  "receiver_inv bs data (s\<lparr>db_entered := e\<rparr>) = receiver_inv bs data s"
  by (auto simp: sender_inv_def receiver_inv_def s_passes_def s_mid_def cleared_def r_copied_def
      r_passes_def)

text \<open>Leaving a barrier call does not change how many passes are done.\<close>

lemma passes_leave:
  assumes "pos s p = work v n p (db_left s p)" and "db_left s p < n + 2"
    and "p = 0 \<and> full = 2 \<or> p \<noteq> 0 \<and> full \<in> {2, 3}"
  shows "passes full (Suc (db_left s p)) 0 = passes full (db_left s p) (pos s p)"
proof -
  consider "db_left s p < 2" | "2 \<le> db_left s p" by linarith
  then show ?thesis
  proof cases
    case 1
    then have "db_left s p = 0 \<or> db_left s p = 1" by linarith
    then show ?thesis using assms(3) by (auto simp: passes_def)
  next
    case 2
    then show ?thesis using assms by (auto simp: passes_def work_def)
  qed
qed

lemma leave_keeps:
  assumes "ctrl_inv v n s" and "p < 2" and "db_entered s p = Suc (db_left s p)"
    and "sync_ok 2 (db_entered s, db_left s)"
    and "sender_inv v bs data s" and "receiver_inv bs data s"
  defines "t \<equiv> s\<lparr>db_left := (db_left s)(p := Suc (db_left s p)), pos := (pos s)(p := 0)\<rparr>"
  shows "sender_inv v bs data t \<and> receiver_inv bs data t"
proof -
  have c: "pos s p = work v n p (db_left s p)" "db_left s p < n + 2"
    using assms(1-3) by (auto simp: ctrl_inv_def)
  have sp: "s_passes t = s_passes s"
    using passes_leave [OF c, of 2] by (auto simp: s_passes_def t_def)
  have rp: "r_passes t = r_passes s" "r_copied t = r_copied s"
    using passes_leave [OF c, of 3] passes_leave [OF c, of 2] assms(2)
    by (auto simp: r_passes_def r_copied_def t_def less_2)
  have mid: "s_mid t = s_mid s"
    using c by (auto simp: s_mid_def t_def work_def)
  have cl: "cleared v t = cleared v s"
    using c by (auto simp: cleared_def t_def work_def)
  have "sender_inv v bs data t"
    using assms(5) by (simp add: sender_inv_def sp mid cl) (simp add: t_def)
  moreover have "receiver_inv bs data t"
    using assms(6) by (simp add: receiver_inv_def rp) (auto simp: t_def)
  ultimately show ?thesis by blast
qed

lemma receiver_inv_cong:
  "db_left t 1 = db_left s 1 \<Longrightarrow> pos t 1 = pos s 1 \<Longrightarrow> seen t = seen s \<Longrightarrow>
   received t = received s \<Longrightarrow> bytes_received t = bytes_received s \<Longrightarrow> r_len t = r_len s \<Longrightarrow>
   receiver_inv bs data t = receiver_inv bs data s"
  by (simp add: receiver_inv_def r_copied_def r_passes_def)

lemma access_keeps:
  assumes "ctrl_inv v n s" and "sync_ok 2 (db_entered s, db_left s)"
    and "sender_inv v bs data s" and "receiver_inv bs data s"
    and "p < 2" and "db_entered s p = db_left s p" and "pos s p < work v n p (db_left s p)"
  shows "\<exists>s'. db_access v (length data) bs data p s = Val s'
     \<and> sender_inv v bs data (s'\<lparr>pos := (pos s)(p := Suc (pos s p))\<rparr>)
     \<and> receiver_inv bs data (s'\<lparr>pos := (pos s)(p := Suc (pos s p))\<rparr>)"
proof -
  consider (clear) "db_left s p = 0" | (send) "p = 0" "0 < db_left s p" | (recv) "p = 1" "0 < db_left s p"
    using assms(5) by (auto simp: less_2)
  then show ?thesis
  proof cases
    case clear
    note acc = clear_access [OF assms(5) clear assms(7), of "length data" bs data]
    have k: "db_left s 0 < 2" "db_left s 1 < 2"
      using counters [OF assms(2)] clear assms(5,6) by (auto simp: less_2)
    let ?t = "s\<lparr>region := zero_buffer (2 * bs), pos := (pos s)(p := Suc (pos s p))\<rparr>"
    have z: "s_passes ?t = 0" "s_passes s = 0" "\<not> s_mid ?t" "r_copied ?t = 0" "r_copied s = 0"
        "r_passes ?t = 0" "r_passes s = 0"
      using k by (simp_all add: s_passes_def r_passes_def r_copied_def passes_def s_mid_def)
    have "sender_inv v bs data ?t"
      using assms(3) region_ok_zero [of bs data] z by (simp add: sender_inv_def)
    moreover have "receiver_inv bs data ?t"
      using assms(4) z k by (simp add: receiver_inv_def)
    ultimately show ?thesis
      using conjunct2 [OF conjunct2 [OF acc]]
      by (intro exI [of _ "s\<lparr>region := zero_buffer (2 * bs)\<rparr>"]) simp
  next
    case send
    have s0: "0 < db_left s 0" "pos s 0 < work v n 0 (db_left s 0)" using send assms(7) by simp_all
    from sender_access [OF assms(2,3,1) s0]
    obtain b' where b': "db_access v (length data) bs data 0 s =
        Val (if pos s 0 = 0 then s\<lparr>region := b'\<rparr>
             else s\<lparr>region := b', bytes_sent := min (length data) (Suc (s_passes s) * bs)\<rparr>)"
      "region_ok bs data (s_passes s + of_bool (pos s 0 = 1)) (pos s 0 = 0) b'" by blast
    have k: "2 \<le> db_left s 0" "pos s 0 < 2"
      using send assms(7) by (auto simp: work_def split: if_splits)
    let ?s' = "if pos s 0 = 0 then s\<lparr>region := b'\<rparr>
        else s\<lparr>region := b', bytes_sent := min (length data) (Suc (s_passes s) * bs)\<rparr>"
    let ?t = "?s'\<lparr>pos := (pos s)(0 := Suc (pos s 0))\<rparr>"
    have "receiver_inv bs data ?t"
      using assms(4) by (subst receiver_inv_cong [of _ s]) simp_all
    moreover have "s_passes ?t = s_passes s + of_bool (pos s 0 = 1)" "s_mid ?t = (pos s 0 = 0)"
      using k by (auto simp: s_passes_def s_mid_def passes_def)
    then have "sender_inv v bs data ?t"
      using assms(3) b'(2) k(2) unfolding sender_inv_def by auto
    ultimately show ?thesis using b'(1) send(1) by (intro exI [of _ ?s']) simp
  next
    case recv
    have s1: "db_entered s 1 = db_left s 1" "0 < db_left s 1" "pos s 1 < work v n 1 (db_left s 1)"
      using recv assms(6,7) by simp_all
    from receiver_access [OF assms(2,3,1,4) s1]
    obtain s' where s': "db_access v (length data) bs data 1 s = Val s'" "region s' = region s"
        "bytes_sent s' = bytes_sent s"
        "receiver_inv bs data (s'\<lparr>pos := (pos s)(1 := Suc (pos s 1))\<rparr>)" by blast
    have "2 \<le> db_left s 1" using recv assms(7) by (auto simp: work_def split: if_splits)
    then have cl: "cleared v s" using cleared_later [OF assms(2), of 1] by simp
    let ?t = "s'\<lparr>pos := (pos s)(1 := Suc (pos s 1))\<rparr>"
    have "s_passes ?t = s_passes s" "s_mid ?t = s_mid s"
      using db_access_frame [OF s'(1)] by (simp_all add: s_passes_def s_mid_def)
    then have "sender_inv v bs data ?t"
      using assms(3) cl s'(2,3) by (simp add: sender_inv_def)
    then show ?thesis using s'(1,4) recv by auto
  qed
qed

definition db_inv :: "variant \<Rightarrow> nat \<Rightarrow> nat \<Rightarrow> byte list \<Rightarrow> dsys \<Rightarrow> bool" where
  "db_inv v n bs data s \<longleftrightarrow> ctrl_inv v n s \<and> sync_ok 2 (db_entered s, db_left s)
     \<and> sender_inv v bs data s \<and> receiver_inv bs data s"

lemma db_inv_step:
  assumes "db_step v n (length data) bs data s t" and "db_inv v n bs data s"
    and "sync_ok 2 (db_entered t, db_left t)"
  shows "db_inv v n bs data t"
proof -
  have ctrl: "ctrl_inv v n t"
    using ctrl_inv_step [OF assms(1)] assms(2) by (simp add: db_inv_def)
  have inv: "ctrl_inv v n s" "sync_ok 2 (db_entered s, db_left s)" "sender_inv v bs data s"
      "receiver_inv bs data s"
    using assms(2) by (simp_all add: db_inv_def)
  from assms(1) have "sender_inv v bs data t \<and> receiver_inv bs data t"
  proof cases
    case (access p s')
    then show ?thesis using access_keeps [OF inv access(2-4)] by auto
  next
    case (enter p)
    then show ?thesis using inv by (simp add: enter_keeps)
  next
    case (leave p)
    then show ?thesis using leave_keeps [OF inv(1) leave(2,3) inv(2-4)] by simp
  qed
  then show ?thesis using ctrl assms(3) by (simp add: db_inv_def)
qed

lemma db_inv_reachable:
  "db_reachable v n (length data) bs data g s \<Longrightarrow> db_inv v n bs data s"
  unfolding db_reachable_def
proof (induction rule: rtranclp_induct)
  case base
  show ?case
    using ctrl_inv_reachable [of v n "length data" bs data g "db_init (length data) g"]
      db_sync_reachable [of v n "length data" bs data g "db_init (length data) g"]
    by (simp add: db_inv_def db_reachable_def)
      (simp add: sender_inv_def receiver_inv_def db_init_def s_passes_def r_passes_def r_copied_def
        passes_def cleared_def)
next
  case (step s t)
  have "db_reachable v n (length data) bs data g t"
    unfolding db_reachable_def using step.hyps by (rule rtranclp.rtrancl_into_rtrancl)
  from db_inv_step [OF step.hyps(2) step.IH db_sync_reachable [OF this]] show ?case .
qed

section \<open>Accesses of the same moment commute\<close>

lemma send_copy_keeps_other:
  assumes "send_copy ds bs data i sent b = Val b'" and "length (slot_data b) = 2 * bs" and "r \<le> bs"
  shows "recv_slot bs i r b' = recv_slot bs i r b" and "recv_size i b' = recv_size i b"
proof -
  obtain d where d: "copy_into (slot_data b) (i mod 2 * bs)
      (take (size_to_send ds bs sent) (drop sent data)) = Val d" "b' = b\<lparr>slot_data := d\<rparr>"
    using assms(1) by (auto simp: send_copy_def obind_Val_iff)
  let ?j = "(i + 1) mod 2"
  let ?ys = "take r (drop (?j * bs) (slot_data b))"
  have len: "length d = 2 * bs" using copy_into_Val_length [OF d(1)] assms(2) by simp
  have ys: "length ?ys = r" using assms(2,3) by (cases "i mod 2 = 0") (auto simp: mod_2_eq_odd)
  have "take (length ?ys) (drop (?j * bs) d) = ?ys"
    by (rule other_slot_kept [OF d(1)])
      (use assms(2,3) ys in \<open>auto simp: size_to_send_def mod_2_eq_odd\<close>)
  then have "take r (drop (?j * bs) d) = ?ys" unfolding ys .
  then show "recv_slot bs i r b' = recv_slot bs i r b"
    using assms(2) len d(2) by (simp add: recv_slot_def Let_def)
  show "recv_size i b' = recv_size i b" using d(2) by (simp add: recv_size_def)
qed

lemma send_size_keeps_other:
  "recv_size i (send_size ds bs i sent b) = recv_size i b"
  "recv_slot bs i r (send_size ds bs i sent b) = recv_slot bs i r b"
proof -
  have "i mod 2 \<noteq> (i + 1) mod 2" by presburger
  then show "recv_size i (send_size ds bs i sent b) = recv_size i b"
    by (simp add: recv_size_def send_size_def)
  show "recv_slot bs i r (send_size ds bs i sent b) = recv_slot bs i r b"
    by (simp add: recv_slot_def send_size_def Let_def split: if_split)
qed

lemma receiver_access_elsewhere:
  assumes "0 < db_left s 1" and "recv_size (db_left s 1 - 2) b = recv_size (db_left s 1 - 2) (region s)"
    and "pos s 1 = 1 \<Longrightarrow>
      recv_slot bs (db_left s 1 - 2) (r_len s) b = recv_slot bs (db_left s 1 - 2) (r_len s) (region s)"
  shows "db_access v ds bs data 1 (s\<lparr>region := b, bytes_sent := m\<rparr>) =
    obind (db_access v ds bs data 1 s) (\<lambda>t. Val (t\<lparr>region := b, bytes_sent := m\<rparr>))"
  using assms by (cases s) (auto simp: db_access_def Let_def obind_assoc)

lemma accesses_commute:
  assumes "db_left s 0 = k" and "db_left s 1 = k" and "0 < k"
    and "length (slot_data (region s)) = 2 * bs" and "pos s 1 = 1 \<Longrightarrow> r_len s \<le> bs"
    and "db_access v ds bs data 0 s = Val t" and "db_access v ds bs data 1 s = Val u"
  shows "db_access v ds bs data 1 t = db_access v ds bs data 0 u"
proof -
  have u: "region u = region s" "bytes_sent u = bytes_sent s" "db_left u = db_left s" "pos u = pos s"
    using assms(2,3,7) by (auto simp: db_access_def Let_def obind_Val_iff split: if_splits)
  show ?thesis
  proof (cases "pos s 0 = 0")
    case True
    then obtain b where b: "send_copy ds bs data (k - 2) (bytes_sent s) (region s) = Val b"
        "t = s\<lparr>region := b\<rparr>"
      using assms(1,3,6) True by (auto simp: db_access_def Let_def obind_Val_iff)
    note keep = send_copy_keeps_other [OF b(1) assms(4)]
    have "db_access v ds bs data 1 (s\<lparr>region := b, bytes_sent := bytes_sent s\<rparr>) =
        Val (u\<lparr>region := b, bytes_sent := bytes_sent s\<rparr>)"
      by (subst receiver_access_elsewhere) (use keep assms(2,3,5,7) in auto)
    moreover have "db_access v ds bs data 0 u = Val (u\<lparr>region := b\<rparr>)"
      using True b(1) u assms(1,3) by (simp add: db_access_def Let_def)
    ultimately show ?thesis using b(2) u(2) by simp
  next
    case False
    let ?b = "send_size ds bs (k - 2) (bytes_sent s) (region s)"
    let ?m = "bytes_sent s + size_to_send ds bs (bytes_sent s)"
    have t: "t = s\<lparr>region := ?b, bytes_sent := ?m\<rparr>"
      using False assms(1,3,6) by (simp add: db_access_def Let_def)
    have "db_access v ds bs data 0 u = Val (u\<lparr>region := ?b, bytes_sent := ?m\<rparr>)"
      using False u assms(1,3) by (simp add: db_access_def Let_def)
    moreover have "db_access v ds bs data 1 t = Val (u\<lparr>region := ?b, bytes_sent := ?m\<rparr>)"
      using receiver_access_elsewhere [of s ?b bs v ds data ?m] assms(2,3,7)
      by (simp add: t send_size_keeps_other)
    ultimately show ?thesis by simp
  qed
qed

section \<open>Progress\<close>

lemma db_progress:
  assumes "db_inv v n bs data s" and "\<not> db_final n s"
  shows "\<exists>t. db_step v n (length data) bs data s t"
proof -
  have inv: "ctrl_inv v n s" "sync_ok 2 (db_entered s, db_left s)" "sender_inv v bs data s"
      "receiver_inv bs data s"
    using assms(1) by (simp_all add: db_inv_def)
  have e: "db_left s p \<le> db_entered s p" "db_entered s p \<le> Suc (db_left s p)"
      "db_entered s p \<le> n + 2" "pos s p \<le> work v n p (db_left s p)" if "p < 2" for p
    using inv(1) that by (auto simp: ctrl_inv_def)
  show ?thesis
  proof (cases "\<exists>p<2. db_entered s p = db_left s p \<and> db_left s p < n + 2")
    case True
    then obtain p where p: "p < 2" "db_entered s p = db_left s p" "db_left s p < n + 2" by blast
    show ?thesis
    proof (cases "pos s p < work v n p (db_left s p)")
      case True
      then show ?thesis using access_keeps [OF inv p(1,2) True] p db_step.access by blast
    next
      case False
      then have "pos s p = work v n p (db_left s p)" using e(4) [OF p(1)] by simp
      then show ?thesis using p db_step.enter by blast
    qed
  next
    case False
    then have all: "db_entered s p = Suc (db_left s p) \<or> db_left s p = n + 2 \<and> db_entered s p = n + 2"
      if "p < 2" for p
      using e [OF that] that by fastforce
    obtain p where p: "p < 2" "\<forall>q<2. db_entered s p \<le> db_entered s q"
      by (metis less_2 nat_le_linear one_less_numeral_iff semiring_norm(76) zero_less_numeral)
    show ?thesis
    proof (cases "db_entered s p = Suc (db_left s p)")
      case True
      then show ?thesis using p db_step.leave by blast
    next
      case stuck: False
      then have "db_entered s p = n + 2" using all [OF p(1)] by simp
      then have ent: "db_entered s q = n + 2" if "q < 2" for q
        using p(2) e(3) [OF that] that by (metis le_antisym)
      obtain q where q: "q < 2" "db_left s q \<noteq> n + 2"
        using assms(2) unfolding db_final_def by (metis less_2)
      then have "db_entered s q = Suc (db_left s q)" using all by blast
      then show ?thesis using q(1) ent db_step.leave [of q s] by (metis le_refl)
    qed
  qed
qed

text \<open>Every step advances a bounded counter.\<close>

definition proc_rank :: "dsys \<Rightarrow> nat \<Rightarrow> nat" where
  "proc_rank s p = 5 * db_left s p + pos s p + (db_entered s p - db_left s p)"

definition db_rank :: "dsys \<Rightarrow> nat" where
  "db_rank s = proc_rank s 0 + proc_rank s 1"

lemma work_le: "work v n p k \<le> 3"
  by (simp add: work_def)

lemma db_rank_step:
  assumes "db_step v n ds bs data s t" and "ctrl_inv v n s"
  shows "db_rank s < db_rank t"
  using assms(1)
proof cases
  case (access p s')
  then have "proc_rank t p = Suc (proc_rank s p)" "q \<noteq> p \<Longrightarrow> proc_rank t q = proc_rank s q" for q
    using db_access_frame [OF access(5)] by (auto simp: proc_rank_def)
  then show ?thesis using access(2) by (auto simp: db_rank_def less_2)
next
  case (enter p)
  then have "proc_rank t p = Suc (proc_rank s p)" "q \<noteq> p \<Longrightarrow> proc_rank t q = proc_rank s q" for q
    by (auto simp: proc_rank_def)
  then show ?thesis using enter(2) by (auto simp: db_rank_def less_2)
next
  case (leave p)
  have "pos s p \<le> 3" using assms(2) leave(2) work_le le_trans by (fastforce simp: ctrl_inv_def)
  then have "proc_rank s p < proc_rank t p" "q \<noteq> p \<Longrightarrow> proc_rank t q = proc_rank s q" for q
    using leave by (auto simp: proc_rank_def)
  then show ?thesis using leave(2) by (auto simp: db_rank_def less_2)
qed

lemma db_rank_bound:
  assumes "ctrl_inv v n s"
  shows "db_rank s \<le> 10 * (n + 2)"
proof -
  have "proc_rank s p \<le> 5 * (n + 2)" if "p < 2" for p
  proof -
    have c: "db_left s p \<le> db_entered s p" "db_entered s p \<le> Suc (db_left s p)"
        "db_entered s p \<le> n + 2" "pos s p \<le> work v n p (db_left s p)"
      using assms that by (auto simp: ctrl_inv_def)
    show ?thesis
    proof (cases "db_left s p = n + 2")
      case True
      then show ?thesis using c by (simp add: proc_rank_def work_def)
    next
      case False
      then show ?thesis using c work_le [of v n p "db_left s p"] by (simp add: proc_rank_def)
    qed
  qed
  from this [of 0] this [of 1] show ?thesis by (simp add: db_rank_def)
qed

interpretation db_round: bounded_progress "db_init (length data) g" "db_step v n (length data) bs data"
    "db_reachable v n (length data) bs data g" db_rank "10 * (n + 2)" "db_final n"
  for v n bs data g
proof
  show "db_reachable v n (length data) bs data g (db_init (length data) g)"
    by (simp add: db_reachable_def)
next
  fix s t
  assume s: "db_reachable v n (length data) bs data g s"
  show "db_rank s \<le> 10 * (n + 2)" by (rule db_rank_bound [OF ctrl_inv_reachable [OF s]])
  show "\<exists>t. db_step v n (length data) bs data s t" if "\<not> db_final n s"
    by (rule db_progress [OF db_inv_reachable [OF s] that])
  assume t: "db_step v n (length data) bs data s t"
  show "db_reachable v n (length data) bs data g t"
    using s t unfolding db_reachable_def by (rule rtranclp.rtrancl_into_rtrancl)
  show "db_rank s < db_rank t" by (rule db_rank_step [OF t ctrl_inv_reachable [OF s]])
qed

lemma db_final_seen:
  assumes "db_reachable v n (length data) bs data g s" and "db_final n s"
  shows "seen s = map (piece bs data) [0..<n]"
proof -
  have inv: "ctrl_inv v n s" "receiver_inv bs data s"
    using db_inv_reachable [OF assms(1)] by (simp_all add: db_inv_def)
  have "pos s 1 \<le> work v n 1 (db_left s 1)" using inv(1) by (simp add: ctrl_inv_def)
  then have "r_copied s = n"
    using assms(2) by (simp add: r_copied_def passes_def db_final_def work_def)
  then show ?thesis using inv(2) by (simp add: receiver_inv_def)
qed

section \<open>Executing a schedule\<close>

text \<open>Lets process \<open>p\<close> do its next access, enter the barrier or leave it.\<close>

definition db_move :: "variant \<Rightarrow> nat \<Rightarrow> nat \<Rightarrow> nat \<Rightarrow> byte list \<Rightarrow> dsys \<Rightarrow> nat \<Rightarrow> dsys option" where
  "db_move v n ds bs data s p =
     (if \<not> p < 2 then None
      else if db_entered s p = db_left s p then
        (if pos s p < work v n p (db_left s p) then
           (case db_access v ds bs data p s of
              Val s' \<Rightarrow> Some (s'\<lparr>pos := (pos s)(p := Suc (pos s p))\<rparr>)
            | _ \<Rightarrow> None)
         else if pos s p = work v n p (db_left s p) \<and> db_left s p < n + 2
         then Some (s\<lparr>db_entered := (db_entered s)(p := Suc (db_entered s p))\<rparr>)
         else None)
      else if db_entered s p = Suc (db_left s p) \<and> db_entered s p \<le> db_entered s 0
              \<and> db_entered s p \<le> db_entered s 1
      then Some (s\<lparr>db_left := (db_left s)(p := Suc (db_left s p)), pos := (pos s)(p := 0)\<rparr>)
      else None)"

fun db_schedule :: "variant \<Rightarrow> nat \<Rightarrow> nat \<Rightarrow> nat \<Rightarrow> byte list \<Rightarrow> nat list \<Rightarrow> dsys \<Rightarrow> dsys option" where
  "db_schedule v n ds bs data [] s = Some s"
| "db_schedule v n ds bs data (p # ps) s =
     (case db_move v n ds bs data s p of
        Some s' \<Rightarrow> db_schedule v n ds bs data ps s'
      | None \<Rightarrow> None)"

lemma db_move_step:
  assumes m: "db_move v n ds bs data s p = Some t"
  shows "db_step v n ds bs data s t"
proof -
  have p: "p < 2" using m by (auto simp: db_move_def split: if_splits)
  show ?thesis
  proof (cases "db_entered s p = db_left s p")
    case e: True
    show ?thesis
    proof (cases "pos s p < work v n p (db_left s p)")
      case True
      obtain s' where "db_access v ds bs data p s = Val s'"
          "t = s'\<lparr>pos := (pos s)(p := Suc (pos s p))\<rparr>"
        using m p e True by (auto simp: db_move_def split: outcome.splits)
      then show ?thesis using db_step.access [OF p e True] by simp
    next
      case False
      then have c: "pos s p = work v n p (db_left s p)" "db_left s p < n + 2"
          "t = s\<lparr>db_entered := (db_entered s)(p := Suc (db_entered s p))\<rparr>"
        using m p e by (auto simp: db_move_def split: if_splits)
      then show ?thesis using db_step.enter [OF p e c(1,2)] by simp
    qed
  next
    case False
    then have c: "db_entered s p = Suc (db_left s p)" "\<forall>q<2. db_entered s p \<le> db_entered s q"
        "t = s\<lparr>db_left := (db_left s)(p := Suc (db_left s p)), pos := (pos s)(p := 0)\<rparr>"
      using m p by (auto simp: db_move_def less_2 split: if_splits)
    then show ?thesis using db_step.leave [OF p c(1,2)] by simp
  qed
qed

lemma db_schedule_reachable:
  "db_schedule v n ds bs data ps (db_init ds g) = Some t \<Longrightarrow> db_reachable v n ds bs data g t"
proof -
  have "rtranclp (db_step v n ds bs data) s t" if "db_schedule v n ds bs data ps s = Some t" for s
    using that
  proof (induction ps arbitrary: s)
    case (Cons p ps)
    then obtain s' where "db_move v n ds bs data s p = Some s'" "db_schedule v n ds bs data ps s' = Some t"
      by (auto split: option.splits)
    then show ?case using Cons.IH db_move_step by (meson converse_rtranclp_into_rtranclp)
  qed simp
  then show "db_schedule v n ds bs data ps (db_init ds g) = Some t \<Longrightarrow> db_reachable v n ds bs data g t"
    by (simp add: db_reachable_def)
qed

text \<open>One process after the other in every segment.\<close>

definition db_lockstep :: "variant \<Rightarrow> nat \<Rightarrow> nat list" where
  "db_lockstep v n =
     concat (map (\<lambda>k. replicate (Suc (work v n 0 k)) 0 @ replicate (Suc (work v n 1 k)) 1 @ [0, 1])
                 [0..<n + 2])"

definition db_sample_data :: "byte list" where
  "db_sample_data = [7, 8, 9]"

lemma length_db_sample_data [simp]: "length db_sample_data = 3"
  by (simp add: db_sample_data_def)

definition db_sample :: "variant \<Rightarrow> nat \<Rightarrow> dsys" where
  "db_sample v m =
     (case db_schedule v 3 3 2 db_sample_data (take m (db_lockstep v 3)) (db_init 3 (zero_buffer 0)) of
        Some s \<Rightarrow> s
      | None \<Rightarrow> db_init 3 (zero_buffer 0))"

lemma db_sample_reachable: "db_reachable v 3 3 2 db_sample_data (zero_buffer 0) (db_sample v m)"
  using db_schedule_reachable [of v 3 3 2 db_sample_data "take m (db_lockstep v 3)" "zero_buffer 0"]
  by (auto simp: db_sample_def db_reachable_def split: option.split)

section \<open>Properties of the double buffer\<close>

text \<open>
  C8 (functional). The double buffer transfers the payload: in every interleaving of the two
  processes that reaches the end of a round, whatever the region held before, the receiver's vector is
  exactly the sender's data, and the pieces it copied in the \<open>n\<close> passes concatenate to it, provided
  that the \<open>n - 1\<close> passes that carry data have room for all of it.
\<close>

theorem double_buffer_transfers:
  assumes "db_reachable v n (length data) bs data g s" and "db_final n s"
    and "length data \<le> (n - 1) * bs"
  shows "received s = data \<and> bytes_received s = length data \<and> bytes_sent s = length data
    \<and> length (seen s) = n \<and> concat (seen s) = data"
proof -
  have inv: "ctrl_inv v n s" "sender_inv v bs data s" "receiver_inv bs data s"
    using db_inv_reachable [OF assms(1)] by (simp_all add: db_inv_def)
  have "pos s p \<le> work v n p (db_left s p)" if "p < 2" for p
    using inv(1) that by (simp add: ctrl_inv_def)
  from this [of 0] this [of 1] have p: "pos s 0 = 0" "pos s 1 = 0"
    using assms(2) by (simp_all add: db_final_def work_def)
  then have c: "r_copied s = n" "r_passes s = n" "s_passes s = n"
    using assms(2) by (simp_all add: r_copied_def r_passes_def s_passes_def passes_def db_final_def)
  have all: "concat (map (piece bs data) [0..<n]) = data"
    using assms(3) by (simp add: concat_pieces)
  have "(n - 1) * bs \<le> n * bs" by simp
  then have "length data \<le> n * bs" using assms(3) by (rule le_trans [rotated])
  moreover have "received s = data"
  proof -
    have "take (length (concat (seen s))) (received s) = concat (seen s)"
        and len: "length (received s) = length data" and seen: "seen s = map (piece bs data) [0..<n]"
      using inv(3) unfolding receiver_inv_def c(1) by blast+
    then have "take (length data) (received s) = data" unfolding seen all by blast
    then show ?thesis unfolding len [symmetric] by simp
  qed
  ultimately show ?thesis
    using inv(2,3) all c by (simp add: receiver_inv_def sender_inv_def)
qed

theorem double_buffer_transfers_witness:
  "received (db_sample Shm 100) = db_sample_data \<and> seen (db_sample Mmap 100) = [[], [7, 8], [9]]"
proof -
  have f: "db_final 3 (db_sample Shm 100)" by code_simp
  have "received (db_sample Shm 100) = db_sample_data"
    using double_buffer_transfers [of Shm 3 db_sample_data 2 "zero_buffer 0" "db_sample Shm 100"]
      db_sample_reachable [of Shm 100] f by simp
  moreover have "seen (db_sample Mmap 100) = [[], [7, 8], [9]]" by code_simp
  ultimately show ?thesis by simp
qed

text \<open>
  C9 (safety). No access of a round is undefined or out of bounds, and there is no data race: when
  both processes are at work in the same moment, they are in the same pass of the pipeline (nobody
  is at work while the region is cleared), and their accesses do not interfere, since both orders
  give the same state.
\<close>

theorem double_buffer_race_free:
  assumes "db_reachable v n (length data) bs data g s"
    and "p < 2" and "db_entered s p = db_left s p" and "pos s p < work v n p (db_left s p)"
  shows "(\<exists>s'. db_access v (length data) bs data p s = Val s')
    \<and> (db_entered s (1 - p) = db_left s (1 - p) \<and> pos s (1 - p) < work v n (1 - p) (db_left s (1 - p)) \<longrightarrow>
         2 \<le> db_left s p \<and> db_left s (1 - p) = db_left s p
         \<and> obind (db_access v (length data) bs data 0 s) (db_access v (length data) bs data 1) =
           obind (db_access v (length data) bs data 1 s) (db_access v (length data) bs data 0))"
proof -
  have inv: "ctrl_inv v n s" "sync_ok 2 (db_entered s, db_left s)" "sender_inv v bs data s"
      "receiver_inv bs data s"
    using db_inv_reachable [OF assms(1)] by (simp_all add: db_inv_def)
  have ok: "\<exists>s'. db_access v (length data) bs data q s = Val s'"
    if "q < 2" "db_entered s q = db_left s q" "pos s q < work v n q (db_left s q)" for q
    using access_keeps [OF inv that] by blast
  moreover have "2 \<le> db_left s p \<and> db_left s (1 - p) = db_left s p
      \<and> obind (db_access v (length data) bs data 0 s) (db_access v (length data) bs data 1) =
        obind (db_access v (length data) bs data 1 s) (db_access v (length data) bs data 0)"
    if q: "db_entered s (1 - p) = db_left s (1 - p)" "pos s (1 - p) < work v n (1 - p) (db_left s (1 - p))"
  proof -
    have eq: "db_left s (1 - p) = db_left s p"
      by (rule db_sync.same_phase [OF assms(1) [unfolded db_reachable_def]]) (use assms(2,3) q in auto)
    have "db_left s p \<noteq> 0"
      using assms(2,4) q(2) eq by (auto simp: work_def less_2 split: if_splits)
    then have k: "2 \<le> db_left s p" using assms(4) by (auto simp: work_def split: if_splits)
    have both: "db_left s 0 = db_left s p" "db_left s 1 = db_left s p"
      using eq assms(2) by (auto simp: less_2)
    have "region_ok bs data (s_passes s) (s_mid s) (region s)"
      using inv(3) k both by (cases v) (simp_all add: sender_inv_def cleared_def)
    then have len: "length (slot_data (region s)) = 2 * bs" by (simp add: region_ok_def)
    have r: "r_len s \<le> bs" if "pos s 1 = 1"
      using inv(4) that k both length_piece_le by (simp add: receiver_inv_def)
    obtain t u where t: "db_access v (length data) bs data 0 s = Val t"
      and u: "db_access v (length data) bs data 1 s = Val u"
      using ok [OF assms(2-4)] ok [OF _ q] assms(2) by (auto simp: less_2)
    have "0 < db_left s p" using k by simp
    from accesses_commute [OF both this len r t u] show ?thesis using t u k eq by simp
  qed
  ultimately show ?thesis using assms(2-4) by blast
qed

theorem double_buffer_race_free_witness:
  "obind (db_access Mmap 3 2 db_sample_data 0 (db_sample Mmap 9)) (db_access Mmap 3 2 db_sample_data 1) =
   obind (db_access Mmap 3 2 db_sample_data 1 (db_sample Mmap 9)) (db_access Mmap 3 2 db_sample_data 0)
   \<and> slot_data (region (db_sample Mmap 10)) = [7, 8, 0, 0]"
proof -
  have c: "db_entered (db_sample Mmap 9) 0 = db_left (db_sample Mmap 9) 0"
      "pos (db_sample Mmap 9) 0 < work Mmap 3 0 (db_left (db_sample Mmap 9) 0)"
      "db_entered (db_sample Mmap 9) 1 = db_left (db_sample Mmap 9) 1"
      "pos (db_sample Mmap 9) 1 < work Mmap 3 1 (db_left (db_sample Mmap 9) 1)"
      "slot_data (region (db_sample Mmap 10)) = [7, 8, 0, 0]" "length db_sample_data = 3"
    by code_simp+
  show ?thesis
    using double_buffer_race_free [of Mmap 3 db_sample_data 2 "zero_buffer 0" "db_sample Mmap 9" 0]
      db_sample_reachable [of Mmap 9] c by simp
qed

text \<open>
  C10 (termination). A round always ends: the two processes never wait for each other in a circle
  (some step is possible until both have made all \<open>n + 2\<close> barrier calls of the round), and no
  interleaving takes more than \<open>10 (n + 2)\<close> steps.
\<close>

theorem double_buffer_terminates:
  assumes "(db_step v n (length data) bs data ^^ m) (db_init (length data) g) s"
  shows "m \<le> 10 * (n + 2) \<and> (db_final n s \<or> (\<exists>t. db_step v n (length data) bs data s t))"
  using db_round.run_bounded [OF assms] db_round.enabled [OF db_round.run_rank [OF assms, THEN conjunct1]]
  by blast

theorem double_buffer_terminates_witness:
  "\<exists>t. db_step Mmap 3 3 2 db_sample_data (db_init 3 (zero_buffer 0)) t"
  using double_buffer_terminates [of 0 Mmap 3 db_sample_data 2 "zero_buffer 0" "db_init 3 (zero_buffer 0)"]
  by (simp add: db_final_def db_init_def)

end
