(* ===== verification/Mapped_Rounds.thy ===== *)
theory Mapped_Rounds
  imports Double_Buffer
begin

text \<open>
  The pipeline loops of the two processes that share a mapped region, each seen from its own
  process: the sender with the region as it alone writes it, the receiver with the bytes it finds
  in each pass, which are recorded. \<open>Double_Buffer\<close> shows what the receiver finds in any
  interleaving; here the loops are put into the rounds of the benchmark.
\<close>

section \<open>The pipeline\<close>

fun pipeline :: "(nat \<Rightarrow> 's \<Rightarrow> 's act) \<Rightarrow> nat \<Rightarrow> nat \<Rightarrow> 's \<Rightarrow> 's act" where
  "pipeline body i 0 s = ret s"
| "pipeline body i (Suc k) s = abind (body i s) (pipeline body (Suc i) k)"

text \<open>The state of the sender: the region and \<^verbatim>\<open>bytes_sent\<close>.\<close>

definition send_pass ::
  "nat \<Rightarrow> nat \<Rightarrow> byte list \<Rightarrow> nat \<Rightarrow> shared_buffer \<times> nat \<Rightarrow> (shared_buffer \<times> nat) act" where
  "send_pass data_size buffer_size data i s =
     andthen (emit BarrierWait)
       (abind (lift (send_copy data_size buffer_size data i (snd s) (fst s)))
         (\<lambda>buf. ret (send_size data_size buffer_size i (snd s) buf,
                     snd s + size_to_send data_size buffer_size (snd s))))"

text \<open>The state of the receiver: \<^verbatim>\<open>received_data\<close> and \<^verbatim>\<open>bytes_received\<close>.\<close>

definition recv_pass :: "byte list list \<Rightarrow> nat \<Rightarrow> byte list \<times> nat \<Rightarrow> (byte list \<times> nat) act" where
  "recv_pass looks i s =
     andthen (emit BarrierWait)
       (if i < length looks
        then abind (lift (copy_into (fst s) (snd s) (looks ! i)))
               (\<lambda>d. ret (d, snd s + length (looks ! i)))
        else ([], Blocked))"

section \<open>What the loops do\<close>

lemma send_pass_ok:
  assumes "length data = ds" and "region_ok bs data i False buf"
  shows "\<exists>buf'. send_pass ds bs data i (buf, min ds (i * bs)) =
      ([BarrierWait], Val (buf', min ds (Suc i * bs))) \<and> region_ok bs data (Suc i) False buf'"
proof -
  obtain b where b: "send_copy ds bs data i (min ds (i * bs)) buf = Val b" "region_ok bs data i True b"
    using send_copy_ok [OF assms] by blast
  have "min ds (i * bs) + size_to_send ds bs (min ds (i * bs)) = min ds (Suc i * bs)"
    by (auto simp: size_to_send_def min_def)
  then show ?thesis
    using b send_size_ok [OF assms(1) b(2)] by (simp add: send_pass_def ret_def)
qed

lemma send_pipeline:
  "length data = ds \<Longrightarrow> region_ok bs data i False buf \<Longrightarrow>
   \<exists>s. pipeline (send_pass ds bs data) i k (buf, min ds (i * bs)) = (replicate k BarrierWait, Val s)
     \<and> snd s = min ds ((i + k) * bs)"
proof (induction k arbitrary: i buf)
  case 0
  then show ?case by (simp add: ret_def)
next
  case (Suc k)
  obtain buf' where "send_pass ds bs data i (buf, min ds (i * bs)) =
      ([BarrierWait], Val (buf', min ds (Suc i * bs)))" "region_ok bs data (Suc i) False buf'"
    using send_pass_ok [OF Suc.prems] by blast
  then show ?case using Suc.IH [OF Suc.prems(1), of "Suc i" buf'] by (auto simp del: mult_Suc)
qed

lemma recv_pipeline:
  assumes "k + i = length looks"
    and "take m d = concat (take i looks)" and "m = length (concat (take i looks))"
    and "length (concat looks) \<le> length d"
  shows "\<exists>d'. pipeline (recv_pass looks) i k (d, m) =
      (replicate k BarrierWait, Val (d', length (concat looks)))
    \<and> length d' = length d \<and> take (length (concat looks)) d' = concat looks"
  using assms
proof (induction k arbitrary: i m d)
  case 0
  then show ?case by (simp add: ret_def)
next
  case (Suc k)
  let ?x = "looks ! i" and ?c = "concat (take i looks)"
  have i: "i < length looks" using Suc.prems(1) by simp
  have tk: "concat (take (Suc i) looks) = ?c @ ?x" using i by (simp add: take_Suc_conv_app_nth)
  have "concat looks = concat (take (Suc i) looks) @ concat (drop (Suc i) looks)"
    by (simp flip: concat_append)
  then have fit: "m + length ?x \<le> length d"
    using Suc.prems(3,4) tk by (metis length_append le_add1 le_trans)
  let ?d = "take m d @ ?x @ drop (m + length ?x) d"
  have cp: "copy_into d m ?x = Val ?d" using fit by (simp add: copy_into_def)
  have len: "length ?d = length d" using fit by simp
  have "\<exists>d'. pipeline (recv_pass looks) (Suc i) k (?d, m + length ?x) =
      (replicate k BarrierWait, Val (d', length (concat looks)))
    \<and> length d' = length ?d \<and> take (length (concat looks)) d' = concat looks"
  proof (rule Suc.IH)
    show "take (m + length ?x) ?d = concat (take (Suc i) looks)"
      using Suc.prems(2,3) tk by simp
  qed (use Suc.prems tk len in auto)
  moreover have "recv_pass looks i (d, m) = ([BarrierWait], Val (?d, m + length ?x))"
    using i cp by (simp add: recv_pass_def ret_def)
  ultimately show ?case using len by auto
qed

text \<open>\<^verbatim>\<open>n_pipeline\<close> without wrap-around: one pass more than there are chunks.\<close>

lemma n_pipeline_eq:
  assumes "0 < unat buffer_size" and "unat data_size + unat buffer_size \<le> 2 ^ 63"
    and "0 < unat data_size"
  shows "\<exists>n. n_pipeline data_size buffer_size = Val n
     \<and> unat n = Suc ((unat data_size + unat buffer_size - 1) div unat buffer_size)"
proof -
  let ?d = "unat data_size" and ?b = "unat buffer_size"
  have 1: "unat (data_size + buffer_size) = ?d + ?b"
    using assms(2) by (intro unat_add_lem [THEN iffD1]) simp
  have 2: "unat (data_size + buffer_size - 1) = ?d + ?b - 1"
    using 1 assms(1) by (subst unat_sub) (simp_all add: word_le_nat_alt)
  have 3: "unat ((data_size + buffer_size - 1) div buffer_size) = (?d + ?b - 1) div ?b"
    by (simp add: unat_div 2)
  have "(?d + ?b - 1) div ?b \<le> ?d + ?b - 1" by simp
  then have lt: "(?d + ?b - 1) div ?b < 2 ^ 63" using assms by linarith
  have "unat ((data_size + buffer_size - 1) div buffer_size + 1) = Suc ((?d + ?b - 1) div ?b)"
    using lt by (subst unat_add_lem [THEN iffD1]) (simp_all add: 3)
  moreover have "buffer_size \<noteq> 0" using assms(1) by auto
  ultimately show ?thesis by (simp add: n_pipeline_def)
qed

lemma chunks_cover:
  assumes "0 < b" shows "d \<le> (d + b - 1) div b * (b :: nat)"
proof -
  have "(d + b - 1) div b * b + (d + b - 1) mod b = d + b - 1" by simp
  moreover have "(d + b - 1) mod b < b" using assms by simp
  ultimately show ?thesis by linarith
qed

lemma region_size:
  assumes "unat buffer_size < 2 ^ 62"
  shows "unat (total_size buffer_size) - 16 = 2 * unat buffer_size"
proof -
  have 1: "unat (2 * buffer_size) = 2 * unat buffer_size"
    using assms by (subst unat_mult_lem [THEN iffD1]) simp_all
  have "unat (16 + 2 * buffer_size) = 16 + 2 * unat buffer_size"
    using assms 1 by (subst unat_add_lem [THEN iffD1]) simp_all
  then show ?thesis by (simp add: total_size_def header_size_def)
qed

section \<open>Rounds over a mapped region\<close>

text \<open>The sizes with which both loops and the region are free of wrap-around.\<close>

definition sizes_ok :: "u64 \<Rightarrow> u64 \<Rightarrow> bool" where
  "sizes_ok data_size buffer_size \<longleftrightarrow>
     0 < unat buffer_size \<and> unat data_size < 2 ^ 62 \<and> unat buffer_size < 2 ^ 62"

definition pass_count :: "u64 \<Rightarrow> u64 \<Rightarrow> nat" where
  "pass_count data_size buffer_size =
     Suc ((unat data_size + unat buffer_size - 1) div unat buffer_size)"

record map_send_round =
  send_fd :: int
  truncated :: int
  send_map :: int
  map_send_time :: dbl

record map_recv_round =
  recv_fd :: int
  prepared :: int
  recv_map :: int
  looks :: "byte list list"
  map_recv_time :: dbl

text \<open>What the receiver finds is what some interleaving of the two processes lets it find.\<close>

definition found :: "variant \<Rightarrow> u64 \<Rightarrow> u64 \<Rightarrow> byte list \<Rightarrow> byte list list \<Rightarrow> bool" where
  "found v data_size buffer_size data ls \<longleftrightarrow>
     (\<exists>g s. db_reachable v (pass_count data_size buffer_size) (length data) (unat buffer_size) data g s
          \<and> db_final (pass_count data_size buffer_size) s \<and> ls = seen s)"

lemma found_iff:
  "found v data_size buffer_size data ls \<longleftrightarrow>
     ls = map (piece (unat buffer_size) data) [0..<pass_count data_size buffer_size]"
proof
  let ?n = "pass_count data_size buffer_size"
  obtain t where "db_reachable v ?n (length data) (unat buffer_size) data (zero_buffer 0) t" "db_final ?n t"
    using db_round.finishes [OF db_round.init_ok] by blast
  then show "found v data_size buffer_size data ls"
    if "ls = map (piece (unat buffer_size) data) [0..<?n]"
    unfolding found_def using db_final_seen that by metis
qed (auto simp: found_def db_final_seen)

lemma found_pieces:
  assumes "found v data_size buffer_size data ls" and "sizes_ok data_size buffer_size"
    and "length data = unat data_size"
  shows "length ls = pass_count data_size buffer_size \<and> concat ls = data"
proof -
  have "length data \<le> (pass_count data_size buffer_size - 1) * unat buffer_size"
    using chunks_cover [of "unat buffer_size" "unat data_size"] assms(2,3)
    by (simp add: pass_count_def sizes_ok_def)
  then show ?thesis using assms(1) by (simp add: found_iff concat_pieces)
qed

lemma pass_count_eq:
  assumes "sizes_ok data_size buffer_size" and "0 < unat data_size"
  shows "\<exists>n. n_pipeline data_size buffer_size = Val n \<and> unat n = pass_count data_size buffer_size"
  unfolding pass_count_def
  by (rule n_pipeline_eq) (use assms in \<open>auto simp: sizes_ok_def\<close>)

lemma send_rounds:
  assumes "sizes_ok data_size buffer_size" and "length data = unat data_size" and "0 < unat data_size"
  shows "\<exists>n s. n_pipeline data_size buffer_size = Val n
     \<and> pipeline (send_pass (unat data_size) (unat buffer_size) data) 0 (unat n)
          (zero_buffer (unat (total_size buffer_size) - 16), 0) =
        (replicate (pass_count data_size buffer_size) BarrierWait, Val s)"
proof -
  have "unat buffer_size < 2 ^ 62" using assms(1) by (simp add: sizes_ok_def)
  then have z: "region_ok (unat buffer_size) data 0 False (zero_buffer (unat (total_size buffer_size) - 16))"
    using region_ok_zero region_size by simp
  show ?thesis
    using pass_count_eq [OF assms(1,3)]
      send_pipeline [OF assms(2) z, of "pass_count data_size buffer_size"] by auto
qed

lemma recv_rounds:
  assumes "sizes_ok data_size buffer_size" and "length data = unat data_size" and "0 < unat data_size"
    and "found v data_size buffer_size data ls"
  shows "\<exists>n. n_pipeline data_size buffer_size = Val n
     \<and> pipeline (recv_pass ls) 0 (unat n) (replicate (unat data_size) 0, 0) =
        (replicate (pass_count data_size buffer_size) BarrierWait, Val (data, unat data_size))"
proof -
  have ls: "length ls = pass_count data_size buffer_size" "concat ls = data"
    using found_pieces [OF assms(4,1,2)] by simp_all
  obtain d where d: "pipeline (recv_pass ls) 0 (pass_count data_size buffer_size)
        (replicate (unat data_size) 0, 0) =
      (replicate (pass_count data_size buffer_size) BarrierWait, Val (d, length (concat ls)))"
      "length d = unat data_size" "take (length (concat ls)) d = concat ls"
    using recv_pipeline [of "pass_count data_size buffer_size" 0 ls 0 "replicate (unat data_size) 0"]
      ls assms(2) by auto
  have "d = data" using d(2,3) ls(2) assms(2) by simp
  then show ?thesis using pass_count_eq [OF assms(1,3)] d(1) ls(2) assms(2) by auto
qed

text \<open>Barrier calls of a whole pipeline.\<close>

lemma barrier_trace_passes [simp]: "barrier_trace (replicate k BarrierWait) = replicate k BarrierWait"
  by (induction k) simp_all

lemma replicate_snoc: "replicate k x @ x # xs = x # replicate k x @ xs"
  by (induction k) simp_all

definition send_mapped :: "map_send_round \<Rightarrow> bool" where
  "send_mapped r \<longleftrightarrow> send_fd r \<noteq> -1 \<and> truncated r \<noteq> -1 \<and> send_map r \<noteq> -1"

definition recv_mapped :: "map_recv_round \<Rightarrow> bool" where
  "recv_mapped r \<longleftrightarrow> recv_fd r \<noteq> -1 \<and> prepared r \<noteq> -1 \<and> recv_map r \<noteq> -1"

section \<open>A concrete round\<close>

text \<open>129 bytes through slots of 100 bytes: three passes.\<close>

lemma sample_pass_count: "pass_count 129 100 = 3"
  by (simp add: pass_count_def)

lemma sample_sizes: "sizes_ok 129 100"
  by (simp add: sizes_ok_def)

definition sample_looks :: "byte list list" where
  "sample_looks = [[], replicate 100 0, replicate 29 0]"

lemma sample_found: "found v 129 100 sample_data sample_looks"
proof -
  have "map (piece 100 sample_data) [0..<3] = sample_looks" by code_simp
  then show ?thesis by (simp add: found_iff sample_pass_count)
qed

definition sample_map_srounds :: "map_send_round list" where
  "sample_map_srounds = replicate 2 \<lparr>send_fd = 4, truncated = 0, send_map = 5, map_send_time = Fin 2\<rparr>"

definition sample_map_rrounds :: "map_recv_round list" where
  "sample_map_rrounds = replicate 2
     \<lparr>recv_fd = 4, prepared = 0, recv_map = 5, looks = sample_looks, map_recv_time = Fin 3\<rparr>"

end
