(* ===== verification/Shm_Bandwidth.thy ===== *)
theory Shm_Bandwidth
  imports Mapped_Rounds
begin

text \<open>
  \<^verbatim>\<open>akbench/shm_bandwidth.cc\<close>: the payload goes through a POSIX shared memory object. In every
  round the receiver creates and clears it before the first barrier call and the sender maps it
  after that call; then come the second call, one call per pipeline pass and one at the end.

  The receiver clears the mapping before it checks that \<^verbatim>\<open>mmap\<close> succeeded, so a failed
  \<^verbatim>\<open>mmap\<close> is undefined behaviour and not a fatal log line.
\<close>

section \<open>The receiver\<close>

definition shm_receive_iteration ::
  "int \<Rightarrow> u64 \<Rightarrow> u64 \<Rightarrow> int \<Rightarrow> map_recv_round \<Rightarrow> dbl list \<Rightarrow> dbl list act" where
  "shm_receive_iteration num_warmups data_size buffer_size iteration r durations =
     (let is_warmup = iteration < num_warmups
      in andthen (sys_call ''shm_open'' (recv_fd r) ''receive: shm_open'')
        (andthen (sys_call ''ftruncate'' (prepared r) ''receive: ftruncate'')
        (andthen (emit (Call ''mmap''))
        (andthen (if recv_map r = -1 then lift (Undefined ''memset of MAP_FAILED'')
                  else emit (Call ''memset''))
        (andthen (emit BarrierWait)
          (let received_data = replicate (unat data_size) 0
           in andthen (emit BarrierWait)
             (abind (lift (n_pipeline data_size buffer_size)) (\<lambda>n.
              abind (pipeline (recv_pass (looks r)) 0 (unat n) (received_data, 0)) (\<lambda>s.
              andthen (emit BarrierWait)
                (let durations = record_duration is_warmup (map_recv_time r) durations
                 in andthen (verify_or_abort (fst s) (unat data_size))
                      (andthen (emit (Call ''munmap''))
                        (andthen (emit (Call ''close''))
                          (andthen (emit (Call ''shm_unlink'')) (ret durations))))))))))))))"

definition shm_ReceiveProcess ::
  "int \<Rightarrow> int \<Rightarrow> u64 \<Rightarrow> u64 \<Rightarrow> map_recv_round list \<Rightarrow> BenchmarkResult act" where
  "shm_ReceiveProcess num_warmups num_iterations data_size buffer_size rounds =
     andthen (emit BarrierNew)
       (abind (benchmark_loop (shm_receive_iteration num_warmups data_size buffer_size)
                 num_warmups num_iterations rounds []) (\<lambda>durations.
        abind (lift (CalculateBandwidth durations num_iterations (unat data_size))) (\<lambda>result.
        andthen (emit BarrierDelete) (ret result))))"

section \<open>The sender\<close>

text \<open>The sender finds the object cleared; nobody else writes to it in the round.\<close>

definition shm_send_iteration ::
  "int \<Rightarrow> u64 \<Rightarrow> u64 \<Rightarrow> byte list \<Rightarrow> int \<Rightarrow> map_send_round \<Rightarrow> dbl list \<Rightarrow> dbl list act" where
  "shm_send_iteration num_warmups data_size buffer_size data_to_send iteration r durations =
     (let is_warmup = iteration < num_warmups
      in andthen (emit BarrierWait)
        (andthen (sys_call ''shm_open'' (send_fd r) ''send: shm_open'')
        (andthen (sys_call ''mmap'' (send_map r) ''send: mmap'')
          (let shared_buffer = zero_buffer (unat (total_size buffer_size) - 16)
           in andthen (emit BarrierWait)
             (abind (lift (n_pipeline data_size buffer_size)) (\<lambda>n.
              abind (pipeline (send_pass (unat data_size) (unat buffer_size) data_to_send) 0 (unat n)
                       (shared_buffer, 0)) (\<lambda>_.
              andthen (emit BarrierWait)
                (let durations = record_duration is_warmup (map_send_time r) durations
                 in andthen (emit (Call ''munmap''))
                      (andthen (emit (Call ''close'')) (ret durations))))))))))"

definition shm_SendProcess ::
  "int \<Rightarrow> int \<Rightarrow> u64 \<Rightarrow> u64 \<Rightarrow> (nat \<Rightarrow> u64) \<Rightarrow> map_send_round list \<Rightarrow> unit act" where
  "shm_SendProcess num_warmups num_iterations data_size buffer_size draws rounds =
     andthen (emit BarrierNew)
       (abind (lift (GenerateDataToSend draws (unat data_size))) (\<lambda>data_to_send.
        abind (benchmark_loop (shm_send_iteration num_warmups data_size buffer_size data_to_send)
                 num_warmups num_iterations rounds []) (\<lambda>durations.
        abind (lift (CalculateBandwidth durations num_iterations (unat data_size))) (\<lambda>result.
        emit BarrierDelete))))"

section \<open>The benchmark\<close>

definition RunShmBandwidthBenchmark ::
  "int \<Rightarrow> int \<Rightarrow> u64 \<Rightarrow> u64 \<Rightarrow> int \<Rightarrow> (nat \<Rightarrow> u64) \<Rightarrow> map_send_round list
     \<Rightarrow> map_recv_round list \<Rightarrow> BenchmarkResult act" where
  "RunShmBandwidthBenchmark num_iterations num_warmups data_size buffer_size pid draws
      srounds rrounds =
     andthen (emit BarrierClear) (andthen (emit (Call ''shm_unlink''))
       (andthen (sys_call ''fork'' pid ''Fork failed'')
         (if pid = 0 then
            andthen (shm_SendProcess num_warmups num_iterations data_size buffer_size draws srounds)
              (lift (Exit 0))
          else
            abind (shm_ReceiveProcess num_warmups num_iterations data_size buffer_size rrounds)
              (\<lambda>result. andthen (emit (Call ''waitpid'')) (ret result)))))"

section \<open>Rounds\<close>

interpretation shm_sender: measured_rounds
  "shm_send_iteration W n b data"
  "\<lambda>r. send_mapped r \<and> sizes_ok n b \<and> length data = unat n \<and> 0 < unat n"
  "\<lambda>_. True" "\<lambda>ds. ds" map_send_time "pass_count n b + 3" W for W n b data
proof
  fix r :: map_send_round and ds i
  assume g: "send_mapped r \<and> sizes_ok n b \<and> length data = unat n \<and> 0 < unat n"
  then obtain np s where "n_pipeline n b = Val np"
      "pipeline (send_pass (unat n) (unat b) data) 0 (unat np)
         (zero_buffer (unat (total_size b) - 16), 0) = (replicate (pass_count n b) BarrierWait, Val s)"
    using send_rounds by blast
  then show "\<exists>s'. snd (shm_send_iteration W n b data i r ds) = Val s' \<and> True
       \<and> s' = (if i < W then ds else ds @ [map_send_time r])"
    and "barrier_trace (fst (shm_send_iteration W n b data i r ds)) =
       replicate (pass_count n b + 3) BarrierWait"
    using g by (simp_all add: shm_send_iteration_def record_duration_def send_mapped_def andthen_def
        replicate_snoc numeral_3_eq_3)
qed

interpretation shm_receiver: measured_rounds
  "shm_receive_iteration W n b"
  "\<lambda>r. recv_mapped r \<and> sizes_ok n b \<and> 0 < unat n \<and> payload (unat n) data \<and> found v n b data (looks r)"
  "\<lambda>_. True" "\<lambda>ds. ds" map_recv_time "pass_count n b + 3" W for W n b data v
proof
  fix r :: map_recv_round and ds i
  assume g: "recv_mapped r \<and> sizes_ok n b \<and> 0 < unat n \<and> payload (unat n) data
      \<and> found v n b data (looks r)"
  then obtain np where "n_pipeline n b = Val np"
      "pipeline (recv_pass (looks r)) 0 (unat np) (replicate (unat n) 0, 0) =
         (replicate (pass_count n b) BarrierWait, Val (data, unat n))"
    using recv_rounds [of n b data v "looks r"] by (auto simp: payload_def)
  then show "\<exists>s'. snd (shm_receive_iteration W n b i r ds) = Val s' \<and> True
       \<and> s' = (if i < W then ds else ds @ [map_recv_time r])"
    and "barrier_trace (fst (shm_receive_iteration W n b i r ds)) =
       replicate (pass_count n b + 3) BarrierWait"
    using g by (simp_all add: shm_receive_iteration_def record_duration_def recv_mapped_def
        andthen_def replicate_snoc numeral_3_eq_3 payload_def verify_or_abort_True)
qed

section \<open>Processes\<close>

lemma shm_SendProcess_ok:
  assumes "GenerateDataToSend draws (unat n) = Val data" and "counts_ok W N (length rounds)"
    and "sizes_ok n b" and "list_all send_mapped rounds"
  shows "\<exists>evs. shm_SendProcess W N n b draws rounds = (evs, Val ())
     \<and> barrier_trace evs = barrier_lifetime ((pass_count n b + 3) * length rounds)"
proof -
  have len: "length data = unat n" "0 < unat n"
    using generate_verify [OF assms(1)] by auto
  then have "list_all (\<lambda>r. send_mapped r \<and> sizes_ok n b \<and> length data = unat n \<and> 0 < unat n) rounds"
    using assms(3,4) by (simp add: list_all_iff)
  then obtain durations evs result where
      "benchmark_loop (shm_send_iteration W n b data) W N rounds [] = (evs, Val durations)" "True"
      "durations = map map_send_time (drop (nat W) rounds)"
      "barrier_trace evs = replicate ((pass_count n b + 3) * length rounds) BarrierWait"
      "CalculateBandwidth (map map_send_time (drop (nat W) rounds)) N (unat n) = Val result"
    by (rule shm_sender.benchmark_statistics [OF _ TrueI refl assms(2)])
  then show ?thesis
    using assms(1) by (simp add: shm_SendProcess_def barrier_lifetime_def act_defs)
qed

lemma shm_ReceiveProcess_ok:
  assumes "GenerateDataToSend draws (unat n) = Val data" and "counts_ok W N (length rounds)"
    and "sizes_ok n b" and "list_all (\<lambda>r. recv_mapped r \<and> found v n b data (looks r)) rounds"
  shows "\<exists>evs result. shm_ReceiveProcess W N n b rounds = (evs, Val result)
     \<and> CalculateBandwidth (map map_recv_time (drop (nat W) rounds)) N (unat n) = Val result
     \<and> barrier_trace evs = barrier_lifetime ((pass_count n b + 3) * length rounds)"
proof -
  have "0 < unat n" "payload (unat n) data"
    using generate_verify [OF assms(1)] by (auto simp: payload_def)
  then have "list_all (\<lambda>r. recv_mapped r \<and> sizes_ok n b \<and> 0 < unat n \<and> payload (unat n) data
      \<and> found v n b data (looks r)) rounds"
    using assms(3,4) by (simp add: list_all_iff)
  then obtain durations evs result where
      "benchmark_loop (shm_receive_iteration W n b) W N rounds [] = (evs, Val durations)" "True"
      "durations = map map_recv_time (drop (nat W) rounds)"
      "barrier_trace evs = replicate ((pass_count n b + 3) * length rounds) BarrierWait"
      "CalculateBandwidth (map map_recv_time (drop (nat W) rounds)) N (unat n) = Val result"
    by (rule shm_receiver.benchmark_statistics [OF _ TrueI refl assms(2)])
  then show ?thesis
    by (simp add: shm_ReceiveProcess_def barrier_lifetime_def act_defs)
qed

section \<open>Properties of the shared memory benchmark\<close>

text \<open>
  C12 (functional). End to end over shared memory: if both processes can open and map the object in
  every round and the receiver finds in the region what some interleaving of the two pipelines puts
  there, then the child exits with 0, every round passes the verification and the parent returns the
  statistics of exactly the rounds after the warm-up. Both processes make the same number of barrier
  calls, in each round three more than there are passes.
\<close>

theorem shm_end_to_end:
  assumes "GenerateDataToSend draws (unat n) = Val data" and "counts_ok W N (length srounds)"
    and "length rrounds = length srounds" and "sizes_ok n b"
    and "list_all send_mapped srounds"
    and "list_all (\<lambda>r. recv_mapped r \<and> found Shm n b data (looks r)) rrounds"
    and "pid \<noteq> -1" and "pid \<noteq> 0"
  shows "snd (RunShmBandwidthBenchmark N W n b 0 draws srounds rrounds) = Exit 0
    \<and> snd (RunShmBandwidthBenchmark N W n b pid draws srounds rrounds) =
        CalculateBandwidth (map map_recv_time (drop (nat W) rrounds)) N (unat n)
    \<and> (\<exists>result. CalculateBandwidth (map map_recv_time (drop (nat W) rrounds)) N (unat n) = Val result)
    \<and> barrier_trace (fst (RunShmBandwidthBenchmark N W n b 0 draws srounds rrounds)) =
        BarrierClear # barrier_lifetime ((pass_count n b + 3) * nat (W + N))
    \<and> barrier_trace (fst (RunShmBandwidthBenchmark N W n b pid draws srounds rrounds)) =
        BarrierClear # barrier_lifetime ((pass_count n b + 3) * nat (W + N))"
proof -
  have rc: "counts_ok W N (length rrounds)" using assms(2,3) by simp
  obtain evs result where r: "shm_ReceiveProcess W N n b rrounds = (evs, Val result)"
      "CalculateBandwidth (map map_recv_time (drop (nat W) rrounds)) N (unat n) = Val result"
      "barrier_trace evs = barrier_lifetime ((pass_count n b + 3) * length rrounds)"
    using shm_ReceiveProcess_ok [OF assms(1) rc assms(4,6)] by blast
  obtain evs' where s: "shm_SendProcess W N n b draws srounds = (evs', Val ())"
      "barrier_trace evs' = barrier_lifetime ((pass_count n b + 3) * length srounds)"
    using shm_SendProcess_ok [OF assms(1,2,4,5)] by blast
  show ?thesis
    using r s assms(3,7,8) counts_ok_nat [OF assms(2)]
    by (simp add: RunShmBandwidthBenchmark_def act_defs)
qed

theorem shm_end_to_end_witness:
  "snd (RunShmBandwidthBenchmark 1 1 129 100 77 (\<lambda>_. 0) sample_map_srounds sample_map_rrounds) =
     Val \<lparr>average = Fin 43, stddev = Fin 0\<rparr>"
proof -
  have "snd (RunShmBandwidthBenchmark 1 1 129 100 77 (\<lambda>_. 0) sample_map_srounds sample_map_rrounds) =
      CalculateBandwidth (map map_recv_time (drop (nat 1) sample_map_rrounds)) 1 (unat (129 :: u64))"
    by (rule shm_end_to_end [where data = sample_data, THEN conjunct2, THEN conjunct1])
      (use sample_generated sample_counts [unfolded numeral_2_eq_2] sample_sizes sample_found in
        \<open>simp_all add: sample_map_srounds_def sample_map_rrounds_def send_mapped_def recv_mapped_def
          replicate_two\<close>)
  then show ?thesis by (simp add: sample_map_rrounds_def sample_result replicate_two)
qed

end
