(* ===== verification/Memcpy_Bandwidth.thy ===== *)
theory Memcpy_Bandwidth
  imports Stream_Loops
begin

text \<open>
  \<^verbatim>\<open>akbench/memcpy_bandwidth.cc\<close> and \<^verbatim>\<open>memcpy_mt_bandwidth.cc\<close>: copies of the payload inside
  one process, by one thread or by several threads that each copy a chunk. The threads run
  concurrently without any synchronisation but the final join; their byte writes come in any order,
  which is recorded per round.
\<close>

section \<open>One thread\<close>

definition memcpy_iteration ::
  "int \<Rightarrow> nat \<Rightarrow> byte list \<Rightarrow> int \<Rightarrow> dbl \<Rightarrow> dbl list \<Rightarrow> dbl list act" where
  "memcpy_iteration num_warmups data_size src iteration elapsed durations =
     abind (lift (copy_into (replicate data_size 0) 0 (take data_size src))) (\<lambda>dst.
     abind (lift (VerifyDataReceived src data_size)) (\<lambda>ok.
       if ok then ret (record_duration (\<not> num_warmups \<le> iteration) elapsed durations)
       else lift (Abort ''Data verification failed before memcpy.'')))"

definition RunMemcpyBandwidthBenchmark ::
  "int \<Rightarrow> int \<Rightarrow> nat \<Rightarrow> (nat \<Rightarrow> u64) \<Rightarrow> dbl list \<Rightarrow> BenchmarkResult act" where
  "RunMemcpyBandwidthBenchmark num_iterations num_warmups data_size draws elapsed_times =
     abind (lift (GenerateDataToSend draws data_size)) (\<lambda>src.
     abind (benchmark_loop (memcpy_iteration num_warmups data_size src)
              num_warmups num_iterations elapsed_times []) (\<lambda>durations.
     lift (CalculateBandwidth durations num_iterations data_size)))"

interpretation memcpy_rounds: measured_rounds
  "memcpy_iteration W n src" "\<lambda>_. payload n src" "\<lambda>_. True" "\<lambda>ds. ds" "\<lambda>e. e" 0 W for W n src
  by unfold_locales
    (auto simp: memcpy_iteration_def payload_def copy_into_def record_duration_def)

section \<open>Several threads\<close>

text \<open>The range of bytes that \<^verbatim>\<open>copy_chunk\<close> copies for one thread.\<close>

definition chunk_size :: "u64 \<Rightarrow> u64 \<Rightarrow> u64" where
  "chunk_size data_size n_threads = data_size div n_threads"

definition chunk_start :: "u64 \<Rightarrow> u64 \<Rightarrow> u64 \<Rightarrow> u64" where
  "chunk_start data_size n_threads thread_id = thread_id * chunk_size data_size n_threads"

definition chunk_end :: "u64 \<Rightarrow> u64 \<Rightarrow> u64 \<Rightarrow> u64" where
  "chunk_end data_size n_threads thread_id =
     (if thread_id = n_threads - 1 then data_size
      else chunk_start data_size n_threads thread_id + chunk_size data_size n_threads)"

definition copy_chunk :: "u64 \<Rightarrow> u64 \<Rightarrow> byte list \<Rightarrow> u64 \<Rightarrow> byte list \<Rightarrow> byte list outcome" where
  "copy_chunk data_size n_threads src thread_id dst =
     (let start = unat (chunk_start data_size n_threads thread_id);
          len = unat (chunk_end data_size n_threads thread_id - chunk_start data_size n_threads thread_id)
      in copy_into dst start (take len (drop start src)))"

text \<open>The same copy as single byte writes, and the effect of writes in a given order.\<close>

definition chunk_writes :: "u64 \<Rightarrow> u64 \<Rightarrow> byte list \<Rightarrow> u64 \<Rightarrow> (nat \<times> byte) list" where
  "chunk_writes data_size n_threads src thread_id =
     map (\<lambda>k. (k, src ! k))
       [unat (chunk_start data_size n_threads thread_id)..<unat (chunk_end data_size n_threads thread_id)]"

definition apply_writes :: "byte list \<Rightarrow> (nat \<times> byte) list \<Rightarrow> byte list" where
  "apply_writes dst ws = foldl (\<lambda>d (k, b). d[k := b]) dst ws"

record mt_round =
  mt_time :: dbl
  mt_writes :: "(nat \<times> byte) list"

text \<open>
  The loop counter is a \<^verbatim>\<open>size_t\<close>, so both \<^verbatim>\<open>int\<close> arguments are converted before they are
  compared with it. A failed verification is only logged.
\<close>

definition mt_iteration ::
  "int \<Rightarrow> nat \<Rightarrow> int \<Rightarrow> mt_round \<Rightarrow> dbl list \<Rightarrow> dbl list act" where
  "mt_iteration num_warmups data_size i r durations =
     (let dst = apply_writes (replicate data_size 0) (mt_writes r)
      in if uint (of_int num_warmups :: u64) \<le> i
         then abind (lift (VerifyDataReceived dst data_size)) (\<lambda>ok. ret (durations @ [mt_time r]))
         else ret durations)"

definition MemcpyInMultiThread ::
  "u64 \<Rightarrow> int \<Rightarrow> int \<Rightarrow> u64 \<Rightarrow> (nat \<Rightarrow> u64) \<Rightarrow> mt_round list \<Rightarrow> BenchmarkResult act" where
  "MemcpyInMultiThread n_threads num_warmups num_iterations data_size draws rounds =
     abind (lift (GenerateDataToSend draws (unat data_size))) (\<lambda>src.
       if n_threads = 0 then lift (Undefined ''division by zero'')
       else abind (lift (add_int32 num_warmups num_iterations)) (\<lambda>count.
         abind (for_iterations (mt_iteration num_warmups (unat data_size))
                  (uint (of_int count :: u64)) 0 rounds []) (\<lambda>durations.
         lift (CalculateBandwidth durations num_iterations (unat data_size)))))"

definition RunMemcpyMtBandwidthBenchmark ::
  "int \<Rightarrow> int \<Rightarrow> u64 \<Rightarrow> u64 \<Rightarrow> (nat \<Rightarrow> u64) \<Rightarrow> mt_round list \<Rightarrow> BenchmarkResult act" where
  "RunMemcpyMtBandwidthBenchmark num_iterations num_warmups data_size num_threads draws rounds =
     MemcpyInMultiThread num_threads num_warmups num_iterations data_size draws rounds"

section \<open>The chunks partition the payload\<close>

lemma chunk_start_unat:
  assumes "t < n"
  shows "unat (chunk_start ds n t) = unat t * (unat ds div unat n)"
    and "unat t * (unat ds div unat n) \<le> unat ds"
proof -
  have "unat t * (unat ds div unat n) \<le> unat n * (unat ds div unat n)"
    using assms by (simp add: word_less_nat_alt)
  also have "\<dots> \<le> unat ds" by simp
  finally show le: "unat t * (unat ds div unat n) \<le> unat ds" .
  have "unat ds < 2 ^ 64" using unsigned_less [of ds] by simp
  then show "unat (chunk_start ds n t) = unat t * (unat ds div unat n)"
    using le by (simp add: chunk_start_def chunk_size_def unat_mult_lem [THEN iffD1] unat_div)
qed

lemma chunk_end_unat:
  assumes "t < n"
  shows "unat (chunk_end ds n t) =
     (if Suc (unat t) = unat n then unat ds else Suc (unat t) * (unat ds div unat n))"
proof -
  have tn: "unat t < unat n" using assms by (simp add: word_less_nat_alt)
  have n1: "unat (n - 1) = unat n - 1"
    using tn by (subst unat_sub) (simp_all add: word_le_nat_alt)
  have last: "t = n - 1 \<longleftrightarrow> Suc (unat t) = unat n"
    using n1 tn by (metis Suc_diff_1 diff_Suc_1 gr_implies_not0 gr0I unsigned_word_eqI)
  show ?thesis
  proof (cases "Suc (unat t) = unat n")
    case False
    have "Suc (unat t) * (unat ds div unat n) \<le> unat n * (unat ds div unat n)"
      using tn by (intro mult_le_mono1) simp
    also have "\<dots> \<le> unat ds" by simp
    finally have le: "Suc (unat t) * (unat ds div unat n) \<le> unat ds" .
    have lt: "unat ds < 2 ^ 64" using unsigned_less [of ds] by simp
    have sum: "unat (chunk_start ds n t) + unat (chunk_size ds n) = Suc (unat t) * (unat ds div unat n)"
      using chunk_start_unat(1) [OF assms, of ds] by (simp add: chunk_size_def unat_div)
    then have "unat (chunk_start ds n t) + unat (chunk_size ds n) < 2 ^ 64" using le lt by linarith
    then have "unat (chunk_start ds n t + chunk_size ds n) = Suc (unat t) * (unat ds div unat n)"
      unfolding sum [symmetric] by (intro unat_add_lem [THEN iffD1]) simp
    then show ?thesis using False last by (simp add: chunk_end_def)
  qed (use last in \<open>simp add: chunk_end_def\<close>)
qed

text \<open>Every byte is in the chunk of exactly one thread.\<close>

lemma chunk_cover:
  assumes "0 < n" and "k < unat ds"
  shows "\<exists>t. t < n \<and> unat (chunk_start ds n t) \<le> k \<and> k < unat (chunk_end ds n t)"
proof -
  let ?c = "unat ds div unat n" and ?N = "unat n"
  have N: "0 < ?N" using assms(1) by (simp add: word_less_nat_alt)
  define j where "j = (if ?c = 0 \<or> ?N \<le> k div ?c then ?N - 1 else k div ?c)"
  have jN: "j < ?N" using N by (auto simp: j_def not_le)
  have j64: "unat (of_nat j :: u64) = j"
  proof -
    have "unat n < 2 ^ 64" using unsigned_less [of n] by simp
    then have "j < 2 ^ 64" using jN by linarith
    then show ?thesis by (simp add: unat_of_nat take_bit_nat_eq_self)
  qed
  have t: "(of_nat j :: u64) < n" using jN j64 by (simp add: word_less_nat_alt)
  have lo: "j * ?c \<le> k"
  proof (cases "?c = 0")
    case False
    have "j \<le> k div ?c" using False by (auto simp: j_def)
    then have "j * ?c \<le> k div ?c * ?c" by (rule mult_le_mono1)
    also have "\<dots> \<le> k" by simp
    finally show ?thesis .
  qed simp
  have hi: "k < (if Suc j = ?N then unat ds else Suc j * ?c)"
  proof (cases "Suc j = ?N")
    case False
    then have "j \<noteq> ?N - 1" using N by linarith
    then have "?c \<noteq> 0" "j = k div ?c" by (auto simp: j_def split: if_splits)
    moreover have "k < ?c + k div ?c * ?c"
      using \<open>?c \<noteq> 0\<close> by (intro dividend_less_div_times) simp
    ultimately show ?thesis using False by simp
  qed (use assms(2) in simp)
  have "unat (chunk_start ds n (of_nat j)) \<le> k" "k < unat (chunk_end ds n (of_nat j))"
    using lo hi chunk_start_unat(1) [OF t, of ds] chunk_end_unat [OF t, of ds] unfolding j64 by simp_all
  then show ?thesis using t by blast
qed

lemma chunk_disjoint:
  assumes "t < n" and "u < n" and "t < u"
  shows "unat (chunk_end ds n t) \<le> unat (chunk_start ds n u)"
proof -
  have "unat t < unat u" "unat u < unat n" using assms by (simp_all add: word_less_nat_alt)
  then have "Suc (unat t) * (unat ds div unat n) \<le> unat u * (unat ds div unat n)"
    by (intro mult_le_mono1) simp
  then show ?thesis
    using \<open>unat t < unat u\<close> \<open>unat u < unat n\<close> assms
    by (simp add: chunk_end_unat chunk_start_unat)
qed

lemma chunk_bound: "t < n \<Longrightarrow> unat (chunk_end ds n t) \<le> unat ds"
  using chunk_start_unat(2) [of t n ds]
proof -
  assume t: "t < n"
  have "Suc (unat t) * (unat ds div unat n) \<le> unat n * (unat ds div unat n)"
    using t by (intro mult_le_mono1) (simp add: word_less_nat_alt)
  also have "\<dots> \<le> unat ds" by simp
  finally show ?thesis using t by (simp add: chunk_end_unat)
qed

section \<open>Writes in any order\<close>

lemma apply_writes_Cons: "apply_writes d ((k, b) # ws) = apply_writes (d[k := b]) ws"
  by (simp add: apply_writes_def)

lemma apply_writes_nth:
  "(\<forall>(i, b) \<in> set ws. b = f i) \<Longrightarrow> k < length d \<Longrightarrow>
   length (apply_writes d ws) = length d
   \<and> apply_writes d ws ! k = (if k \<in> fst ` set ws then f k else d ! k)"
proof (induction ws arbitrary: d)
  case (Cons w ws)
  obtain i b where w: "w = (i, b)" by force
  show ?case
    using Cons.IH [of "d[i := b]"] Cons.prems by (auto simp: w apply_writes_Cons nth_list_update)
qed (simp add: apply_writes_def)

text \<open>All the writes of all threads, in some order.\<close>

definition any_order :: "u64 \<Rightarrow> u64 \<Rightarrow> byte list \<Rightarrow> (nat \<times> byte) list \<Rightarrow> bool" where
  "any_order data_size n_threads src ws \<longleftrightarrow>
     set ws = (\<Union>t\<in>{t. t < n_threads}. set (chunk_writes data_size n_threads src t))"

lemma any_order_copies:
  assumes "0 < n" and "any_order ds n src ws" and "length src = unat ds"
    and "length d = unat ds"
  shows "apply_writes d ws = src"
proof (rule nth_equalityI)
  have vals: "\<forall>(i, b) \<in> set ws. b = src ! i"
    using assms(2) by (auto simp: any_order_def chunk_writes_def)
  have same: "length (apply_writes d ws) = length d" for d :: "byte list"
    by (induction ws arbitrary: d) (auto simp: apply_writes_def)
  show "length (apply_writes d ws) = length src" using same assms(3,4) by simp
  fix k
  assume "k < length (apply_writes d ws)"
  then have k: "k < unat ds" using same assms(4) by simp
  obtain t where "t < n" "unat (chunk_start ds n t) \<le> k" "k < unat (chunk_end ds n t)"
    using chunk_cover [OF assms(1) k] by blast
  then have "(k, src ! k) \<in> set ws"
    using assms(2) by (force simp: any_order_def chunk_writes_def)
  then have "k \<in> fst ` set ws" by force
  then show "apply_writes d ws ! k = src ! k"
    using apply_writes_nth [OF vals, of k d] k assms(4) by simp
qed

text \<open>Every thread's \<^verbatim>\<open>memcpy\<close> is inside both vectors and does what its byte writes do.\<close>

lemma apply_writes_range:
  "b \<le> length src \<Longrightarrow> length d = length src \<Longrightarrow> a \<le> b \<Longrightarrow>
   apply_writes d (map (\<lambda>k. (k, src ! k)) [a..<b]) = take a d @ take (b - a) (drop a src) @ drop b d"
proof (induction "b - a" arbitrary: a d)
  case 0
  then show ?case by (simp add: apply_writes_def)
next
  case (Suc m)
  then have ab: "a < b" by simp
  have "apply_writes d (map (\<lambda>k. (k, src ! k)) [a..<b]) =
      apply_writes (d[a := src ! a]) (map (\<lambda>k. (k, src ! k)) [Suc a..<b])"
    using ab by (simp add: upt_conv_Cons apply_writes_Cons)
  also have "\<dots> = take (Suc a) (d[a := src ! a]) @ take (b - Suc a) (drop (Suc a) src)
      @ drop b (d[a := src ! a])"
    by (rule Suc.hyps(1)) (use Suc.hyps(2) Suc.prems ab in auto)
  also have "take (Suc a) (d[a := src ! a]) = take a d @ [src ! a]"
    using ab Suc.prems by (simp add: take_Suc_conv_app_nth)
  also have "drop b (d[a := src ! a]) = drop b d" using ab by simp
  also have "(take a d @ [src ! a]) @ take (b - Suc a) (drop (Suc a) src) @ drop b d =
      take a d @ take (b - a) (drop a src) @ drop b d"
  proof -
    have "drop a src = src ! a # drop (Suc a) src"
      using ab Suc.prems by (simp add: Cons_nth_drop_Suc)
    moreover have "b - a = Suc (b - Suc a)" using ab by simp
    ultimately show ?thesis by simp
  qed
  finally show ?case .
qed

lemma copy_chunk_writes:
  assumes "t < n" and "length src = unat ds" and "length d = unat ds"
  shows "copy_chunk ds n src t d = Val (apply_writes d (chunk_writes ds n src t))"
proof -
  let ?a = "unat (chunk_start ds n t)" and ?b = "unat (chunk_end ds n t)"
  have b: "?b \<le> unat ds" by (rule chunk_bound [OF assms(1)])
  have ab: "?a \<le> ?b"
    using chunk_start_unat [OF assms(1), of ds] by (simp add: chunk_end_unat [OF assms(1)])
  then have "unat (chunk_end ds n t - chunk_start ds n t) = ?b - ?a"
    by (subst unat_sub) (simp_all add: word_le_nat_alt)
  then show ?thesis
    using ab b assms apply_writes_range [of ?b src d ?a]
    by (simp add: copy_chunk_def chunk_writes_def copy_into_def Let_def min_def)
qed

section \<open>Rounds\<close>

lemma uint_of_count: "0 \<le> i \<Longrightarrow> int32_range i \<Longrightarrow> uint (of_int i :: u64) = i"
  by (simp add: uint_word_of_int int32_range_def)

interpretation mt_rounds: measured_rounds
  "mt_iteration W (unat n)"
  "\<lambda>r. 0 \<le> W \<and> int32_range W \<and> 0 < threads \<and> payload (unat n) src
      \<and> any_order n threads src (mt_writes r)"
  "\<lambda>_. True" "\<lambda>ds. ds" mt_time 0 W for W n threads src
proof
  fix r :: mt_round and ds i
  assume g: "0 \<le> W \<and> int32_range W \<and> 0 < threads \<and> payload (unat n) src
      \<and> any_order n threads src (mt_writes r)"
  then have "apply_writes (replicate (unat n) 0) (mt_writes r) = src"
    by (intro any_order_copies) (auto simp: payload_def)
  then show "\<exists>s'. snd (mt_iteration W (unat n) i r ds) = Val s' \<and> True
       \<and> s' = (if i < W then ds else ds @ [mt_time r])"
    and "barrier_trace (fst (mt_iteration W (unat n) i r ds)) = replicate 0 BarrierWait"
    using g by (auto simp: mt_iteration_def payload_def uint_of_count)
qed

lemma fst_chunk_writes:
  "fst ` set (chunk_writes ds n src t) =
     {unat (chunk_start ds n t)..<unat (chunk_end ds n t)}"
  by (auto simp: chunk_writes_def image_image)

section \<open>Properties of the copies\<close>

text \<open>
  C13 (functional). The threads' chunks partition the payload: for every positive number of threads,
  also more threads than bytes, each \<^verbatim>\<open>memcpy\<close> stays inside both vectors, the ranges of two
  threads are disjoint (so the concurrent copies do not race), and whatever the order of all the byte
  writes, the destination ends as the source.
\<close>

theorem memcpy_mt_partition:
  assumes "0 < n" and "length src = unat ds" and "length dst = unat ds"
  shows "(\<forall>t. t < n \<longrightarrow> copy_chunk ds n src t dst = Val (apply_writes dst (chunk_writes ds n src t)))
    \<and> (\<forall>t u. t < n \<and> u < n \<and> t \<noteq> u \<longrightarrow>
         fst ` set (chunk_writes ds n src t) \<inter> fst ` set (chunk_writes ds n src u) = {})
    \<and> (any_order ds n src ws \<longrightarrow> apply_writes dst ws = src)"
proof (intro conjI allI impI)
  show "copy_chunk ds n src t dst = Val (apply_writes dst (chunk_writes ds n src t))" if "t < n" for t
    using copy_chunk_writes [OF that assms(2,3)] .
  have disj: "fst ` set (chunk_writes ds n src t) \<inter> fst ` set (chunk_writes ds n src u) = {}"
    if "t < n" "u < n" "t < u" for t u
    using chunk_disjoint [OF that, of ds] by (auto simp: fst_chunk_writes)
  show "fst ` set (chunk_writes ds n src t) \<inter> fst ` set (chunk_writes ds n src u) = {}"
    if "t < n \<and> u < n \<and> t \<noteq> u" for t u
  proof -
    have "t < u \<or> u < t" using that by auto
    then show ?thesis using disj [of t u] disj [of u t] that by (auto simp: Int_commute)
  qed
  show "apply_writes dst ws = src" if "any_order ds n src ws"
    by (rule any_order_copies [OF assms(1) that assms(2,3)])
qed

text \<open>Five bytes, two threads, the bytes written from both ends.\<close>

theorem memcpy_mt_partition_witness:
  "apply_writes [0, 0, 0, 0, 0] [(4, 5), (0, 1), (3, 4), (1, 2), (2, 3)] = [1, 2, 3, 4, 5]"
proof -
  have "t = 0 \<or> t = 1" if "t < 2" for t :: u64
  proof -
    have "unat t < 2" using that by (simp add: word_less_nat_alt)
    then have "unat t = unat (0 :: u64) \<or> unat t = unat (1 :: u64)" by auto
    then show ?thesis using unsigned_word_eqI by blast
  qed
  then have two: "{t :: u64. t < 2} = {0, 1}" by auto
  have c: "chunk_writes 5 2 [1, 2, 3, 4, 5] 0 = [(0, 1), (1, 2)]"
    "chunk_writes 5 2 [1, 2, 3, 4, 5] 1 = [(2, 3), (3, 4), (4, 5)]"
    by code_simp+
  have "any_order 5 2 [1, 2, 3, 4, 5] [(4, 5), (0, 1), (3, 4), (1, 2), (2, 3)]"
    unfolding any_order_def two by (auto simp: c)
  then show ?thesis
    using memcpy_mt_partition [of 2 "[1, 2, 3, 4, 5]" 5 "[0, 0, 0, 0, 0]"] by simp
qed

text \<open>
  The multi-threaded benchmark returns the statistics of exactly the rounds after
  the warm-up, for every number of threads and every order in which their writes are done.
\<close>

theorem memcpy_mt_result:
  assumes "GenerateDataToSend draws (unat n) = Val src" and "counts_ok W N (length rounds)"
    and "int32_range W" and "0 < threads"
    and "list_all (\<lambda>r. any_order n threads src (mt_writes r)) rounds"
  shows "snd (RunMemcpyMtBandwidthBenchmark N W n threads draws rounds) =
     CalculateBandwidth (map mt_time (drop (nat W) rounds)) N (unat n)"
proof -
  have c: "0 \<le> W" "0 \<le> W + N" "int32_range (W + N)" "0 + int (length rounds) = W + N"
    using assms(2) by (auto simp: counts_ok_def)
  have "list_all (\<lambda>r. 0 \<le> W \<and> int32_range W \<and> 0 < threads \<and> payload (unat n) src
      \<and> any_order n threads src (mt_writes r)) rounds"
    using assms(3-5) c generated_payload [OF assms(1)] by (simp add: list_all_iff)
  from mt_rounds.rounds [OF this TrueI c(4), of "[]"]
  obtain evs where "for_iterations (mt_iteration W (unat n)) (W + N) 0 rounds [] =
      (evs, Val (map mt_time (drop (nat W) rounds)))" by auto
  then show ?thesis
    using assms(1,4) c(3) uint_of_count [OF c(2,3)]
    by (auto simp: RunMemcpyMtBandwidthBenchmark_def MemcpyInMultiThread_def add_int32_def)
qed

definition sample_mt_rounds :: "mt_round list" where
  "sample_mt_rounds = replicate 2 \<lparr>mt_time = Fin 3, mt_writes = chunk_writes 129 1 sample_data 0\<rparr>"

theorem memcpy_mt_result_witness:
  "snd (RunMemcpyMtBandwidthBenchmark 1 1 129 1 (\<lambda>_. 0) sample_mt_rounds) =
     Val \<lparr>average = Fin 43, stddev = Fin 0\<rparr>"
proof -
  have one: "{t :: u64. t < 1} = {0}" by (auto simp: word_less_nat_alt unat_eq_0)
  have "snd (RunMemcpyMtBandwidthBenchmark 1 1 129 1 (\<lambda>_. 0) sample_mt_rounds) =
      CalculateBandwidth (map mt_time (drop (nat 1) sample_mt_rounds)) 1 (unat (129 :: u64))"
    by (rule memcpy_mt_result [where src = sample_data])
      (use sample_generated sample_counts [unfolded numeral_2_eq_2] in
        \<open>simp_all add: sample_mt_rounds_def replicate_two any_order_def one int32_range_def\<close>)
  then show ?thesis by (simp add: sample_mt_rounds_def sample_result replicate_two)
qed

end
