(* ===== verification/Cli_Main.thy ===== *)
theory Cli_Main
  imports Cli_Options Json_Output Latency_Results Syscall_Latency Barrier_Latency
    Pipe_Bandwidth Fifo_Bandwidth Tcp_Bandwidth Uds_Bandwidth Mq_Bandwidth
    Mmap_Bandwidth Shm_Bandwidth Memcpy_Bandwidth
begin

text \<open>
  \<^verbatim>\<open>akbench/akbench.cc\<close>: which benchmarks run with which arguments, the table of their results, and
  \<^verbatim>\<open>main\<close>. What the kernel and the clock answer to each benchmark is recorded in an environment.
\<close>

section \<open>Environments\<close>

record latency_env =
  atomic_times :: "dbl list"
  rel_acq_times :: "dbl list"
  barrier_warmups :: "barrier_run list"
  barrier_runs :: "barrier_run list"
  cv_times :: "dbl list"
  sem_opens :: "int \<times> int \<times> int \<times> int"
  sem_pid :: int
  sem_times :: "dbl list"
  statfs_times :: "dbl list"
  fstatfs_fd :: int
  fstatfs_times :: "dbl list"
  getpid_times :: "dbl list"

record bandwidth_env =
  draws_of :: "string \<Rightarrow> nat \<Rightarrow> u64"
  memcpy_times :: "dbl list"
  mt_rounds :: "u64 \<Rightarrow> mt_round list"
  tcp_pid :: int
  tcp_rounds :: "tcp_send_round list \<times> tcp_recv_round list"
  uds_pid :: int
  uds_rounds :: "uds_send_round list \<times> uds_recv_round list"
  pipe_reply :: int
  pipe_pid :: int
  pipe_rounds :: "send_round list \<times> recv_round list"
  fifo_reply :: int
  fifo_pid :: int
  fifo_rounds :: "fifo_send_round list \<times> fifo_recv_round list"
  mq_reply :: int
  mq_pid :: int
  mq_rounds :: "mq_send_round list \<times> mq_recv_round list"
  mmap_pid :: int
  mmap_rounds :: "map_send_round list \<times> map_recv_round list"
  shm_pid :: int
  shm_rounds :: "map_send_round list \<times> map_recv_round list"

text \<open>\<^verbatim>\<open>result = Run...(...); results[name] = result\<close>\<close>

definition record_result ::
  "string \<Rightarrow> BenchmarkResult act \<Rightarrow> named_results \<Rightarrow> named_results act" where
  "record_result name run results = abind run (\<lambda>result. ret (map_put name result results))"

section \<open>Latency benchmarks\<close>

definition default_loop_sizes :: "u64 name_map" where
  "default_loop_sizes =
     [(''atomic'', 1000000), (''barrier'', 1000), (''condition_variable'', 100000),
      (''fstatfs'', 1000000), (''getpid'', 1000000), (''semaphore'', 100000), (''statfs'', 1000000)]"

definition loop_size_for :: "u64 name_map \<Rightarrow> u64 option \<Rightarrow> string \<Rightarrow> u64 outcome" where
  "loop_size_for defaults opt name = (case opt of Some n \<Rightarrow> Val n | None \<Rightarrow> map_at defaults name)"

definition RunLatencyBenchmarks ::
  "latency_env \<Rightarrow> int \<Rightarrow> int \<Rightarrow> u64 name_map \<Rightarrow> u64 option \<Rightarrow> string \<Rightarrow> named_results act" where
  "RunLatencyBenchmarks env num_iterations num_warmups defaults loop_size_opt type =
     abind (lift (loop_size_for defaults loop_size_opt ''atomic'')) (\<lambda>atomic_loop_size.
     abind (lift (loop_size_for defaults loop_size_opt ''atomic'')) (\<lambda>atomic_rel_acq_loop_size.
     abind (lift (loop_size_for defaults loop_size_opt ''barrier'')) (\<lambda>barrier_loop_size.
     abind (lift (loop_size_for defaults loop_size_opt ''condition_variable'')) (\<lambda>cv_loop_size.
     abind (lift (loop_size_for defaults loop_size_opt ''semaphore'')) (\<lambda>semaphore_loop_size.
     abind (lift (loop_size_for defaults loop_size_opt ''statfs'')) (\<lambda>statfs_loop_size.
     abind (lift (loop_size_for defaults loop_size_opt ''fstatfs'')) (\<lambda>fstatfs_loop_size.
     abind (lift (loop_size_for defaults loop_size_opt ''getpid'')) (\<lambda>getpid_loop_size.
     let atomic = record_result ''latency_atomic''
           (RunAtomicLatencyBenchmark num_iterations num_warmups atomic_loop_size (atomic_times env));
         rel_acq = record_result ''latency_atomic_rel_acq''
           (RunAtomicRelAcqLatencyBenchmark num_iterations num_warmups atomic_rel_acq_loop_size
              (rel_acq_times env));
         barrier = record_result ''latency_barrier''
           (RunBarrierLatencyBenchmark num_iterations num_warmups barrier_loop_size
              (barrier_warmups env) (barrier_runs env));
         cv = record_result ''latency_condition_variable''
           (RunConditionVariableLatencyBenchmark num_iterations num_warmups cv_loop_size (cv_times env));
         semaphore = record_result ''latency_semaphore''
           (RunSemaphoreLatencyBenchmark num_iterations num_warmups semaphore_loop_size
              (sem_opens env) (sem_pid env) (sem_times env));
         statfs = record_result ''latency_statfs''
           (RunStatfsLatencyBenchmark num_iterations num_warmups statfs_loop_size (statfs_times env));
         fstatfs = record_result ''latency_fstatfs''
           (RunFstatfsLatencyBenchmark num_iterations num_warmups fstatfs_loop_size (fstatfs_fd env)
              (fstatfs_times env));
         getpid = record_result ''latency_getpid''
           (RunGetpidLatencyBenchmark num_iterations num_warmups getpid_loop_size (getpid_times env))
     in if type = ''latency_all'' then
          abind (atomic []) (\<lambda>rs. abind (rel_acq rs) (\<lambda>rs. abind (barrier rs) (\<lambda>rs. abind (cv rs) (\<lambda>rs.
          abind (semaphore rs) (\<lambda>rs. abind (statfs rs) (\<lambda>rs. abind (fstatfs rs) getpid))))))
        else if type = ''latency_atomic'' then atomic []
        else if type = ''latency_atomic_rel_acq'' then rel_acq []
        else if type = ''latency_barrier'' then barrier []
        else if type = ''latency_condition_variable'' then cv []
        else if type = ''latency_semaphore'' then semaphore []
        else if type = ''latency_statfs'' then statfs []
        else if type = ''latency_fstatfs'' then fstatfs []
        else if type = ''latency_getpid'' then getpid []
        else ret []))))))))"

section \<open>Bandwidth benchmarks\<close>

definition mt_name :: "nat \<Rightarrow> string" where
  "mt_name n_threads = ''bandwidth_memcpy_mt ('' @ dec_nat n_threads @ '' threads)''"

text \<open>The loop from one to four threads.\<close>

fun run_threads ::
  "bandwidth_env \<Rightarrow> int \<Rightarrow> int \<Rightarrow> u64 \<Rightarrow> nat list \<Rightarrow> named_results \<Rightarrow> named_results act" where
  "run_threads env num_iterations num_warmups data_size [] results = ret results"
| "run_threads env num_iterations num_warmups data_size (n_threads # ns) results =
     abind (record_result (mt_name n_threads)
              (RunMemcpyMtBandwidthBenchmark num_iterations num_warmups data_size (of_nat n_threads)
                 (draws_of env (mt_name n_threads)) (mt_rounds env (of_nat n_threads))) results)
       (run_threads env num_iterations num_warmups data_size ns)"

definition RunBandwidthBenchmarks ::
  "bandwidth_env \<Rightarrow> int \<Rightarrow> int \<Rightarrow> u64 \<Rightarrow> u64 \<Rightarrow> u64 option \<Rightarrow> string \<Rightarrow> named_results act" where
  "RunBandwidthBenchmarks env num_iterations num_warmups data_size buffer_size num_threads_opt type =
    (let n = unat data_size; b = unat buffer_size;
         memcpy = record_result ''bandwidth_memcpy''
           (RunMemcpyBandwidthBenchmark num_iterations num_warmups n
              (draws_of env ''bandwidth_memcpy'') (memcpy_times env));
         threads_1_to_4 = run_threads env num_iterations num_warmups data_size [1, 2, 3, 4];
         tcp = record_result ''bandwidth_tcp''
           (case tcp_rounds env of (ss, rs) \<Rightarrow>
              RunTcpBandwidthBenchmark num_iterations num_warmups n b (tcp_pid env)
                (draws_of env ''bandwidth_tcp'') ss rs);
         uds = record_result ''bandwidth_uds''
           (case uds_rounds env of (ss, rs) \<Rightarrow>
              RunUdsBandwidthBenchmark num_iterations num_warmups n b (uds_pid env)
                (draws_of env ''bandwidth_uds'') ss rs);
         pipe = record_result ''bandwidth_pipe''
           (case pipe_rounds env of (ss, rs) \<Rightarrow>
              RunPipeBandwidthBenchmark num_iterations num_warmups n b (pipe_reply env) (pipe_pid env)
                (draws_of env ''bandwidth_pipe'') ss rs);
         fifo = record_result ''bandwidth_fifo''
           (case fifo_rounds env of (ss, rs) \<Rightarrow>
              RunFifoBandwidthBenchmark num_iterations num_warmups n b (fifo_reply env) (fifo_pid env)
                (draws_of env ''bandwidth_fifo'') ss rs);
         mq = record_result ''bandwidth_mq''
           (case mq_rounds env of (ss, rs) \<Rightarrow>
              RunMqBandwidthBenchmark num_iterations num_warmups n b (mq_reply env) (mq_pid env)
                (draws_of env ''bandwidth_mq'') ss rs);
         mmap = record_result ''bandwidth_mmap''
           (case mmap_rounds env of (ss, rs) \<Rightarrow>
              RunMmapBandwidthBenchmark num_iterations num_warmups data_size buffer_size (mmap_pid env)
                (draws_of env ''bandwidth_mmap'') ss rs);
         shm = record_result ''bandwidth_shm''
           (case shm_rounds env of (ss, rs) \<Rightarrow>
              RunShmBandwidthBenchmark num_iterations num_warmups data_size buffer_size (shm_pid env)
                (draws_of env ''bandwidth_shm'') ss rs)
     in if type = ''bandwidth_all'' then
          abind (memcpy []) (\<lambda>rs. abind (threads_1_to_4 rs) (\<lambda>rs. abind (tcp rs) (\<lambda>rs. abind (uds rs) (\<lambda>rs.
          abind (pipe rs) (\<lambda>rs. abind (fifo rs) (\<lambda>rs. abind (mq rs) (\<lambda>rs. abind (mmap rs) shm)))))))
        else if type = ''bandwidth_memcpy'' then memcpy []
        else if type = ''bandwidth_memcpy_mt'' then
          (case num_threads_opt of
             Some num_threads \<Rightarrow>
               record_result ''bandwidth_memcpy_mt''
                 (RunMemcpyMtBandwidthBenchmark num_iterations num_warmups data_size num_threads
                    (draws_of env ''bandwidth_memcpy_mt'') (mt_rounds env num_threads)) []
           | None \<Rightarrow> threads_1_to_4 [])
        else if type = ''bandwidth_tcp'' then tcp []
        else if type = ''bandwidth_uds'' then uds []
        else if type = ''bandwidth_pipe'' then pipe []
        else if type = ''bandwidth_fifo'' then fifo []
        else if type = ''bandwidth_mq'' then mq []
        else if type = ''bandwidth_mmap'' then mmap []
        else if type = ''bandwidth_shm'' then shm []
        else ret [])"

section \<open>The main program\<close>

text \<open>
  The last part of \<^verbatim>\<open>main\<close>, with valid options: what it prints. Anything but the three kinds of
  type is the error \<open>Unknown benchmark type\<close> and exit code 1.
\<close>

record printing =
  e_text :: "dbl \<Rightarrow> string"
  f_text :: "dbl \<Rightarrow> string"

definition run_type ::
  "printing \<Rightarrow> latency_env \<Rightarrow> bandwidth_env \<Rightarrow> options \<Rightarrow> u64 \<Rightarrow> string list act" where
  "run_type pr lenv benv st buffer_size =
    (let type = g_type st;
         latency = RunLatencyBenchmarks lenv (g_num_iterations st) (g_num_warmups st) default_loop_sizes
                     (g_loop_size st);
         bandwidth = RunBandwidthBenchmarks benv (g_num_iterations st) (g_num_warmups st)
                     (g_data_size st) buffer_size (g_num_threads st);
         print_latency = OutputLatencyResults (e_text pr) (f_text pr);
         print_bandwidth = OutputBandwidthResults (e_text pr) (f_text pr)
     in if type = ''all'' then
          abind (latency ''latency_all'') (\<lambda>latency_results.
          abind (bandwidth ''bandwidth_all'') (\<lambda>bandwidth_results.
          ret (if g_json_output st then OutputJsonDictionary (e_text pr) latency_results bandwidth_results
               else [''Running all latency tests:'', '''']
                 @ print_latency latency_results (g_json_output st)
                 @ ['''', ''Running all bandwidth tests:'', '''']
                 @ print_bandwidth bandwidth_results (g_json_output st))))
        else if is_latency type \<or> type = ''latency_all'' then
          abind (latency type) (\<lambda>results. ret (print_latency results (g_json_output st)))
        else if is_bandwidth type \<or> type = ''bandwidth_all'' then
          abind (bandwidth type) (\<lambda>results. ret (print_bandwidth results (g_json_output st)))
        else lift (Exit 1))"

text \<open>
  All of \<^verbatim>\<open>main\<close>: \<open>opts\<close> and \<open>words\<close> are what \<^verbatim>\<open>getopt_long\<close> returns and leaves. The result is
  what goes to \<^verbatim>\<open>stdout\<close>, the calls made, and the exit.
\<close>

definition akbench_main ::
  "printing \<Rightarrow> latency_env \<Rightarrow> bandwidth_env \<Rightarrow> string \<Rightarrow> (int \<times> string) list \<Rightarrow> string list
     \<Rightarrow> string list \<times> event list \<times> unit outcome" where
  "akbench_main pr lenv benv program_name opts words =
    (case parse_options program_name opts initial_options of
       (out, err, Val st) \<Rightarrow>
         (case positional_type program_name words of
            (out, err, Val type) \<Rightarrow>
              (case check_options (st\<lparr>g_type := type\<rparr>) of
                 Inl e \<Rightarrow> ([], [], Exit 1)
               | Inr (buffer_size, level) \<Rightarrow>
                   (case run_type pr lenv benv (st\<lparr>g_type := type\<rparr>) buffer_size of
                      (evs, Val text) \<Rightarrow> (text, evs, Exit 0)
                    | (evs, r) \<Rightarrow> ([], evs, obind r (\<lambda>_. Val ()))))
          | (out, err, r) \<Rightarrow> (out, [], obind r (\<lambda>_. Val ())))
     | (out, err, r) \<Rightarrow> (out, [], obind r (\<lambda>_. Val ())))"

section \<open>Tables of benchmarks\<close>

text \<open>The reference for both functions: a table of named runs, all of them or one.\<close>

fun run_all :: "(string \<times> BenchmarkResult act) list \<Rightarrow> named_results \<Rightarrow> named_results act" where
  "run_all [] results = ret results"
| "run_all ((name, run) # table) results = abind (record_result name run results) (run_all table)"

lemma abind_ret_right [simp]: "abind m ret = m"
  by (cases m; cases "snd m") (auto simp: abind_def)

lemma run_all_eqs:
  "run_all [] = ret"
  "run_all ((name, run) # table) = (\<lambda>rs. abind (record_result name run rs) (run_all table))"
  by (rule ext, simp)+

lemma record_result_Val:
  "snd (record_result name run rs) = Val rs' \<longleftrightarrow> (\<exists>r. snd run = Val r \<and> rs' = map_put name r rs)"
  by (auto simp: record_result_def abind_Val_iff)

lemma run_all_Val:
  "snd (run_all table rs) = Val rs' \<Longrightarrow> sorted_names rs \<Longrightarrow> distinct (map fst table) \<Longrightarrow>
   set (map fst rs) \<inter> set (map fst table) = {} \<Longrightarrow>
   sorted_names rs' \<and> set (map fst rs') = set (map fst rs) \<union> set (map fst table)
   \<and> (\<forall>name r. map_of rs' name = Some r \<longrightarrow>
        map_of rs name = Some r \<or> (\<exists>run. (name, run) \<in> set table \<and> snd run = Val r))"
proof (induction table arbitrary: rs)
  case (Cons nr table)
  obtain name run where nr: "nr = (name, run)" by (cases nr)
  obtain r where r: "snd run = Val r" "snd (run_all table (map_put name r rs)) = Val rs'"
    using Cons.prems(1) nr by (auto simp: abind_Val_iff record_result_Val)
  have "set (map fst (map_put name r rs)) \<inter> set (map fst table) = {}"
    using Cons.prems(3,4) nr set_map_put [of name r rs] by auto
  from Cons.IH [OF r(2) sorted_map_put [OF Cons.prems(2)] _ this]
  have IH: "sorted_names rs'" "set (map fst rs') = set (map fst (map_put name r rs)) \<union> set (map fst table)"
    "\<And>n x. map_of rs' n = Some x \<Longrightarrow>
       map_of (map_put name r rs) n = Some x \<or> (\<exists>run. (n, run) \<in> set table \<and> snd run = Val x)"
    using Cons.prems(3) by simp_all
  have "map_of rs n = Some x \<or> (\<exists>run. (n, run) \<in> set (nr # table) \<and> snd run = Val x)"
    if "map_of rs' n = Some x" for n x
  proof (cases "n = name \<and> x = r")
    case True
    then show ?thesis using nr r(1) by (intro disjI2 exI [of _ run]) simp
  next
    case False
    then show ?thesis using IH(3) [OF that] by (fastforce simp: map_of_map_put split: if_splits)
  qed
  then show ?case using IH(1,2) nr set_map_put [of name r rs] by auto
qed simp

definition latency_table :: "latency_env \<Rightarrow> int \<Rightarrow> int \<Rightarrow> u64 option \<Rightarrow> (string \<times> BenchmarkResult act) list" where
  "latency_table env N W opt =
    (let loop_size = (\<lambda>default. case opt of Some n \<Rightarrow> n | None \<Rightarrow> default)
     in [(''latency_atomic'', RunAtomicLatencyBenchmark N W (loop_size 1000000) (atomic_times env)),
         (''latency_atomic_rel_acq'',
            RunAtomicRelAcqLatencyBenchmark N W (loop_size 1000000) (rel_acq_times env)),
         (''latency_barrier'',
            RunBarrierLatencyBenchmark N W (loop_size 1000) (barrier_warmups env) (barrier_runs env)),
         (''latency_condition_variable'',
            RunConditionVariableLatencyBenchmark N W (loop_size 100000) (cv_times env)),
         (''latency_semaphore'',
            RunSemaphoreLatencyBenchmark N W (loop_size 100000) (sem_opens env) (sem_pid env)
              (sem_times env)),
         (''latency_statfs'', RunStatfsLatencyBenchmark N W (loop_size 1000000) (statfs_times env)),
         (''latency_fstatfs'',
            RunFstatfsLatencyBenchmark N W (loop_size 1000000) (fstatfs_fd env) (fstatfs_times env)),
         (''latency_getpid'', RunGetpidLatencyBenchmark N W (loop_size 1000000) (getpid_times env))])"

definition from_table ::
  "string \<Rightarrow> (string \<times> BenchmarkResult act) list \<Rightarrow> string \<Rightarrow> named_results act" where
  "from_table all_name table type =
     (if type = all_name then run_all table []
      else case map_of table type of Some run \<Rightarrow> record_result type run [] | None \<Rightarrow> ret [])"

lemma loop_sizes:
  "loop_size_for default_loop_sizes opt ''atomic'' = Val (case opt of Some n \<Rightarrow> n | None \<Rightarrow> 1000000)"
  "loop_size_for default_loop_sizes opt ''barrier'' = Val (case opt of Some n \<Rightarrow> n | None \<Rightarrow> 1000)"
  "loop_size_for default_loop_sizes opt ''condition_variable'' =
     Val (case opt of Some n \<Rightarrow> n | None \<Rightarrow> 100000)"
  "loop_size_for default_loop_sizes opt ''semaphore'' = Val (case opt of Some n \<Rightarrow> n | None \<Rightarrow> 100000)"
  "loop_size_for default_loop_sizes opt ''statfs'' = Val (case opt of Some n \<Rightarrow> n | None \<Rightarrow> 1000000)"
  "loop_size_for default_loop_sizes opt ''fstatfs'' = Val (case opt of Some n \<Rightarrow> n | None \<Rightarrow> 1000000)"
  "loop_size_for default_loop_sizes opt ''getpid'' = Val (case opt of Some n \<Rightarrow> n | None \<Rightarrow> 1000000)"
  by (cases opt; simp add: loop_size_for_def map_at_def default_loop_sizes_def)+

lemma RunLatencyBenchmarks_table:
  "RunLatencyBenchmarks env N W default_loop_sizes opt type =
     from_table ''latency_all'' (latency_table env N W opt) type"
  unfolding RunLatencyBenchmarks_def loop_sizes abind_lift_Val Let_def from_table_def latency_table_def
  by (simp add: run_all_eqs)

lemma distinct_latency_table: "distinct (map fst (latency_table env N W opt))"
  by (simp add: latency_table_def Let_def)

lemma no_latency_all: "map_of (latency_table env N W opt) ''latency_all'' = None"
  by (simp add: latency_table_def Let_def)

lemma abind_assoc: "abind (abind m f) g = abind m (\<lambda>x. abind (f x) g)"
  by (cases m; cases "snd m") (auto simp: abind_def split: outcome.splits)

lemma run_all_append: "run_all (xs @ ys) = (\<lambda>rs. abind (run_all xs rs) (run_all ys))"
proof (induction xs)
  case (Cons x xs)
  then show ?case by (cases x) (simp add: run_all_eqs abind_assoc)
qed (simp add: run_all_eqs)

definition thread_table :: "bandwidth_env \<Rightarrow> int \<Rightarrow> int \<Rightarrow> u64 \<Rightarrow> (string \<times> BenchmarkResult act) list" where
  "thread_table env N W data_size =
     map (\<lambda>k. (mt_name k, RunMemcpyMtBandwidthBenchmark N W data_size (of_nat k)
                 (draws_of env (mt_name k)) (mt_rounds env (of_nat k)))) [1, 2, 3, 4]"

definition transport_table ::
  "bandwidth_env \<Rightarrow> int \<Rightarrow> int \<Rightarrow> u64 \<Rightarrow> u64 \<Rightarrow> (string \<times> BenchmarkResult act) list" where
  "transport_table env N W data_size buffer_size =
    (let n = unat data_size; b = unat buffer_size
     in [(''bandwidth_tcp'', RunTcpBandwidthBenchmark N W n b (tcp_pid env)
            (draws_of env ''bandwidth_tcp'') (fst (tcp_rounds env)) (snd (tcp_rounds env))),
         (''bandwidth_uds'', RunUdsBandwidthBenchmark N W n b (uds_pid env)
            (draws_of env ''bandwidth_uds'') (fst (uds_rounds env)) (snd (uds_rounds env))),
         (''bandwidth_pipe'', RunPipeBandwidthBenchmark N W n b (pipe_reply env) (pipe_pid env)
            (draws_of env ''bandwidth_pipe'') (fst (pipe_rounds env)) (snd (pipe_rounds env))),
         (''bandwidth_fifo'', RunFifoBandwidthBenchmark N W n b (fifo_reply env) (fifo_pid env)
            (draws_of env ''bandwidth_fifo'') (fst (fifo_rounds env)) (snd (fifo_rounds env))),
         (''bandwidth_mq'', RunMqBandwidthBenchmark N W n b (mq_reply env) (mq_pid env)
            (draws_of env ''bandwidth_mq'') (fst (mq_rounds env)) (snd (mq_rounds env))),
         (''bandwidth_mmap'', RunMmapBandwidthBenchmark N W data_size buffer_size (mmap_pid env)
            (draws_of env ''bandwidth_mmap'') (fst (mmap_rounds env)) (snd (mmap_rounds env))),
         (''bandwidth_shm'', RunShmBandwidthBenchmark N W data_size buffer_size (shm_pid env)
            (draws_of env ''bandwidth_shm'') (fst (shm_rounds env)) (snd (shm_rounds env)))])"

definition memcpy_run :: "bandwidth_env \<Rightarrow> int \<Rightarrow> int \<Rightarrow> u64 \<Rightarrow> string \<times> BenchmarkResult act" where
  "memcpy_run env N W data_size = (''bandwidth_memcpy'',
     RunMemcpyBandwidthBenchmark N W (unat data_size) (draws_of env ''bandwidth_memcpy'') (memcpy_times env))"

lemma run_threads_table:
  "run_threads env N W data_size ks = run_all (map (\<lambda>k. (mt_name k,
     RunMemcpyMtBandwidthBenchmark N W data_size (of_nat k) (draws_of env (mt_name k))
       (mt_rounds env (of_nat k)))) ks)"
proof (induction ks)
  case (Cons k ks)
  show ?case by (rule ext) (simp only: run_threads.simps Cons list.map run_all.simps)
qed (simp add: fun_eq_iff)

lemma run_threads_fun: "run_threads env N W data_size [1, 2, 3, 4] = run_all (thread_table env N W data_size)"
  by (simp only: run_threads_table thread_table_def)

lemma RunBandwidthBenchmarks_all:
  "RunBandwidthBenchmarks env N W data_size buffer_size threads ''bandwidth_all'' =
     run_all (memcpy_run env N W data_size # thread_table env N W data_size
        @ transport_table env N W data_size buffer_size) []"
  unfolding RunBandwidthBenchmarks_def transport_table_def Let_def run_threads_fun memcpy_run_def
  by (simp add: run_all_append run_all_eqs case_prod_unfold)

lemma RunBandwidthBenchmarks_one:
  "type \<noteq> ''bandwidth_all'' \<Longrightarrow> type \<noteq> ''bandwidth_memcpy_mt'' \<Longrightarrow>
   RunBandwidthBenchmarks env N W data_size buffer_size threads type =
     from_table ''bandwidth_all''
       (memcpy_run env N W data_size # transport_table env N W data_size buffer_size) type"
  unfolding RunBandwidthBenchmarks_def Let_def from_table_def transport_table_def memcpy_run_def
  by (simp add: case_prod_unfold)

lemma from_table_one:
  assumes "(name, run) \<in> set table" and "distinct (map fst table)" and "name \<noteq> all_name"
    and "snd run = Val r"
  shows "snd (from_table all_name table name) = Val [(name, r)]"
  using assms by (simp add: from_table_def record_result_Val)

lemma from_table_Val:
  assumes "snd (from_table all_name table type) = Val rs" and "distinct (map fst table)"
    and "all_name \<notin> set (map fst table)"
  shows "sorted_names rs
    \<and> set (map fst rs) = (if type = all_name then set (map fst table) else set (map fst table) \<inter> {type})
    \<and> (\<forall>name r. map_of rs name = Some r \<longrightarrow> snd (from_table all_name table name) = Val [(name, r)])"
proof (cases "type = all_name")
  case True
  then have "snd (run_all table []) = Val rs" using assms(1) by (simp add: from_table_def)
  from run_all_Val [OF this _ assms(2)]
  have rs: "sorted_names rs" "set (map fst rs) = set (map fst table)"
    "\<And>name r. map_of rs name = Some r \<Longrightarrow> \<exists>run. (name, run) \<in> set table \<and> snd run = Val r"
    by (auto simp: sorted_names_def)
  have "snd (from_table all_name table name) = Val [(name, r)]" if r: "map_of rs name = Some r" for name r
  proof -
    obtain run where run: "(name, run) \<in> set table" "snd run = Val r" using rs(3) [OF r] by blast
    then have "name \<noteq> all_name" using assms(3) by force
    then show ?thesis by (rule from_table_one [OF run(1) assms(2) _ run(2)])
  qed
  then show ?thesis using rs True by simp
next
  case False
  show ?thesis
  proof (cases "map_of table type")
    case None
    then have "type \<notin> set (map fst table)" by (simp add: map_of_eq_None_iff)
    then show ?thesis using assms(1) False None by (auto simp: from_table_def sorted_names_def)
  next
    case (Some run)
    then have "type \<in> set (map fst table)" by (metis image_eqI list.set_map map_of_SomeD fst_conv)
    moreover obtain r where "snd run = Val r" "rs = [(type, r)]"
      using assms(1) False Some by (auto simp: from_table_def record_result_Val)
    ultimately show ?thesis
      using from_table_one [OF map_of_SomeD [OF Some] assms(2) False] False
      by (auto simp: sorted_names_def)
  qed
qed

lemma transport_names: "map fst (transport_table env N W n b) =
    [''bandwidth_tcp'', ''bandwidth_uds'', ''bandwidth_pipe'', ''bandwidth_fifo'', ''bandwidth_mq'',
     ''bandwidth_mmap'', ''bandwidth_shm'']"
  by (simp add: transport_table_def Let_def)

lemma thread_names: "map fst (thread_table env N W n) = map mt_name [1, 2, 3, 4]"
  by (simp add: thread_table_def)

lemma latency_names: "map fst (latency_table env N W opt) =
    [''latency_atomic'', ''latency_atomic_rel_acq'', ''latency_barrier'', ''latency_condition_variable'',
     ''latency_semaphore'', ''latency_statfs'', ''latency_fstatfs'', ''latency_getpid'']"
  by (simp add: latency_table_def Let_def)

lemma mt_names: "map mt_name [1, 2, 3, 4] =
    [''bandwidth_memcpy_mt (1 threads)'', ''bandwidth_memcpy_mt (2 threads)'',
     ''bandwidth_memcpy_mt (3 threads)'', ''bandwidth_memcpy_mt (4 threads)'']"
  by code_simp

definition sample_env :: latency_env where
  "sample_env =
     \<lparr>atomic_times = [], rel_acq_times = [], barrier_warmups = [], barrier_runs = [], cv_times = [],
      sem_opens = (0, 0, 0, 0), sem_pid = 7, sem_times = [], statfs_times = [], fstatfs_fd = 3,
      fstatfs_times = [], getpid_times = [Fin 4, Fin 4, Fin 4]\<rparr>"

lemma sample_getpid:
  "snd (RunGetpidLatencyBenchmark 3 0 1 (getpid_times sample_env)) =
     CalculateOneTripDuration [Fin 4, Fin 4, Fin 4]"
  using syscall_loop [of "[Fin 4, Fin 4, Fin 4]" 0 3 "''getpid''" 1]
  by (simp add: RunGetpidLatencyBenchmark_def sample_env_def int32_range_def call_time_def
      double_of_nat_def)

lemma sample_latency:
  "\<exists>r. snd (RunLatencyBenchmarks sample_env 3 0 default_loop_sizes (Some 1) ''latency_getpid'') =
     Val [(''latency_getpid'', r)]"
proof -
  obtain r where "CalculateOneTripDuration [Fin 4, Fin 4, Fin 4] = Val r"
    by (simp add: CalculateOneTripDuration_def Let_def)
  then show ?thesis
    unfolding RunLatencyBenchmarks_table
    by (simp add: from_table_def latency_table_def Let_def record_result_Val sample_getpid)
qed

section \<open>Properties\<close>

text \<open>
  C23 (type). The table of latency results is strictly sorted by name, with the eight benchmarks
  for \<^verbatim>\<open>latency_all\<close>, the named one for a single type and none for any other word; and every entry
  is what the benchmark of that name gives when it runs alone.
\<close>

theorem latency_results_table:
  assumes "snd (RunLatencyBenchmarks env N W default_loop_sizes opt type) = Val rs"
  shows "sorted_names rs
    \<and> set (map fst rs) =
        (let names = {''latency_atomic'', ''latency_atomic_rel_acq'', ''latency_barrier'',
           ''latency_condition_variable'', ''latency_semaphore'', ''latency_statfs'', ''latency_fstatfs'',
           ''latency_getpid''}
         in if type = ''latency_all'' then names else names \<inter> {type})
    \<and> (\<forall>name r. map_of rs name = Some r \<longrightarrow>
          snd (RunLatencyBenchmarks env N W default_loop_sizes opt name) = Val [(name, r)])"
  using from_table_Val [OF assms [unfolded RunLatencyBenchmarks_table] distinct_latency_table]
  unfolding RunLatencyBenchmarks_table by (simp add: latency_names Let_def)

theorem latency_results_table_witness:
  "\<exists>rs. snd (RunLatencyBenchmarks sample_env 3 0 default_loop_sizes (Some 1) ''latency_getpid'') = Val rs
     \<and> set (map fst rs) = {''latency_getpid''}"
proof -
  obtain r where
    "snd (RunLatencyBenchmarks sample_env 3 0 default_loop_sizes (Some 1) ''latency_getpid'') =
       Val [(''latency_getpid'', r)]"
    using sample_latency by blast
  from this latency_results_table [OF this] show ?thesis by (simp add: Let_def)
qed

text \<open>
  The combined bandwidth run fills a strictly sorted table with \<^verbatim>\<open>memcpy\<close>, the
  multi-threaded copy with one to four threads and the seven transports, and the entry of every
  transport is what it gives when it runs alone.
\<close>

theorem bandwidth_results:
  assumes "snd (RunBandwidthBenchmarks env N W n b threads ''bandwidth_all'') = Val rs"
  shows "sorted_names rs
    \<and> set (map fst rs) = {''bandwidth_memcpy'', ''bandwidth_memcpy_mt (1 threads)'',
        ''bandwidth_memcpy_mt (2 threads)'', ''bandwidth_memcpy_mt (3 threads)'',
        ''bandwidth_memcpy_mt (4 threads)'', ''bandwidth_tcp'', ''bandwidth_uds'', ''bandwidth_pipe'',
        ''bandwidth_fifo'', ''bandwidth_mq'', ''bandwidth_mmap'', ''bandwidth_shm''}
    \<and> (\<forall>name r. map_of rs name = Some r \<and> name \<notin> set (map mt_name [1, 2, 3, 4]) \<longrightarrow>
          snd (RunBandwidthBenchmarks env N W n b threads name) = Val [(name, r)])"
proof -
  let ?single = "memcpy_run env N W n # transport_table env N W n b"
  let ?table = "memcpy_run env N W n # thread_table env N W n @ transport_table env N W n b"
  have names: "map fst ?table = ''bandwidth_memcpy'' # map mt_name [1, 2, 3, 4] @
      map fst (transport_table env N W n b)"
    unfolding map_append list.map(2) thread_names by (simp add: memcpy_run_def)
  have "distinct (map fst ?table)" unfolding names mt_names transport_names by simp
  moreover have "sorted_names ([] :: named_results)" by (simp add: sorted_names_def)
  ultimately have rs: "sorted_names rs" "set (map fst rs) = set (map fst ?table)"
    "\<And>name r. map_of rs name = Some r \<Longrightarrow> \<exists>run. (name, run) \<in> set ?table \<and> snd run = Val r"
    using run_all_Val [OF assms [unfolded RunBandwidthBenchmarks_all]] by auto
  have "snd (RunBandwidthBenchmarks env N W n b threads name) = Val [(name, r)]"
    if r: "map_of rs name = Some r" and not_mt: "name \<notin> set (map mt_name [1, 2, 3, 4])" for name r
  proof -
    obtain run where run: "(name, run) \<in> set ?table" "snd run = Val r" using rs(3) [OF r] by blast
    have "name \<notin> set (map fst (thread_table env N W n))" using not_mt unfolding thread_names .
    then have single: "(name, run) \<in> set ?single" using run(1) by force
    then have "name \<in> set (map fst ?single)" using imageI [OF single, of fst] by (simp only: fst_conv set_map)
    moreover have dist: "distinct (map fst ?single)"
      unfolding list.map transport_names by (simp add: memcpy_run_def)
    ultimately have "name \<noteq> ''bandwidth_all''" "name \<noteq> ''bandwidth_memcpy_mt''"
      unfolding list.map transport_names by (auto simp: memcpy_run_def)
    show ?thesis
      unfolding RunBandwidthBenchmarks_one [OF \<open>name \<noteq> ''bandwidth_all''\<close> \<open>name \<noteq> ''bandwidth_memcpy_mt''\<close>]
      by (rule from_table_one [OF single dist \<open>name \<noteq> ''bandwidth_all''\<close> run(2)])
  qed
  then show ?thesis using rs(1,2) unfolding names mt_names transport_names by simp
qed

text \<open>
  C22 (functional). A whole run with a latency type: the command line is parsed and validated, the
  benchmark of that type runs, and the program prints its result and exits with 0, as JSON the
  reference list with times in seconds, else one line per result. A word after \<^verbatim>\<open>latency_\<close> that
  names no benchmark prints nothing at all and still exits with 0.
\<close>

theorem main_prints_latency:
  assumes "int32_range (g_num_iterations st)" and "int32_range (g_num_warmups st)"
    and "is_latency t" and "3 \<le> g_num_iterations st" and "g_num_threads st = None"
    and "cli_log_level (g_log_level_name st) = Some level"
    and "snd (RunLatencyBenchmarks lenv (g_num_iterations st) (g_num_warmups st) default_loop_sizes
           (g_loop_size st) t) = Val rs"
  shows "(case akbench_main pr lenv benv p (command_line st) [t] of (out, evs, r) \<Rightarrow>
      r = Exit 0 \<and>
      out = (if rs = [] then []
             else if g_json_output st
             then json_lines (JArray (map (json_result (e_text pr) ''sec'') rs))
             else OutputLatencyResults (e_text pr) (f_text pr) rs False))
    \<and> akbench_main pr lenv benv p (command_line st) [''latency_shm''] = ([], [], Exit 0)"
proof -
  have parse: "parse_options p (command_line st) initial_options = ([], [], Val (st\<lparr>g_type := []\<rparr>))"
    by (rule parse_command_line [OF assms(1,2)])
  have check: "check_options (st\<lparr>g_type := u\<rparr>) =
      Inr (case g_buffer_size st of Some b \<Rightarrow> b | None \<Rightarrow> DEFAULT_BUFFER_SIZE, level)"
    if u: "is_latency u" for u
  proof -
    have "\<not> is_memcpy u" "u \<noteq> ''bandwidth_memcpy_mt''" "u \<noteq> ''bandwidth_all''"
      using latency_not_bandwidth [OF u] by (auto simp: is_memcpy_def is_bandwidth_def starts_with_def)
    then show ?thesis
      unfolding check_options_Inr using latency_not_bandwidth [OF u] assms(4-6) by simp
  qed
  obtain evs where run: "RunLatencyBenchmarks lenv (g_num_iterations st) (g_num_warmups st)
      default_loop_sizes (g_loop_size st) t = (evs, Val rs)"
    using assms(7) by (metis prod.collapse)
  have "RunLatencyBenchmarks lenv (g_num_iterations st) (g_num_warmups st)
      default_loop_sizes (g_loop_size st) ''latency_shm'' = ([], Val [])"
    unfolding RunLatencyBenchmarks_table by (simp add: from_table_def latency_table_def Let_def ret_def)
  moreover have "is_latency ''latency_shm''" by (simp add: is_latency_def starts_with_def)
  ultimately show ?thesis
    using run check [OF assms(3)] check [of "''latency_shm''"] latency_not_bandwidth [OF assms(3)]
    by (simp add: akbench_main_def parse positional_type_def run_type_def assms(3) Let_def
        OutputLatencyResults_def OutputJsonResults_json ret_def)
qed

definition sample_options :: options where
  "sample_options = initial_options\<lparr>g_num_iterations := 3, g_num_warmups := 0, g_loop_size := Some 1\<rparr>"

definition no_bandwidth_env :: bandwidth_env where
  "no_bandwidth_env =
     \<lparr>draws_of = (\<lambda>_ _. 0), memcpy_times = [], mt_rounds = (\<lambda>_. []), tcp_pid = 7, tcp_rounds = ([], []),
      uds_pid = 7, uds_rounds = ([], []), pipe_reply = 0, pipe_pid = 7, pipe_rounds = ([], []),
      fifo_reply = 0, fifo_pid = 7, fifo_rounds = ([], []), mq_reply = 0, mq_pid = 7, mq_rounds = ([], []),
      mmap_pid = 7, mmap_rounds = ([], []), shm_pid = 7, shm_rounds = ([], [])\<rparr>"

theorem main_prints_latency_witness:
  "\<exists>out evs. akbench_main \<lparr>e_text = (\<lambda>_. ''x''), f_text = (\<lambda>_. ''y'')\<rparr> sample_env no_bandwidth_env ''akbench''
     (command_line sample_options) [''latency_getpid''] = (out, evs, Exit 0) \<and> length out = 1"
proof -
  let ?pr = "\<lparr>e_text = (\<lambda>_. ''x''), f_text = (\<lambda>_. ''y'')\<rparr> :: printing"
  obtain r where r: "snd (RunLatencyBenchmarks sample_env (g_num_iterations sample_options)
      (g_num_warmups sample_options) default_loop_sizes (g_loop_size sample_options) ''latency_getpid'') =
    Val [(''latency_getpid'', r)]"
    using sample_latency by (auto simp: sample_options_def)
  have "is_latency ''latency_getpid''" by (simp add: is_latency_def starts_with_def)
  then have "case akbench_main ?pr sample_env no_bandwidth_env ''akbench'' (command_line sample_options)
        [''latency_getpid''] of (out, evs, x) \<Rightarrow>
      x = Exit 0 \<and> out = OutputLatencyResults (e_text ?pr) (f_text ?pr) [(''latency_getpid'', r)] False"
    using main_prints_latency [OF _ _ _ _ _ _ r, of WARNING ?pr no_bandwidth_env "''akbench''"]
    by (simp add: sample_options_def initial_options_def int32_range_def cli_log_level_def)
  then show ?thesis by (auto simp: OutputLatencyResults_def)
qed

end
