(* ===== verification/Mpi_Bandwidth.thy ===== *)
theory Mpi_Bandwidth
  imports Cli_Options Stream_Loops
begin

text \<open>
  \<^verbatim>\<open>akbench/mpi_bandwidth.cc\<close>: a separate program in which two MPI processes send a payload back
  and forth. MPI is not part of the sources: a round records the message that \<^verbatim>\<open>MPI_Recv\<close> took
  from the other process and the elapsed time. What the program relies on is stated where it is
  used: a message of at most \<^verbatim>\<open>count\<close> bytes overwrites the beginning of the buffer, a longer
  message or a negative \<^verbatim>\<open>count\<close> is an error, and errors are fatal, as the MPI standard has it.
\<close>

section \<open>Options\<close>






section \<open>The ping-pong\<close>

record mpi_round =
  message :: "byte list"
  mpi_time :: dbl

text \<open>The parameter \<^verbatim>\<open>count\<close> of both calls is an \<^verbatim>\<open>int\<close>; the data size is converted to it.\<close>

definition mpi_count :: "u64 \<Rightarrow> int" where
  "mpi_count data_size = sint (ucast data_size :: 32 word)"

definition MPI_Send :: "u64 \<Rightarrow> unit act" where
  "MPI_Send data_size =
     andthen (emit (Call ''MPI_Send''))
       (if mpi_count data_size < 0 then lift (Abort ''MPI_ERR_COUNT'') else ret ())"

definition MPI_Recv :: "u64 \<Rightarrow> byte list \<Rightarrow> byte list \<Rightarrow> byte list act" where
  "MPI_Recv data_size msg recv_buffer =
     andthen (emit (Call ''MPI_Recv''))
       (if mpi_count data_size < 0 then lift (Abort ''MPI_ERR_COUNT'')
        else if mpi_count data_size < int (length msg) then lift (Abort ''MPI_ERR_TRUNCATE'')
        else lift (copy_into recv_buffer 0 msg))"

definition mpi_iteration ::
  "int \<Rightarrow> int \<Rightarrow> u64 \<Rightarrow> int \<Rightarrow> mpi_round \<Rightarrow> byte list \<times> dbl list \<Rightarrow> (byte list \<times> dbl list) act" where
  "mpi_iteration rank num_warmups data_size i e st =
     (case st of (recv_buffer, durations) \<Rightarrow>
       andthen (emit (Call ''MPI_Barrier''))
       (abind (if rank = 0
               then andthen (MPI_Send data_size) (MPI_Recv data_size (message e) recv_buffer)
               else abind (MPI_Recv data_size (message e) recv_buffer)
                      (\<lambda>buf. andthen (MPI_Send data_size) (ret buf))) (\<lambda>buf.
        andthen (emit (Call ''MPI_Barrier''))
       (abind (lift (VerifyDataReceived buf (unat data_size))) (\<lambda>verified.
        if verified
        then ret (buf, record_duration (i < num_warmups) (mpi_time e) durations)
        else lift (Abort ''Data verification failed''))))))"

text \<open>From the buffers to the statistics, on one process.\<close>

definition mpi_benchmark ::
  "int \<Rightarrow> int \<Rightarrow> int \<Rightarrow> u64 \<Rightarrow> (nat \<Rightarrow> u64) \<Rightarrow> mpi_round list \<Rightarrow> BenchmarkResult act" where
  "mpi_benchmark rank num_iterations num_warmups data_size draws rounds =
     abind (lift (GenerateDataToSend draws (unat data_size))) (\<lambda>send_buffer.
     andthen (emit (Call ''MPI_Barrier''))
     (abind (benchmark_loop (mpi_iteration rank num_warmups data_size) num_warmups num_iterations rounds
               (replicate (unat data_size) 0, [])) (\<lambda>(buf, durations).
      lift (CalculateBandwidth durations num_iterations (unat (2 * data_size))))))"


section \<open>Rounds\<close>

lemma mpi_count_small:
  assumes "unat n < 2 ^ 31"
  shows "mpi_count n = int (unat n)"
proof -
  have "unat (ucast n :: 32 word) = unat n"
    using assms by (simp add: unsigned_ucast_eq take_bit_nat_eq_self_iff)
  then have u: "uint (ucast n :: 32 word) = int (unat n)" by (simp only: uint_nat)
  moreover have "signed_take_bit 31 (int (unat n)) = int (unat n)"
  proof -
    have "unat n < 2147483648" using assms by simp
    then have "int (unat n) < 2147483648" by linarith
    then show ?thesis by (intro signed_take_bit_int_eq_self) (simp_all del: of_nat_unat)
  qed
  ultimately show ?thesis by (simp add: mpi_count_def sint_uint)
qed

lemma mpi_count_negative:
  assumes "2 ^ 31 \<le> unat n" and "unat n < 2 ^ 32"
  shows "mpi_count n < 0"
proof -
  have "unat (ucast n :: 32 word) = unat n"
    using assms(2) by (simp add: unsigned_ucast_eq take_bit_nat_eq_self_iff)
  then have u: "uint (ucast n :: 32 word) = int (unat n)" by (simp only: uint_nat)
  have "2147483648 \<le> unat n" "unat n < 4294967296" using assms by simp_all
  then have "2147483648 \<le> int (unat n)" "int (unat n) < 4294967296" by linarith+
  then have "int (unat n) div 2147483648 = 1"
    by (intro int_div_pos_eq [where r = "int (unat n) - 2147483648"]) linarith+
  then have "bit (int (unat n)) 31" by (simp add: bit_iff_odd del: of_nat_unat)
  then show ?thesis by (simp add: mpi_count_def sint_uint u del: of_nat_unat)
qed

text \<open>
  A round as it should be: the message is the beginning of what the other process sends, and
  together with the rest of the receive buffer it passes verification.
\<close>

definition mpi_good :: "u64 \<Rightarrow> byte list \<Rightarrow> byte list \<Rightarrow> mpi_round \<Rightarrow> bool" where
  "mpi_good data_size sent kept e \<longleftrightarrow>
     0 \<le> mpi_count data_size \<and> length sent = unat data_size
     \<and> message e = take (nat (mpi_count data_size)) sent
     \<and> VerifyDataReceived (take (nat (mpi_count data_size)) sent @ kept) (unat data_size) = Val True"

text \<open>The receive buffer between two rounds: the part that no message reaches is \<open>kept\<close>.\<close>

definition mpi_buffer :: "u64 \<Rightarrow> byte list \<Rightarrow> byte list \<times> dbl list \<Rightarrow> bool" where
  "mpi_buffer data_size kept st \<longleftrightarrow> length (fst st) = unat data_size
     \<and> drop (nat (mpi_count data_size)) (fst st) = kept"

lemma mpi_count_le: "nat (mpi_count n) \<le> unat n"
proof (cases "unat n < 2 ^ 31")
  case True
  then show ?thesis by (simp add: mpi_count_small)
next
  case False
  have "mpi_count n < 2 ^ 31" using sint_lt [of "ucast n :: 32 word"] by (simp add: mpi_count_def)
  then have "nat (mpi_count n) < 2 ^ 31" by simp
  then show ?thesis using False by linarith
qed

lemma mpi_iteration_result:
  assumes "mpi_good n sent kept e" and "mpi_buffer n kept st"
  shows "snd (mpi_iteration rank W n i e st) =
      Val (take (nat (mpi_count n)) sent @ kept, record_duration (i < W) (mpi_time e) (snd st))
    \<and> mpi_buffer n kept (take (nat (mpi_count n)) sent @ kept, ds)
    \<and> barrier_trace (fst (mpi_iteration rank W n i e st)) = []"
proof -
  let ?c = "nat (mpi_count n)" and ?buf = "take (nat (mpi_count n)) sent @ kept"
  obtain buf durations where st: "st = (buf, durations)" by (cases st)
  have c: "?c \<le> unat n" by (rule mpi_count_le)
  have good: "0 \<le> mpi_count n" "length sent = unat n" "message e = take ?c sent"
      "VerifyDataReceived ?buf (unat n) = Val True" using assms(1) by (simp_all add: mpi_good_def)
  then have msg: "length (message e) = ?c" using c by simp
  have buf: "length buf = unat n" "drop ?c buf = kept" using assms(2) by (simp_all add: st mpi_buffer_def)
  have "copy_into buf 0 (message e) = Val ?buf"
    using buf msg c good(3) by (simp add: copy_into_def)
  then have recv: "MPI_Recv n (message e) buf = ([Call ''MPI_Recv''], Val ?buf)"
    using good(1) msg by (simp add: MPI_Recv_def lift_def)
  have send: "MPI_Send n = ([Call ''MPI_Send''], Val ())"
    using good(1) by (simp add: MPI_Send_def ret_def)
  have "length kept = unat n - ?c" using buf by auto
  then show ?thesis
    using good(2,4) c
    by (simp add: st mpi_iteration_def recv send act_defs mpi_buffer_def)
qed

interpretation mpi_rounds: measured_rounds "mpi_iteration rank W n" "mpi_good n sent kept"
    "mpi_buffer n kept" snd mpi_time 0 W for rank W n sent kept
proof
  fix e st i
  assume "mpi_good n sent kept e" "mpi_buffer n kept st"
  note result = mpi_iteration_result [OF this, of rank W i]
  then show "\<exists>st'. snd (mpi_iteration rank W n i e st) = Val st' \<and> mpi_buffer n kept st'
      \<and> snd st' = (if i < W then snd st else snd st @ [mpi_time e])"
    by (simp add: record_duration_def mpi_buffer_def)
  show "barrier_trace (fst (mpi_iteration rank W n i e st)) = replicate 0 BarrierWait"
    using result by simp
qed

lemma mpi_benchmark_result:
  assumes "GenerateDataToSend draws (unat n) = Val own"
    and "list_all (mpi_good n sent (replicate (unat n - nat (mpi_count n)) 0)) es"
    and "counts_ok W N (length es)"
  shows "\<exists>result. snd (mpi_benchmark rank N W n draws es) = Val result
    \<and> CalculateBandwidth (map mpi_time (drop (nat W) es)) N (unat (2 * n)) = Val result"
proof -
  have "mpi_buffer n (replicate (unat n - nat (mpi_count n)) 0) (replicate (unat n) 0, [])"
    by (simp add: mpi_buffer_def)
  from mpi_rounds.benchmark_statistics [OF assms(2) this _ assms(3), of rank "unat (2 * n)"]
  obtain st evs result where
    "benchmark_loop (mpi_iteration rank W n) W N es (replicate (unat n) 0, []) = (evs, Val st)"
    "snd st = map mpi_time (drop (nat W) es)"
    "CalculateBandwidth (map mpi_time (drop (nat W) es)) N (unat (2 * n)) = Val result"
    by fastforce
  then show ?thesis
    using assms(1) by (cases st) (simp add: mpi_benchmark_def act_defs)
qed

section \<open>Properties\<close>



text \<open>
  C28 (error). A data size that is a multiple of \<open>2\<^sup>3\<^sup>2\<close> becomes a \<^verbatim>\<open>count\<close> of 0: no byte is sent, the
  receive buffer stays zero and passes verification, and the program reports the bandwidth of the
  whole payload. A size from \<open>2\<^sup>3\<^sup>1\<close> below \<open>2\<^sup>3\<^sup>2\<close> is a negative count, an error in the first round.
\<close>

theorem mpi_truncated_count:
  assumes "GenerateDataToSend draws (unat n) = Val data" and "counts_ok W N (length es)"
  shows "(unat n mod 2 ^ 32 = 0 \<and> list_all (\<lambda>e. message e = []) es \<longrightarrow>
       mpi_count n = 0 \<and> (\<exists>result. snd (mpi_benchmark rank N W n draws es) = Val result
         \<and> CalculateBandwidth (map mpi_time (drop (nat W) es)) N (unat (2 * n)) = Val result))
    \<and> (2 ^ 31 \<le> unat n \<and> unat n < 2 ^ 32 \<longrightarrow>
       snd (mpi_benchmark rank N W n draws es) = Abort ''MPI_ERR_COUNT'')"
proof (intro conjI impI)
  assume a: "unat n mod 2 ^ 32 = 0 \<and> list_all (\<lambda>e. message e = []) es"
  have "unat (ucast n :: 32 word) = 0" using a by (simp add: unsigned_ucast_eq take_bit_eq_mod)
  then have "(ucast n :: 32 word) = 0" by (simp only: unat_eq_zero)
  then show count: "mpi_count n = 0" by (simp add: mpi_count_def)
  have size: "CHECKSUM_SIZE < unat n"
    using assms(1) by (auto simp: GenerateDataToSend_def split: if_splits)
  have "list_all (mpi_good n (replicate (unat n) 0) (replicate (unat n - nat (mpi_count n)) 0)) es"
    using a size by (auto simp: list_all_iff mpi_good_def count verify_zeros)
  then show "\<exists>result. snd (mpi_benchmark rank N W n draws es) = Val result
      \<and> CalculateBandwidth (map mpi_time (drop (nat W) es)) N (unat (2 * n)) = Val result"
    by (rule mpi_benchmark_result [OF assms(1) _ assms(2)])
next
  assume n: "2 ^ 31 \<le> unat n \<and> unat n < 2 ^ 32"
  have "mpi_count n < 0" by (rule mpi_count_negative) (use n in simp_all)
  moreover obtain e es' where es: "es = e # es'" using assms(2) by (cases es) (auto simp: counts_ok_def)
  moreover have "add_int32 W N = Val (W + N)" "0 < W + N"
    using assms(2) by (auto simp: counts_ok_def add_int32_def)
  ultimately show "snd (mpi_benchmark rank N W n draws es) = Abort ''MPI_ERR_COUNT''"
    using assms(1)
    by (simp add: mpi_benchmark_def benchmark_loop_def mpi_iteration_def MPI_Send_def MPI_Recv_def act_defs)
qed

theorem mpi_truncated_count_witness:
  "\<exists>result. snd (mpi_benchmark 0 3 1 4294967296 (\<lambda>_. 0) (replicate 4 \<lparr>message = [], mpi_time = Fin 2\<rparr>)) =
     Val result"
proof -
  have n: "unat (4294967296 :: u64) = 4294967296" by simp
  have "CHECKSUM_SIZE < unat (4294967296 :: u64)" by (simp add: CHECKSUM_SIZE_def)
  then obtain data where data: "GenerateDataToSend (\<lambda>_. 0) (unat (4294967296 :: u64)) = Val data"
    using generate_Val by blast
  have "counts_ok 1 3 (length (replicate 4 \<lparr>message = [], mpi_time = Fin 2\<rparr>))"
    by (simp add: counts_ok_def int32_range_def)
  from mpi_truncated_count [OF data this, THEN conjunct1, of 0] show ?thesis
    unfolding n by (auto simp: list_all_iff)
qed

end
