(* ===== verification/Barrier.thy ===== *)
theory Barrier
  imports Phase_Sync
begin

text \<open>
  The barrier of \<^verbatim>\<open>akbench/barrier.h\<close> and \<^verbatim>\<open>barrier.cc\<close>, as an interleaving of \<open>N\<close>
  processes that construct a \<open>SenseReversingBarrier\<close>, call \<^verbatim>\<open>Wait\<close> \<open>K\<close> times and
  destroy it. A step is one semaphore operation or one critical section body of one process; the
  order of the steps is any. \<open>shared\<close> holds the named semaphore and the shared memory,
  \<open>local\<close> the members and local variables of one process together with its program counter.

  The kernel may refuse to create the semaphore, the shared memory or the mapping (the choice
  \<open>ok = False\<close>); the process then aborts, inside the critical section when it holds the
  semaphore.
\<close>

section \<open>State\<close>

text \<open>The members \<^verbatim>\<open>count_\<close>, \<^verbatim>\<open>shared_sense_\<close>, \<^verbatim>\<open>n_users_\<close> of \<^verbatim>\<open>ShmData\<close>.\<close>

record shm_data =
  arrived_count :: u64
  shared_sense :: bool
  n_users :: u64

record shared =
  sem :: "nat option"
  shm :: "shm_data option"
  linked :: bool

datatype pc =
    C_SemOpen | C_Lock | C_Shm | C_Unlock
  | J_Lock | J_Inc | J_Unlock
  | P_Lock | P_Read | P_Unlock
  | Work
  | W_Lock | W_Body | W_Unlock
  | S_Lock | S_Read | S_Unlock
  | W_Flip
  | D_Lock | D_Body | D_Unlock | D_Close
  | Done | Aborted | AbortedLocked

record local =
  pc :: pc
  sense :: bool
  all_users_joined :: bool
  last_user :: bool
  reversed :: bool
  remaining_users :: u64
  waits :: nat

section \<open>Semaphore operations\<close>

text \<open>\<open>None\<close>: the call blocks.\<close>

definition sem_wait :: "shared \<Rightarrow> local \<Rightarrow> (shared \<times> local) option" where
  "sem_wait sh l =
     (case sem sh of
        Some (Suc v) \<Rightarrow> Some (sh\<lparr>sem := Some v\<rparr>, l)
      | _ \<Rightarrow> None)"

definition sem_post :: "shared \<Rightarrow> local \<Rightarrow> (shared \<times> local) option" where
  "sem_post sh l =
     (case sem sh of
        Some v \<Rightarrow> Some (sh\<lparr>sem := Some (Suc v)\<rparr>, l)
      | None \<Rightarrow> None)"

section \<open>The three member functions\<close>

text \<open>The constructor: open the semaphore, create or open the shared memory, register, poll.\<close>

definition ctor_step :: "u64 \<Rightarrow> bool \<Rightarrow> shared \<Rightarrow> local \<Rightarrow> (shared \<times> local) option" where
  "ctor_step n_procs ok sh l =
     (case pc l of
        C_SemOpen \<Rightarrow>
          if \<not> linked sh then None
          else if \<not> ok then Some (sh, l\<lparr>pc := Aborted\<rparr>)
          else Some (sh\<lparr>sem := (case sem sh of None \<Rightarrow> Some 1 | Some v \<Rightarrow> Some v)\<rparr>, l\<lparr>pc := C_Lock\<rparr>)
      | C_Lock \<Rightarrow> sem_wait sh (l\<lparr>pc := C_Shm\<rparr>)
      | C_Shm \<Rightarrow>
          if \<not> ok then Some (sh, l\<lparr>pc := AbortedLocked\<rparr>)
          else (case shm sh of
                  None \<Rightarrow>
                    Some (sh\<lparr>shm := Some \<lparr>arrived_count = 0, shared_sense = False, n_users = 0\<rparr>\<rparr>,
                          l\<lparr>pc := C_Unlock\<rparr>)
                | Some d \<Rightarrow> Some (sh, l\<lparr>pc := C_Unlock\<rparr>))
      | C_Unlock \<Rightarrow> sem_post sh (l\<lparr>pc := J_Lock\<rparr>)
      | J_Lock \<Rightarrow> sem_wait sh (l\<lparr>pc := J_Inc\<rparr>)
      | J_Inc \<Rightarrow>
          (case shm sh of
             None \<Rightarrow> None
           | Some d \<Rightarrow> Some (sh\<lparr>shm := Some (d\<lparr>n_users := n_users d + 1\<rparr>)\<rparr>, l\<lparr>pc := J_Unlock\<rparr>))
      | J_Unlock \<Rightarrow> sem_post sh (l\<lparr>pc := P_Lock\<rparr>)
      | P_Lock \<Rightarrow> sem_wait sh (l\<lparr>pc := P_Read\<rparr>)
      | P_Read \<Rightarrow>
          (case shm sh of
             None \<Rightarrow> None
           | Some d \<Rightarrow> Some (sh, l\<lparr>all_users_joined := (n_procs \<le> n_users d), pc := P_Unlock\<rparr>))
      | P_Unlock \<Rightarrow> sem_post sh (l\<lparr>pc := (if all_users_joined l then Work else P_Lock)\<rparr>)
      | _ \<Rightarrow> None)"

text \<open>\<^verbatim>\<open>Wait\<close>: count the arrival, reverse the shared sense as the last one, else spin on it.\<close>

definition wait_step :: "u64 \<Rightarrow> shared \<Rightarrow> local \<Rightarrow> (shared \<times> local) option" where
  "wait_step n_procs sh l =
     (case pc l of
        W_Lock \<Rightarrow> sem_wait sh (l\<lparr>last_user := False, pc := W_Body\<rparr>)
      | W_Body \<Rightarrow>
          (case shm sh of
             None \<Rightarrow> None
           | Some d \<Rightarrow>
               let c = arrived_count d + 1
               in if c = n_procs
                  then Some (sh\<lparr>shm := Some (d\<lparr>shared_sense := (\<not> shared_sense d), arrived_count := 0\<rparr>)\<rparr>,
                             l\<lparr>last_user := True, pc := W_Unlock\<rparr>)
                  else Some (sh\<lparr>shm := Some (d\<lparr>arrived_count := c\<rparr>)\<rparr>, l\<lparr>pc := W_Unlock\<rparr>))
      | W_Unlock \<Rightarrow> sem_post sh (l\<lparr>pc := (if last_user l then W_Flip else S_Lock)\<rparr>)
      | S_Lock \<Rightarrow> sem_wait sh (l\<lparr>pc := S_Read\<rparr>)
      | S_Read \<Rightarrow>
          (case shm sh of
             None \<Rightarrow> None
           | Some d \<Rightarrow> Some (sh, l\<lparr>reversed := (shared_sense d \<noteq> sense l), pc := S_Unlock\<rparr>))
      | S_Unlock \<Rightarrow> sem_post sh (l\<lparr>pc := (if \<not> reversed l then W_Flip else S_Lock)\<rparr>)
      | W_Flip \<Rightarrow> Some (sh, l\<lparr>sense := (\<not> sense l), waits := Suc (waits l), pc := Work\<rparr>)
      | _ \<Rightarrow> None)"

text \<open>The destructor: deregister; the last user also removes the names.\<close>

definition dtor_step :: "shared \<Rightarrow> local \<Rightarrow> (shared \<times> local) option" where
  "dtor_step sh l =
     (case pc l of
        D_Lock \<Rightarrow> sem_wait sh (l\<lparr>pc := D_Body\<rparr>)
      | D_Body \<Rightarrow>
          (case shm sh of
             None \<Rightarrow> None
           | Some d \<Rightarrow>
               Some (sh\<lparr>shm := Some (d\<lparr>n_users := n_users d - 1\<rparr>)\<rparr>,
                     l\<lparr>remaining_users := n_users d, pc := D_Unlock\<rparr>))
      | D_Unlock \<Rightarrow> sem_post sh (l\<lparr>pc := D_Close\<rparr>)
      | D_Close \<Rightarrow>
          Some (if remaining_users l = 1 then sh\<lparr>linked := False\<rparr> else sh, l\<lparr>pc := Done\<rparr>)
      | _ \<Rightarrow> None)"

section \<open>Processes and their interleaving\<close>

datatype stage = Constructing | Client | Waiting | Destroying | Stopped

primrec stage_of :: "pc \<Rightarrow> stage" where
  "stage_of C_SemOpen = Constructing" | "stage_of C_Lock = Constructing"
| "stage_of C_Shm = Constructing" | "stage_of C_Unlock = Constructing"
| "stage_of J_Lock = Constructing" | "stage_of J_Inc = Constructing"
| "stage_of J_Unlock = Constructing" | "stage_of P_Lock = Constructing"
| "stage_of P_Read = Constructing" | "stage_of P_Unlock = Constructing"
| "stage_of Work = Client"
| "stage_of W_Lock = Waiting" | "stage_of W_Body = Waiting" | "stage_of W_Unlock = Waiting"
| "stage_of S_Lock = Waiting" | "stage_of S_Read = Waiting" | "stage_of S_Unlock = Waiting"
| "stage_of W_Flip = Waiting"
| "stage_of D_Lock = Destroying" | "stage_of D_Body = Destroying"
| "stage_of D_Unlock = Destroying" | "stage_of D_Close = Destroying"
| "stage_of Done = Stopped" | "stage_of Aborted = Stopped" | "stage_of AbortedLocked = Stopped"

text \<open>The client calls \<^verbatim>\<open>Wait\<close> \<open>K\<close> times, then its barrier goes out of scope.\<close>

definition proc_step :: "u64 \<Rightarrow> nat \<Rightarrow> bool \<Rightarrow> shared \<Rightarrow> local \<Rightarrow> (shared \<times> local) option" where
  "proc_step n_procs K ok sh l =
     (case stage_of (pc l) of
        Constructing \<Rightarrow> ctor_step n_procs ok sh l
      | Client \<Rightarrow> Some (sh, l\<lparr>pc := (if waits l < K then W_Lock else D_Lock)\<rparr>)
      | Waiting \<Rightarrow> wait_step n_procs sh l
      | Destroying \<Rightarrow> dtor_step sh l
      | Stopped \<Rightarrow> None)"

record sys =
  shd :: shared
  procs :: "nat \<Rightarrow> local"

definition init_local :: local where
  "init_local = \<lparr>pc = C_SemOpen, sense = True, all_users_joined = False, last_user = False,
                 reversed = False, remaining_users = 0, waits = 0\<rparr>"

definition init_sys :: sys where
  "init_sys = \<lparr>shd = \<lparr>sem = None, shm = None, linked = True\<rparr>, procs = (\<lambda>_. init_local)\<rparr>"

inductive bstep :: "nat \<Rightarrow> nat \<Rightarrow> sys \<Rightarrow> sys \<Rightarrow> bool" for N K where
  move: "p < N \<Longrightarrow> proc_step (of_nat N) K ok (shd s) (procs s p) = Some (sh', l') \<Longrightarrow>
         bstep N K s \<lparr>shd = sh', procs = (procs s)(p := l')\<rparr>"

definition reachable :: "nat \<Rightarrow> nat \<Rightarrow> sys \<Rightarrow> bool" where
  "reachable N K s \<longleftrightarrow> rtranclp (bstep N K) init_sys s"

text \<open>The counters of the abstract barrier: arrivals and completed rounds of a process.\<close>

definition arrived :: "local \<Rightarrow> bool" where
  "arrived l =
     (case pc l of W_Unlock \<Rightarrow> True | S_Lock \<Rightarrow> True | S_Read \<Rightarrow> True | S_Unlock \<Rightarrow> True
      | W_Flip \<Rightarrow> True | _ \<Rightarrow> False)"

definition arrivals :: "local \<Rightarrow> nat" where
  "arrivals l = (if arrived l then Suc (waits l) else waits l)"

definition entered_rounds :: "sys \<Rightarrow> nat \<Rightarrow> nat" where
  "entered_rounds s p = arrivals (procs s p)"

definition left_rounds :: "sys \<Rightarrow> nat \<Rightarrow> nat" where
  "left_rounds s p = waits (procs s p)"

section \<open>One equation per program counter\<close>

lemma sem_wait_Some_iff:
  "sem_wait sh l = Some (sh', l') \<longleftrightarrow>
     (\<exists>v. sem sh = Some (Suc v) \<and> sh' = sh\<lparr>sem := Some v\<rparr> \<and> l' = l)"
  by (auto simp: sem_wait_def split: option.splits nat.splits)

lemma sem_post_Some_iff:
  "sem_post sh l = Some (sh', l') \<longleftrightarrow>
     (\<exists>v. sem sh = Some v \<and> sh' = sh\<lparr>sem := Some (Suc v)\<rparr> \<and> l' = l)"
  by (auto simp: sem_post_def split: option.splits)

lemma proc_step_ctor:
  "pc l = C_SemOpen \<Longrightarrow> proc_step n K ok sh l =
     (if \<not> linked sh then None
      else if \<not> ok then Some (sh, l\<lparr>pc := Aborted\<rparr>)
      else Some (sh\<lparr>sem := (case sem sh of None \<Rightarrow> Some 1 | Some v \<Rightarrow> Some v)\<rparr>, l\<lparr>pc := C_Lock\<rparr>))"
  "pc l = C_Lock \<Longrightarrow> proc_step n K ok sh l = sem_wait sh (l\<lparr>pc := C_Shm\<rparr>)"
  "pc l = C_Shm \<Longrightarrow> proc_step n K ok sh l =
     (if \<not> ok then Some (sh, l\<lparr>pc := AbortedLocked\<rparr>)
      else if shm sh = None then
        Some (sh\<lparr>shm := Some \<lparr>arrived_count = 0, shared_sense = False, n_users = 0\<rparr>\<rparr>,
              l\<lparr>pc := C_Unlock\<rparr>)
      else Some (sh, l\<lparr>pc := C_Unlock\<rparr>))"
  "pc l = C_Unlock \<Longrightarrow> proc_step n K ok sh l = sem_post sh (l\<lparr>pc := J_Lock\<rparr>)"
  "pc l = J_Lock \<Longrightarrow> proc_step n K ok sh l = sem_wait sh (l\<lparr>pc := J_Inc\<rparr>)"
  "pc l = J_Inc \<Longrightarrow> proc_step n K ok sh l =
     map_option (\<lambda>d. (sh\<lparr>shm := Some (d\<lparr>n_users := n_users d + 1\<rparr>)\<rparr>, l\<lparr>pc := J_Unlock\<rparr>)) (shm sh)"
  "pc l = J_Unlock \<Longrightarrow> proc_step n K ok sh l = sem_post sh (l\<lparr>pc := P_Lock\<rparr>)"
  "pc l = P_Lock \<Longrightarrow> proc_step n K ok sh l = sem_wait sh (l\<lparr>pc := P_Read\<rparr>)"
  "pc l = P_Read \<Longrightarrow> proc_step n K ok sh l =
     map_option (\<lambda>d. (sh, l\<lparr>all_users_joined := (n \<le> n_users d), pc := P_Unlock\<rparr>)) (shm sh)"
  "pc l = P_Unlock \<Longrightarrow> proc_step n K ok sh l =
     sem_post sh (l\<lparr>pc := (if all_users_joined l then Work else P_Lock)\<rparr>)"
  by (simp_all add: proc_step_def ctor_step_def split: option.split)

lemma proc_step_wait:
  "pc l = Work \<Longrightarrow> proc_step n K ok sh l =
     Some (sh, l\<lparr>pc := (if waits l < K then W_Lock else D_Lock)\<rparr>)"
  "pc l = W_Lock \<Longrightarrow> proc_step n K ok sh l = sem_wait sh (l\<lparr>last_user := False, pc := W_Body\<rparr>)"
  "pc l = W_Body \<Longrightarrow> proc_step n K ok sh l =
     map_option (\<lambda>d. if arrived_count d + 1 = n
         then (sh\<lparr>shm := Some (d\<lparr>shared_sense := (\<not> shared_sense d), arrived_count := 0\<rparr>)\<rparr>,
               l\<lparr>last_user := True, pc := W_Unlock\<rparr>)
         else (sh\<lparr>shm := Some (d\<lparr>arrived_count := arrived_count d + 1\<rparr>)\<rparr>, l\<lparr>pc := W_Unlock\<rparr>)) (shm sh)"
  "pc l = W_Unlock \<Longrightarrow> proc_step n K ok sh l =
     sem_post sh (l\<lparr>pc := (if last_user l then W_Flip else S_Lock)\<rparr>)"
  "pc l = S_Lock \<Longrightarrow> proc_step n K ok sh l = sem_wait sh (l\<lparr>pc := S_Read\<rparr>)"
  "pc l = S_Read \<Longrightarrow> proc_step n K ok sh l =
     map_option (\<lambda>d. (sh, l\<lparr>reversed := (shared_sense d \<noteq> sense l), pc := S_Unlock\<rparr>)) (shm sh)"
  "pc l = S_Unlock \<Longrightarrow> proc_step n K ok sh l =
     sem_post sh (l\<lparr>pc := (if \<not> reversed l then W_Flip else S_Lock)\<rparr>)"
  "pc l = W_Flip \<Longrightarrow> proc_step n K ok sh l =
     Some (sh, l\<lparr>sense := (\<not> sense l), waits := Suc (waits l), pc := Work\<rparr>)"
  by (simp_all add: proc_step_def wait_step_def Let_def split: option.split)

lemma proc_step_dtor:
  "pc l = D_Lock \<Longrightarrow> proc_step n K ok sh l = sem_wait sh (l\<lparr>pc := D_Body\<rparr>)"
  "pc l = D_Body \<Longrightarrow> proc_step n K ok sh l =
     map_option (\<lambda>d. (sh\<lparr>shm := Some (d\<lparr>n_users := n_users d - 1\<rparr>)\<rparr>,
                      l\<lparr>remaining_users := n_users d, pc := D_Unlock\<rparr>)) (shm sh)"
  "pc l = D_Unlock \<Longrightarrow> proc_step n K ok sh l = sem_post sh (l\<lparr>pc := D_Close\<rparr>)"
  "pc l = D_Close \<Longrightarrow> proc_step n K ok sh l =
     Some (if remaining_users l = 1 then sh\<lparr>linked := False\<rparr> else sh, l\<lparr>pc := Done\<rparr>)"
  "pc l = Done \<Longrightarrow> proc_step n K ok sh l = None"
  "pc l = Aborted \<Longrightarrow> proc_step n K ok sh l = None"
  "pc l = AbortedLocked \<Longrightarrow> proc_step n K ok sh l = None"
  by (simp_all add: proc_step_def dtor_step_def split: option.split)

lemmas proc_step_eqs = proc_step_ctor proc_step_wait proc_step_dtor sem_wait_Some_iff
  sem_post_Some_iff

end
