(* ===== verification/Barrier_Safety.thy ===== *)
theory Barrier_Safety
  imports Barrier
begin

text \<open>
  Safety of the barrier. The invariant of the interleaving relates the shared counter, the shared
  sense and the number of users to the local states of all processes through the current
  generation \<open>G\<close>, the number of times the shared sense was reversed. From it follow mutual
  exclusion of the critical sections, the guarantee of the constructor, and that every step of
  the system is a step of the abstract barrier of \<open>Phase_Sync\<close>.
\<close>

section \<open>Classes of local states\<close>

definition in_crit :: "local \<Rightarrow> bool" where
  "in_crit l =
     (case pc l of C_Shm \<Rightarrow> True | C_Unlock \<Rightarrow> True | J_Inc \<Rightarrow> True | J_Unlock \<Rightarrow> True
      | P_Read \<Rightarrow> True | P_Unlock \<Rightarrow> True | W_Body \<Rightarrow> True | W_Unlock \<Rightarrow> True | S_Read \<Rightarrow> True
      | S_Unlock \<Rightarrow> True | D_Body \<Rightarrow> True | D_Unlock \<Rightarrow> True | AbortedLocked \<Rightarrow> True | _ \<Rightarrow> False)"

definition before_shm :: "local \<Rightarrow> bool" where
  "before_shm l =
     (case pc l of C_SemOpen \<Rightarrow> True | C_Lock \<Rightarrow> True | C_Shm \<Rightarrow> True | Aborted \<Rightarrow> True
      | AbortedLocked \<Rightarrow> True | _ \<Rightarrow> False)"

definition before_join :: "local \<Rightarrow> bool" where
  "before_join l =
     (case pc l of C_SemOpen \<Rightarrow> True | C_Lock \<Rightarrow> True | C_Shm \<Rightarrow> True | Aborted \<Rightarrow> True
      | AbortedLocked \<Rightarrow> True | C_Unlock \<Rightarrow> True | J_Lock \<Rightarrow> True | J_Inc \<Rightarrow> True | _ \<Rightarrow> False)"

definition is_user :: "local \<Rightarrow> bool" where
  "is_user l =
     (case pc l of D_Unlock \<Rightarrow> False | D_Close \<Rightarrow> False | Done \<Rightarrow> False | _ \<Rightarrow> \<not> before_join l)"

definition constructed :: "local \<Rightarrow> bool" where
  "constructed l =
     (case stage_of (pc l) of Client \<Rightarrow> True | Waiting \<Rightarrow> True | Destroying \<Rightarrow> True
      | Stopped \<Rightarrow> pc l = Done | Constructing \<Rightarrow> pc l = P_Unlock \<and> all_users_joined l)"

lemmas class_defs = in_crit_def before_shm_def before_join_def is_user_def
  constructed_def arrived_def arrivals_def

section \<open>Mutual exclusion\<close>

definition lock_inv :: "nat \<Rightarrow> sys \<Rightarrow> bool" where
  "lock_inv N s \<longleftrightarrow>
     (case sem (shd s) of
        None \<Rightarrow> \<forall>p<N. pc (procs s p) \<in> {C_SemOpen, Aborted}
      | Some v \<Rightarrow> v + cnt N in_crit (procs s) = 1)"

lemma lock_inv_step:
  assumes p: "p < N" and step: "proc_step n K ok (shd s) (procs s p) = Some (sh', l')"
    and inv: "lock_inv N s"
  shows "lock_inv N \<lparr>shd = sh', procs = (procs s)(p := l')\<rparr>"
proof (cases "sem (shd s)")
  case None
  then have all: "\<forall>q<N. pc (procs s q) \<in> {C_SemOpen, Aborted}"
    using inv by (simp add: lock_inv_def)
  then have pcp: "pc (procs s p) = C_SemOpen \<or> pc (procs s p) = Aborted" using p by simp
  have zero: "cnt N in_crit (procs s) = 0"
    using all by (auto simp: cnt_0_iff in_crit_def)
  show ?thesis
    using pcp
  proof
    assume c: "pc (procs s p) = C_SemOpen"
    show ?thesis
    proof (cases ok)
      case True
      have l': "l' = (procs s p)\<lparr>pc := C_Lock\<rparr>" and sh': "sem sh' = Some 1"
        using step c None True by (auto simp: proc_step_eqs split: if_splits)
      have "cnt N in_crit ((procs s)(p := l')) = cnt N in_crit (procs s)"
        by (rule cnt_upd_same [OF p]) (simp add: l' c in_crit_def)
      then show ?thesis using zero sh' by (simp add: lock_inv_def)
    next
      case False
      have "l' = (procs s p)\<lparr>pc := Aborted\<rparr>" and "sh' = shd s"
        using step c None False by (auto simp: proc_step_eqs split: if_splits)
      then show ?thesis using all None by (auto simp: lock_inv_def)
    qed
  next
    assume "pc (procs s p) = Aborted"
    then show ?thesis using step by (simp add: proc_step_eqs)
  qed
next
  case (Some v)
  then have one: "v + cnt N in_crit (procs s) = 1" using inv by (simp add: lock_inv_def)
  obtain v' where v': "sem sh' = Some v'"
    and delta: "v' + of_bool (in_crit l') = v + of_bool (in_crit (procs s p))"
    using step Some
    by (cases "pc (procs s p)") (auto simp: proc_step_eqs in_crit_def split: if_splits)
  have "cnt N in_crit ((procs s)(p := l')) + of_bool (in_crit (procs s p)) =
        cnt N in_crit (procs s) + of_bool (in_crit l')"
    by (rule cnt_upd [OF p])
  then show ?thesis using v' delta one by (simp add: lock_inv_def)
qed

lemma lock_inv_reachable: "reachable N K s \<Longrightarrow> lock_inv N s"
  unfolding reachable_def
proof (induction rule: rtranclp_induct)
  case base
  show ?case by (simp add: lock_inv_def init_sys_def init_local_def)
next
  case (step s t)
  from step.hyps(2) show ?case
    by (cases rule: bstep.cases) (auto intro: lock_inv_step step.IH)
qed

lemma crit_unique:
  assumes "lock_inv N s" "p < N" "q < N" "in_crit (procs s p)" "in_crit (procs s q)"
  shows "p = q"
proof (cases "sem (shd s)")
  case None
  then show ?thesis using assms by (auto simp: lock_inv_def in_crit_def)
next
  case (Some v)
  then have "cnt N in_crit (procs s) \<le> 1" using assms(1) by (simp add: lock_inv_def)
  then show ?thesis using assms(2-) by (rule cnt_1_unique)
qed

section \<open>Registration of the users\<close>

definition join_inv :: "nat \<Rightarrow> sys \<Rightarrow> bool" where
  "join_inv N s \<longleftrightarrow>
     (case shm (shd s) of
        None \<Rightarrow> \<forall>p<N. before_shm (procs s p)
      | Some d \<Rightarrow> unat (n_users d) = cnt N is_user (procs s))
     \<and> ((\<exists>p<N. constructed (procs s p)) \<or> \<not> linked (shd s) \<longrightarrow> (\<forall>q<N. \<not> before_join (procs s q)))"

lemma cnt_bound: "N < 2 ^ 64 \<Longrightarrow> cnt N P f < 2 ^ 64"
  using cnt_le [of N P f] by simp

lemma unat_of_nat_64: "N < 2 ^ 64 \<Longrightarrow> unat (of_nat N :: u64) = N"
  by (simp add: unat_of_nat)

lemma eq_of_nat_64_iff: "N < 2 ^ 64 \<Longrightarrow> (w :: u64) = of_nat N \<longleftrightarrow> unat w = N"
  using unsigned_word_eqI [of w "of_nat N"] by (auto simp: unat_of_nat_64)

lemma unat_succ_64: "unat (w :: u64) < N \<Longrightarrow> N < 2 ^ 64 \<Longrightarrow> unat (w + 1) = Suc (unat w)"
  by (simp add: unat_word_ariths)

lemma unat_pred_64: "0 < unat (w :: u64) \<Longrightarrow> unat (w - 1) = unat w - 1"
  by (metis less_numeral_extra(3) unat_eq_zero unat_minus_one)

lemma is_user_not_before: "is_user l \<Longrightarrow> \<not> before_join l"
  by (cases "pc l") (simp_all add: is_user_def before_join_def)

lemma before_shm_join: "before_shm l \<Longrightarrow> before_join l"
  by (cases "pc l") (simp_all add: before_shm_def before_join_def)

lemma all_users_all_joined:
  assumes "N \<le> cnt N is_user f" and "q < N"
  shows "\<not> before_join (f q)"
proof -
  have "cnt N is_user f = N" using assms(1) cnt_le [of N is_user f] by simp
  then have "\<forall>p<N. is_user (f p)" by (simp only: cnt_all_iff)
  with assms(2) show ?thesis by (simp add: is_user_not_before)
qed

lemma cnt_less: "p < n \<Longrightarrow> \<not> P (f p) \<Longrightarrow> cnt n P f < n"
  using cnt_le [of n P f] cnt_all_iff [of n P f] by fastforce

text \<open>How one step changes the shared memory, the class of the process and the links.\<close>

lemma users_step:
  assumes step: "proc_step n K ok sh l = Some (sh', l')" and shm: "shm sh = Some d"
  shows "\<exists>d'. shm sh' = Some d' \<and>
     (if pc l = J_Inc then n_users d' = n_users d + 1 \<and> \<not> is_user l \<and> is_user l'
      else if pc l = D_Body then n_users d' = n_users d - 1 \<and> is_user l \<and> \<not> is_user l'
      else n_users d' = n_users d \<and> is_user l' = is_user l)"
  using step shm
  by (cases "pc l"; auto simp: proc_step_eqs is_user_def before_join_def split: if_splits)

lemma join_monotone:
  assumes "proc_step n K ok sh l = Some (sh', l')" and "\<not> before_join l"
  shows "\<not> before_join l'"
  using assms by (cases "pc l"; auto simp: proc_step_eqs before_join_def split: if_splits)

lemma constructed_origin:
  assumes "proc_step n K ok sh l = Some (sh', l')" and "constructed l'" and "\<not> constructed l"
  shows "pc l = P_Read \<and> (\<exists>d. shm sh = Some d \<and> n \<le> n_users d)"
  using assms by (cases "pc l"; auto simp: proc_step_eqs constructed_def split: if_splits)

lemma unlink_origin:
  assumes "proc_step n K ok sh l = Some (sh', l')" and "linked sh" and "\<not> linked sh'"
  shows "pc l = D_Close"
  using assms by (cases "pc l"; auto simp: proc_step_eqs split: if_splits)

lemma shm_origin:
  assumes "proc_step n K ok sh l = Some (sh', l')" and "shm sh = None" and "before_shm l"
  shows "(shm sh' = None \<and> before_shm l') \<or>
     (shm sh' = Some \<lparr>arrived_count = 0, shared_sense = False, n_users = 0\<rparr> \<and> pc l = C_Shm
      \<and> pc l' = C_Unlock \<and> waits l' = waits l)"
  using assms by (cases "pc l"; auto simp: proc_step_eqs before_shm_def split: if_splits)

lemma join_inv_step:
  assumes p: "p < N" and N: "N < 2 ^ 64"
    and step: "proc_step (of_nat N) K ok (shd s) (procs s p) = Some (sh', l')"
    and inv: "join_inv N s"
  shows "join_inv N \<lparr>shd = sh', procs = (procs s)(p := l')\<rparr>"
proof (cases "shm (shd s)")
  case None
  then have bs: "\<forall>q<N. before_shm (procs s q)"
    using inv by (simp add: join_inv_def)
  then have bj: "before_join (procs s q)" if "q < N" for q
    using that before_shm_join by blast
  then have lk: "linked (shd s)" using inv p by (auto simp: join_inv_def)
  have nc: "\<not> constructed (procs s q)" if "q < N" for q
    using inv bj that by (auto simp: join_inv_def)
  have nc': "\<not> constructed l'" using constructed_origin [OF step] nc [OF p] None by auto
  have lk': "linked sh'"
  proof (rule ccontr)
    assume "\<not> linked sh'"
    then have "pc (procs s p) = D_Close" using unlink_origin [OF step lk] by simp
    then show False using bj [OF p] by (simp add: before_join_def)
  qed
  have bsp: "before_shm (procs s p)" using bs p by blast
  consider "shm sh' = None" "before_shm l'"
    | "shm sh' = Some \<lparr>arrived_count = 0, shared_sense = False, n_users = 0\<rparr>" "pc l' = C_Unlock"
    using shm_origin [OF step None bsp] by (elim disjE conjE)
  then show ?thesis
  proof cases
    case 1
    then show ?thesis using bs nc nc' lk' by (auto simp: join_inv_def)
  next
    case 2
    have "\<not> is_user l'" using 2(2) by (simp add: is_user_def before_join_def)
    moreover have "\<not> is_user (procs s q)" if "q < N" for q
      using bj [OF that] is_user_not_before by blast
    ultimately have "cnt N is_user ((procs s)(p := l')) = 0" by (simp add: cnt_0_iff)
    then show ?thesis using 2 nc nc' lk' by (auto simp: join_inv_def)
  qed
next
  case (Some d)
  let ?f = "(procs s)(p := l')"
  have cnt: "unat (n_users d) = cnt N is_user (procs s)"
    and all: "(\<exists>q<N. constructed (procs s q)) \<or> \<not> linked (shd s) \<Longrightarrow> \<forall>q<N. \<not> before_join (procs s q)"
    using inv Some by (auto simp: join_inv_def)
  obtain d' where d': "shm sh' = Some d'" and cases:
    "if pc (procs s p) = J_Inc then n_users d' = n_users d + 1 \<and> \<not> is_user (procs s p) \<and> is_user l'
     else if pc (procs s p) = D_Body then n_users d' = n_users d - 1 \<and> is_user (procs s p) \<and> \<not> is_user l'
     else n_users d' = n_users d \<and> is_user l' = is_user (procs s p)"
    using users_step [OF step Some] by blast
  have cnt': "unat (n_users d') = cnt N is_user ?f"
  proof -
    consider (inc) "n_users d' = n_users d + 1" "\<not> is_user (procs s p)" "is_user l'"
      | (dec) "n_users d' = n_users d - 1" "is_user (procs s p)" "\<not> is_user l'"
      | (same) "n_users d' = n_users d" "is_user l' = is_user (procs s p)"
      using cases by (auto split: if_splits)
    then show ?thesis
    proof cases
      case inc
      have "unat (n_users d) < N" using cnt cnt_less [of p N is_user "procs s"] p inc(2) by simp
      then show ?thesis using inc cnt N by (simp add: unat_succ_64 cnt_upd_inc [OF p])
    next
      case dec
      have "0 < unat (n_users d)" using cnt cnt_pos [of p N is_user "procs s"] p dec(2) by simp
      then have "unat (n_users d - 1) = unat (n_users d) - 1" by (rule unat_pred_64)
      then show ?thesis using dec cnt cnt_upd_dec [OF p, of is_user "procs s" l'] by simp
    next
      case same
      then show ?thesis using cnt by (simp add: cnt_upd_same [OF p])
    qed
  qed
  have keep: "\<forall>q<N. \<not> before_join (?f q)" if "\<forall>q<N. \<not> before_join (procs s q)"
    using that p join_monotone [OF step] by simp
  have "\<forall>q<N. \<not> before_join (?f q)" if "(\<exists>q<N. constructed (?f q)) \<or> \<not> linked sh'"
  proof -
    have "\<forall>q<N. \<not> before_join (procs s q)"
    proof (cases "(\<exists>q<N. constructed (procs s q)) \<or> \<not> linked (shd s)")
      case False
      have "\<not> linked sh' \<Longrightarrow> constructed (procs s p)"
        using unlink_origin [OF step] False by (auto simp: constructed_def)
      then have "linked sh'" using False p by blast
      then have "constructed l'" "\<not> constructed (procs s p)"
        using that False p by (auto split: if_splits)
      then have "of_nat N \<le> n_users d" using constructed_origin [OF step] Some by auto
      then have "N \<le> cnt N is_user (procs s)"
        using cnt N by (simp add: word_le_nat_alt unat_of_nat_64)
      then show ?thesis using all_users_all_joined by blast
    qed (rule all)
    then show ?thesis by (rule keep)
  qed
  then show ?thesis using d' cnt' by (auto simp: join_inv_def)
qed

lemma join_inv_reachable: "reachable N K s \<Longrightarrow> N < 2 ^ 64 \<Longrightarrow> join_inv N s"
  unfolding reachable_def
proof (induction rule: rtranclp_induct)
  case base
  show ?case
    by (simp add: join_inv_def init_sys_def init_local_def before_shm_def constructed_def)
next
  case (step s t)
  from step.hyps(2) show ?case
    by (cases rule: bstep.cases) (auto intro: join_inv_step step.IH step.prems)
qed

section \<open>Generations\<close>

definition phase_ok :: "nat \<Rightarrow> nat \<Rightarrow> local \<Rightarrow> bool" where
  "phase_ok K G l \<longleftrightarrow>
     sense l = even (waits l) \<and>
     (case pc l of
        Work \<Rightarrow> waits l = G \<and> waits l \<le> K
      | W_Lock \<Rightarrow> waits l = G \<and> waits l < K
      | W_Body \<Rightarrow> waits l = G \<and> waits l < K \<and> \<not> last_user l
      | W_Unlock \<Rightarrow> waits l < K \<and> (Suc (waits l) = G \<or> (\<not> last_user l \<and> waits l = G))
      | S_Lock \<Rightarrow> waits l < K \<and> (Suc (waits l) = G \<or> waits l = G)
      | S_Read \<Rightarrow> waits l < K \<and> (Suc (waits l) = G \<or> waits l = G)
      | S_Unlock \<Rightarrow> waits l < K \<and> (Suc (waits l) = G \<or> (reversed l \<and> waits l = G))
      | W_Flip \<Rightarrow> waits l < K \<and> Suc (waits l) = G
      | D_Lock \<Rightarrow> waits l = G \<and> G = K
      | D_Body \<Rightarrow> waits l = G \<and> G = K
      | D_Unlock \<Rightarrow> waits l = G \<and> G = K
      | D_Close \<Rightarrow> waits l = G \<and> G = K
      | Done \<Rightarrow> waits l = G \<and> G = K
      | _ \<Rightarrow> waits l = 0 \<and> G = 0)"

definition arrived_in :: "nat \<Rightarrow> local \<Rightarrow> bool" where
  "arrived_in g l \<longleftrightarrow> arrivals l = Suc g"

definition gen_inv :: "nat \<Rightarrow> nat \<Rightarrow> nat \<Rightarrow> sys \<Rightarrow> bool" where
  "gen_inv N K G s \<longleftrightarrow>
     (\<forall>p<N. phase_ok K G (procs s p)) \<and>
     (case shm (shd s) of
        None \<Rightarrow> \<forall>p<N. before_shm (procs s p)
      | Some d \<Rightarrow> shared_sense d = odd G
                 \<and> unat (arrived_count d) = cnt N (arrived_in G) (procs s)
                 \<and> unat (arrived_count d) < N)"

lemma phase_ok_arrivals: "phase_ok K G l \<Longrightarrow> arrivals l = G \<or> arrivals l = Suc G"
  by (cases "pc l") (auto simp: phase_ok_def arrivals_def arrived_def)

lemma phase_ok_next:
  "phase_ok K G l \<Longrightarrow> arrivals l = Suc G \<Longrightarrow> phase_ok K (Suc G) l"
  by (cases "pc l") (auto simp: phase_ok_def arrivals_def arrived_def)

text \<open>Every step but an arrival keeps the generation, the count and the class of the process.\<close>

lemma other_step_shm:
  assumes "proc_step n K ok sh l = Some (sh', l')" and "pc l \<noteq> W_Body" and "shm sh = Some d"
  shows "\<exists>d'. shm sh' = Some d' \<and> shared_sense d' = shared_sense d
           \<and> arrived_count d' = arrived_count d"
  using assms by (cases "pc l"; auto simp: proc_step_eqs split: if_splits)

lemma other_step_arrivals:
  assumes "proc_step n K ok sh l = Some (sh', l')" and "pc l \<noteq> W_Body"
  shows "arrivals l' = arrivals l"
  using assms by (cases "pc l"; auto simp: proc_step_eqs arrivals_def arrived_def split: if_splits)

lemma read_step_phase:
  assumes "proc_step n K ok sh l = Some (sh', l')" and pc: "pc l = S_Read"
    and "phase_ok K G l" and "shm sh = Some d" "shared_sense d = odd G"
  shows "phase_ok K G l'"
proof -
  have l': "l' = l\<lparr>reversed := (odd G \<noteq> sense l), pc := S_Unlock\<rparr>"
    using assms by (auto simp: proc_step_eqs)
  have "sense l = even (waits l)" "waits l < K" "Suc (waits l) = G \<or> waits l = G"
    using assms(3) pc by (simp_all add: phase_ok_def)
  then show ?thesis by (auto simp: l' phase_ok_def)
qed

lemma other_step_phase:
  assumes "proc_step n K ok sh l = Some (sh', l')" and "pc l \<noteq> W_Body" "pc l \<noteq> S_Read"
    and "phase_ok K G l"
  shows "phase_ok K G l'"
  using assms by (cases "pc l"; auto simp: proc_step_eqs phase_ok_def split: if_splits)

lemma other_step:
  assumes "proc_step n K ok sh l = Some (sh', l')" and "pc l \<noteq> W_Body"
    and "phase_ok K G l" and "shm sh = Some d" "shared_sense d = odd G"
  shows "phase_ok K G l' \<and> arrivals l' = arrivals l \<and>
     (\<exists>d'. shm sh' = Some d' \<and> shared_sense d' = shared_sense d
          \<and> arrived_count d' = arrived_count d)"
  using read_step_phase [OF assms(1) _ assms(3-5)] other_step_phase [OF assms(1,2) _ assms(3)]
    other_step_arrivals [OF assms(1,2)] other_step_shm [OF assms(1,2,4)] by blast

lemma early_step:
  assumes "proc_step n K ok sh l = Some (sh', l')" and "shm sh = None" and "before_shm l"
    and "phase_ok K G l"
  shows "phase_ok K G l' \<and> arrivals l' = 0 \<and> G = 0"
  using assms
  by (cases "pc l"; auto simp: proc_step_eqs phase_ok_def arrivals_def arrived_def before_shm_def
      split: if_splits)

lemma arrival_step:
  assumes "proc_step n K ok sh l = Some (sh', l')" and "pc l = W_Body" and "shm sh = Some d"
  shows "if arrived_count d + 1 = n
         then shm sh' = Some (d\<lparr>shared_sense := \<not> shared_sense d, arrived_count := 0\<rparr>)
              \<and> l' = l\<lparr>last_user := True, pc := W_Unlock\<rparr>
         else shm sh' = Some (d\<lparr>arrived_count := arrived_count d + 1\<rparr>) \<and> l' = l\<lparr>pc := W_Unlock\<rparr>"
  using assms by (auto simp: proc_step_eqs split: if_splits)

lemma gen_inv_arrival:
  assumes p: "p < N" and N: "N < 2 ^ 64"
    and step: "proc_step (of_nat N) K ok (shd s) (procs s p) = Some (sh', l')"
    and body: "pc (procs s p) = W_Body" and shm: "shm (shd s) = Some d"
    and inv: "gen_inv N K G s"
  shows "\<exists>G'. gen_inv N K G' \<lparr>shd = sh', procs = (procs s)(p := l')\<rparr>"
proof -
  let ?f = "(procs s)(p := l')"
  have ph: "phase_ok K G (procs s q)" if "q < N" for q
    using inv that by (simp add: gen_inv_def)
  have sns: "shared_sense d = odd G" and cnt: "unat (arrived_count d) = cnt N (arrived_in G) (procs s)"
    and less: "unat (arrived_count d) < N"
    using inv shm by (simp_all add: gen_inv_def)
  have wp: "waits (procs s p) = G" "waits (procs s p) < K" "sense (procs s p) = even G"
    using ph [OF p] body by (auto simp: phase_ok_def)
  have not_p: "\<not> arrived_in G (procs s p)"
    using wp(1) body by (simp add: arrived_in_def arrivals_def arrived_def)
  have succ: "unat (arrived_count d + 1) = Suc (unat (arrived_count d))"
    using less N by (rule unat_succ_64)
  have eqN: "arrived_count d + 1 = of_nat N \<longleftrightarrow> Suc (unat (arrived_count d)) = N"
    using succ N by (simp add: eq_of_nat_64_iff)
  show ?thesis
  proof (cases "arrived_count d + 1 = of_nat N")
    case False
    then have sh': "shm sh' = Some (d\<lparr>arrived_count := arrived_count d + 1\<rparr>)"
      and l': "l' = (procs s p)\<lparr>pc := W_Unlock\<rparr>"
      using arrival_step [OF step body shm] by simp_all
    have in_p: "arrived_in G l'"
      using wp(1) by (simp add: l' arrived_in_def arrivals_def arrived_def)
    have "phase_ok K G l'"
      using ph [OF p] body by (simp add: l' phase_ok_def)
    moreover have "cnt N (arrived_in G) ?f = Suc (cnt N (arrived_in G) (procs s))"
      by (rule cnt_upd_inc [OF p]) (use not_p in_p in auto)
    ultimately have "gen_inv N K G \<lparr>shd = sh', procs = ?f\<rparr>"
      using False ph sh' sns cnt succ less eqN by (simp add: gen_inv_def)
    then show ?thesis by blast
  next
    case True
    then have sh': "shm sh' = Some (d\<lparr>shared_sense := \<not> shared_sense d, arrived_count := 0\<rparr>)"
      and l': "l' = (procs s p)\<lparr>last_user := True, pc := W_Unlock\<rparr>"
      using arrival_step [OF step body shm] by simp_all
    have "cnt N (arrived_in G) ?f = Suc (cnt N (arrived_in G) (procs s))"
      by (rule cnt_upd_inc [OF p])
        (use not_p wp(1) in \<open>simp_all add: l' arrived_in_def arrivals_def arrived_def\<close>)
    then have "cnt N (arrived_in G) ?f = N" using True eqN cnt by simp
    then have all: "arrivals (?f q) = Suc G" if "q < N" for q
      using that by (simp only: cnt_all_iff arrived_in_def)
    have "phase_ok K (Suc G) (?f q)" if q: "q < N" for q
    proof (cases "q = p")
      case True
      then show ?thesis using wp by (simp add: l' phase_ok_def)
    next
      case False
      then show ?thesis using phase_ok_next [OF ph [OF q]] all [OF q] by simp
    qed
    moreover have "cnt N (arrived_in (Suc G)) ?f = 0"
      using all by (simp add: cnt_0_iff arrived_in_def)
    ultimately have "gen_inv N K (Suc G) \<lparr>shd = sh', procs = ?f\<rparr>"
      using sh' sns p by (simp add: gen_inv_def)
    then show ?thesis by blast
  qed
qed

lemma gen_inv_early:
  assumes p: "p < N"
    and step: "proc_step n K ok (shd s) (procs s p) = Some (sh', l')"
    and none: "shm (shd s) = None" and inv: "gen_inv N K G s"
  shows "gen_inv N K G \<lparr>shd = sh', procs = (procs s)(p := l')\<rparr>"
proof -
  let ?f = "(procs s)(p := l')"
  have bs: "before_shm (procs s q)" and ph: "phase_ok K G (procs s q)" if "q < N" for q
    using inv none that by (simp_all add: gen_inv_def)
  have ph': "phase_ok K G l'" and a': "arrivals l' = 0" and G: "G = 0"
    using early_step [OF step none bs [OF p] ph [OF p]] by auto
  have "arrivals (procs s q) = 0" if "q < N" for q
    using ph [OF that] bs [OF that]
    by (cases "pc (procs s q)") (auto simp: phase_ok_def arrivals_def arrived_def before_shm_def)
  then have zero: "cnt N (arrived_in G) ?f = 0"
    using a' G by (simp add: cnt_0_iff arrived_in_def)
  consider "shm sh' = None" "before_shm l'"
    | "shm sh' = Some \<lparr>arrived_count = 0, shared_sense = False, n_users = 0\<rparr>"
    using shm_origin [OF step none bs [OF p]] by (elim disjE conjE)
  then show ?thesis
  proof cases
    case 1
    then show ?thesis using bs ph ph' by (simp add: gen_inv_def)
  next
    case 2
    then show ?thesis using ph ph' zero G p by (simp add: gen_inv_def)
  qed
qed

lemma gen_inv_step:
  assumes p: "p < N" and N: "N < 2 ^ 64"
    and step: "proc_step (of_nat N) K ok (shd s) (procs s p) = Some (sh', l')"
    and inv: "gen_inv N K G s"
  shows "\<exists>G'. gen_inv N K G' \<lparr>shd = sh', procs = (procs s)(p := l')\<rparr>"
proof (cases "shm (shd s)")
  case None
  then show ?thesis using gen_inv_early [OF p step None inv] by blast
next
  case (Some d)
  show ?thesis
  proof (cases "pc (procs s p) = W_Body")
    case True
    then show ?thesis using gen_inv_arrival [OF p N step True Some inv] by blast
  next
    case False
    have ph: "phase_ok K G (procs s q)" if "q < N" for q
      using inv that by (simp add: gen_inv_def)
    have d: "shared_sense d = odd G" "unat (arrived_count d) = cnt N (arrived_in G) (procs s)"
      "unat (arrived_count d) < N"
      using inv Some by (simp_all add: gen_inv_def)
    have l': "phase_ok K G l'" and a': "arrivals l' = arrivals (procs s p)"
      using other_step [OF step False ph [OF p] Some d(1)] by auto
    obtain d' where d': "shm sh' = Some d'" "shared_sense d' = shared_sense d"
      "arrived_count d' = arrived_count d"
      using other_step_shm [OF step False Some] by blast
    have "cnt N (arrived_in G) ((procs s)(p := l')) = cnt N (arrived_in G) (procs s)"
      by (rule cnt_upd_same [OF p]) (simp add: arrived_in_def a')
    then have "gen_inv N K G \<lparr>shd = sh', procs = (procs s)(p := l')\<rparr>"
      using ph l' d d' by (simp add: gen_inv_def)
    then show ?thesis by blast
  qed
qed

lemma gen_inv_reachable: "reachable N K s \<Longrightarrow> N < 2 ^ 64 \<Longrightarrow> \<exists>G. gen_inv N K G s"
  unfolding reachable_def
proof (induction rule: rtranclp_induct)
  case base
  have "gen_inv N K 0 init_sys"
    by (simp add: gen_inv_def init_sys_def init_local_def phase_ok_def before_shm_def)
  then show ?case by blast
next
  case (step s t)
  then obtain G where "gen_inv N K G s" by blast
  from step.hyps(2) this step.prems show ?case
    by (cases rule: bstep.cases) (blast dest: gen_inv_step)
qed

section \<open>The barrier implements the abstract barrier\<close>

lemma step_counters:
  assumes "proc_step n K ok sh l = Some (sh', l')" and "phase_ok K G l"
  shows "if pc l = W_Body then waits l' = waits l \<and> arrivals l = waits l \<and> arrivals l' = Suc (waits l)
         else if pc l = W_Flip then waits l' = Suc (waits l) \<and> arrivals l = Suc (waits l)
              \<and> arrivals l' = Suc (waits l) \<and> Suc (waits l) = G
         else waits l' = waits l \<and> arrivals l' = arrivals l"
  using assms
  by (cases "pc l"; auto simp: proc_step_eqs phase_ok_def arrivals_def arrived_def split: if_splits)

lemma barrier_sync_step:
  assumes reach: "reachable N K s" and N: "N < 2 ^ 64" and step: "bstep N K s t"
  shows "sync_step N (entered_rounds s, left_rounds s) (entered_rounds t, left_rounds t)"
  using step
proof cases
  case (move p ok sh' l')
  obtain G where inv: "gen_inv N K G s" using gen_inv_reachable [OF reach N] by blast
  have ph: "phase_ok K G (procs s q)" if "q < N" for q using inv that by (simp add: gen_inv_def)
  note c = step_counters [OF move(3) ph [OF move(2)]]
  have ent: "entered_rounds t = (entered_rounds s)(p := arrivals l')"
    and lft: "left_rounds t = (left_rounds s)(p := waits l')"
    by (auto simp: move(1) entered_rounds_def left_rounds_def)
  consider (enter) "waits l' = waits (procs s p)" "arrivals (procs s p) = waits (procs s p)"
      "arrivals l' = Suc (waits (procs s p))"
    | (leave) "waits l' = Suc (waits (procs s p))" "arrivals (procs s p) = Suc (waits (procs s p))"
      "arrivals l' = Suc (waits (procs s p))" "Suc (waits (procs s p)) = G"
    | (stutter) "waits l' = waits (procs s p)" "arrivals l' = arrivals (procs s p)"
    using c by (auto split: if_splits)
  then show ?thesis
  proof cases
    case enter
    have "left_rounds t = left_rounds s" using enter by (auto simp: lft left_rounds_def)
    moreover have "entered_rounds t = (entered_rounds s)(p := Suc (entered_rounds s p))"
      using enter by (simp add: ent entered_rounds_def)
    moreover have "entered_rounds s p = left_rounds s p"
      using enter by (simp add: entered_rounds_def left_rounds_def)
    ultimately show ?thesis using sync_step.enter [OF move(2)] by simp
  next
    case leave
    have "entered_rounds t = entered_rounds s" using leave by (auto simp: ent entered_rounds_def)
    moreover have "left_rounds t = (left_rounds s)(p := Suc (left_rounds s p))"
      using leave by (simp add: lft left_rounds_def)
    moreover have "entered_rounds s p = Suc (left_rounds s p)"
      using leave by (simp add: entered_rounds_def left_rounds_def)
    moreover have "\<forall>q<N. entered_rounds s p \<le> entered_rounds s q"
      using leave phase_ok_arrivals [OF ph] by (fastforce simp: entered_rounds_def)
    ultimately show ?thesis using sync_step.leave [OF move(2)] by simp
  next
    case stutter
    have "entered_rounds t = entered_rounds s" "left_rounds t = left_rounds s"
      using stutter by (auto simp: ent lft entered_rounds_def left_rounds_def)
    then show ?thesis by (simp add: sync_step.stutter)
  qed
qed

lemma barrier_phase_sync:
  "N < 2 ^ 64 \<Longrightarrow> phase_sync N init_sys (bstep N K) entered_rounds left_rounds"
proof
  fix p
  show "entered_rounds init_sys p = 0" "left_rounds init_sys p = 0"
    by (simp_all add: entered_rounds_def left_rounds_def init_sys_def init_local_def
        arrivals_def arrived_def)
next
  fix s t
  assume "N < 2 ^ 64" "rtranclp (bstep N K) init_sys s" "bstep N K s t"
  then show "sync_step N (entered_rounds s, left_rounds s) (entered_rounds t, left_rounds t)"
    by (intro barrier_sync_step) (simp_all add: reachable_def)
qed

text \<open>Every benchmark of the program synchronises two processes.\<close>

interpretation pair: phase_sync 2 init_sys "bstep 2 K" entered_rounds left_rounds for K
  by (rule barrier_phase_sync) simp

section \<open>Executing a schedule\<close>

text \<open>Runs the processes in the given order, each kernel call succeeding.\<close>

fun run_schedule :: "nat \<Rightarrow> nat \<Rightarrow> nat list \<Rightarrow> sys \<Rightarrow> sys option" where
  "run_schedule N K [] s = Some s"
| "run_schedule N K (p # ps) s =
     (if p < N then
        (case proc_step (of_nat N) K True (shd s) (procs s p) of
           Some (sh', l') \<Rightarrow> run_schedule N K ps \<lparr>shd = sh', procs = (procs s)(p := l')\<rparr>
         | None \<Rightarrow> None)
      else None)"

lemma run_schedule_steps: "run_schedule N K ps s = Some t \<Longrightarrow> rtranclp (bstep N K) s t"
proof (induction ps arbitrary: s)
  case (Cons p ps)
  then obtain sh' l' where "p < N" "proc_step (of_nat N) K True (shd s) (procs s p) = Some (sh', l')"
    and rest: "run_schedule N K ps \<lparr>shd = sh', procs = (procs s)(p := l')\<rparr> = Some t"
    by (auto split: if_splits option.splits)
  then have "bstep N K s \<lparr>shd = sh', procs = (procs s)(p := l')\<rparr>" by (blast intro: bstep.move)
  then show ?case using Cons.IH [OF rest] by (rule converse_rtranclp_into_rtranclp)
qed simp

lemma run_schedule_reachable: "run_schedule N K ps init_sys = Some t \<Longrightarrow> reachable N K t"
  unfolding reachable_def by (rule run_schedule_steps)

text \<open>Both processes through construction; then each through one round.\<close>

definition construct_both :: "nat list" where
  "construct_both = replicate 7 0 @ replicate 7 1 @ replicate 3 0 @ replicate 3 1"

definition sample_run :: "nat \<Rightarrow> nat \<Rightarrow> nat list \<Rightarrow> sys" where
  "sample_run N K ps = (case run_schedule N K ps init_sys of Some s \<Rightarrow> s | None \<Rightarrow> init_sys)"

lemma sample_run_reachable: "reachable N K (sample_run N K ps)"
  using run_schedule_reachable [of N K ps]
  by (auto simp: sample_run_def reachable_def split: option.split)

section \<open>Properties of the barrier\<close>

text \<open>
  C3 (safety). Mutual exclusion: in every reachable state of any number of processes, at most one
  is inside a critical section that the barrier's semaphore protects (the bodies of the
  constructor, of \<^verbatim>\<open>Wait\<close>, of its spin loop and of the destructor), including processes that
  aborted there.
\<close>

theorem barrier_mutual_exclusion:
  assumes "reachable N K s" and "p < N" and "q < N"
    and "in_crit (procs s p)" and "in_crit (procs s q)"
  shows "p = q"
  using crit_unique [OF lock_inv_reachable [OF assms(1)] assms(2-5)] .

theorem barrier_mutual_exclusion_witness:
  "in_crit (procs (sample_run 3 1 [2, 0, 2, 1]) 2)
   \<and> \<not> in_crit (procs (sample_run 3 1 [2, 0, 2, 1]) 0)
   \<and> \<not> in_crit (procs (sample_run 3 1 [2, 0, 2, 1]) 1)"
proof -
  have c: "in_crit (procs (sample_run 3 1 [2, 0, 2, 1]) 2)" by code_simp
  note excl = barrier_mutual_exclusion [OF sample_run_reachable [of 3 1 "[2, 0, 2, 1]"], where q = 2]
  show ?thesis
    using c excl [where p = 0] excl [where p = 1] by auto
qed

text \<open>
  C4 (safety). The constructor waits for everybody: when it has returned in some process (or the
  names are removed), every one of the \<open>N\<close> processes has mapped the initialised shared memory
  and registered as a user; in particular nobody re-creates the objects afterwards.
\<close>

theorem barrier_constructor_waits_for_all:
  assumes "reachable N K s" and "N < 2 ^ 64"
    and "(p < N \<and> constructed (procs s p)) \<or> \<not> linked (shd s)" and "q < N"
  shows "\<not> before_join (procs s q) \<and> shm (shd s) \<noteq> None"
proof -
  have inv: "join_inv N s" by (rule join_inv_reachable [OF assms(1,2)])
  then have q: "\<not> before_join (procs s q)" using assms(3,4) by (auto simp: join_inv_def)
  moreover have "shm (shd s) \<noteq> None"
  proof
    assume "shm (shd s) = None"
    then have "before_shm (procs s q)" using inv assms(4) by (simp add: join_inv_def)
    with q show False using before_shm_join by blast
  qed
  ultimately show ?thesis by blast
qed

theorem barrier_constructor_waits_for_all_witness:
  "constructed (procs (sample_run 2 1 construct_both) 0)
   \<and> \<not> before_join (procs (sample_run 2 1 construct_both) 1)"
proof -
  have c: "constructed (procs (sample_run 2 1 construct_both) 0)" by code_simp
  then show ?thesis
    using barrier_constructor_waits_for_all [OF sample_run_reachable, of 2 0 1 construct_both 1] by simp
qed

text \<open>
  C2 (refinement). Every step of the semaphore-and-sense implementation is a step of the abstract
  barrier on the arrival and completion counters of the processes, or does not change them: an
  arrival happens from outside the barrier, and a completion happens only when every process has
  arrived in that round.
\<close>

theorem barrier_refines_abstract:
  assumes "reachable N K s" and "N < 2 ^ 64" and "bstep N K s t"
  shows "sync_step N (entered_rounds s, left_rounds s) (entered_rounds t, left_rounds t)"
  using assms by (rule barrier_sync_step)

theorem barrier_refines_abstract_witness:
  "sync_step 2 (entered_rounds init_sys, left_rounds init_sys)
     (entered_rounds \<lparr>shd = \<lparr>sem = Some 1, shm = None, linked = True\<rparr>,
        procs = (\<lambda>_. init_local)(1 := init_local\<lparr>pc := C_Lock\<rparr>)\<rparr>,
      left_rounds \<lparr>shd = \<lparr>sem = Some 1, shm = None, linked = True\<rparr>,
        procs = (\<lambda>_. init_local)(1 := init_local\<lparr>pc := C_Lock\<rparr>)\<rparr>)"
proof (rule barrier_refines_abstract [where K = 1])
  have "proc_step (of_nat 2) 1 True (shd init_sys) (procs init_sys 1) =
      Some (\<lparr>sem = Some 1, shm = None, linked = True\<rparr>, init_local\<lparr>pc := C_Lock\<rparr>)"
    by (simp add: proc_step_eqs init_sys_def init_local_def)
  then show "bstep 2 1 init_sys \<lparr>shd = \<lparr>sem = Some 1, shm = None, linked = True\<rparr>,
        procs = (\<lambda>_. init_local)(1 := init_local\<lparr>pc := C_Lock\<rparr>)\<rparr>"
    using bstep.move [of 1 2 1 True init_sys] by (simp add: init_sys_def)
qed (simp_all add: reachable_def)

text \<open>
  C1 (safety). The barrier guarantee, for any number of processes below \<open>2\<^sup>6\<^sup>4\<close>: a process that has
  completed \<open>k\<close> calls of \<^verbatim>\<open>Wait\<close> knows that every process has arrived in at least \<open>k\<close>
  rounds; no process is ever more than one round ahead of another; and two processes that are both
  between two calls have completed equally many.
\<close>

theorem barrier_guarantee:
  assumes "reachable N K s" and "N < 2 ^ 64" and "p < N" and "q < N"
  shows "left_rounds s p \<le> entered_rounds s q
    \<and> left_rounds s p \<le> Suc (left_rounds s q)
    \<and> (pc (procs s p) = Work \<and> pc (procs s q) = Work \<longrightarrow> left_rounds s p = left_rounds s q)"
proof -
  note sync = barrier_phase_sync [OF assms(2), of K]
  have r: "rtranclp (bstep N K) init_sys s" using assms(1) by (simp add: reachable_def)
  have out: "pc (procs s x) = Work \<Longrightarrow> entered_rounds s x = left_rounds s x" for x
    by (simp add: entered_rounds_def left_rounds_def arrivals_def arrived_def)
  show ?thesis
    using phase_sync.separation [OF sync r assms(3,4)] phase_sync.skew [OF sync r assms(3,4)]
      phase_sync.same_phase [OF sync r assms(3,4)] out by blast
qed

definition one_round :: "nat list" where
  "one_round = construct_both @ replicate 4 0 @ replicate 5 1 @ replicate 4 0"

theorem barrier_guarantee_witness:
  "pc (procs (sample_run 2 1 one_round) 0) = Work \<and> pc (procs (sample_run 2 1 one_round) 1) = Work
   \<and> left_rounds (sample_run 2 1 one_round) 0 = 1
   \<and> left_rounds (sample_run 2 1 one_round) 1 = 1"
proof -
  have pcs: "pc (procs (sample_run 2 1 one_round) 0) = Work"
    "pc (procs (sample_run 2 1 one_round) 1) = Work" by code_simp+
  have w: "left_rounds (sample_run 2 1 one_round) 0 = 1" by code_simp
  show ?thesis
    using barrier_guarantee [OF sample_run_reachable, of 2 0 1 1 one_round] pcs w by simp
qed

end
