(* ===== verification/Barrier_Liveness.thy ===== *)
theory Barrier_Liveness
  imports Barrier_Safety Progress
begin

text \<open>
  Progress of the barrier. The constructor and \<^verbatim>\<open>Wait\<close> poll, so a scheduler may starve a process
  for ever; what holds is that all processes can always be brought to the end, as long as the
  kernel refuses nothing and every process calls \<^verbatim>\<open>Wait\<close> at least once. The position of the
  processes (\<open>prim\<close>) and, within the two polling loops, the nearness to the next useful poll
  (\<open>poll\<close>) make a rank that some process can always increase.
\<close>

inductive good_step :: "nat \<Rightarrow> nat \<Rightarrow> sys \<Rightarrow> sys \<Rightarrow> bool" for N K where
  good: "p < N \<Longrightarrow> proc_step (of_nat N) K True (shd s) (procs s p) = Some (sh', l') \<Longrightarrow>
         good_step N K s \<lparr>shd = sh', procs = (procs s)(p := l')\<rparr>"

lemma good_bstep: "good_step N K s t \<Longrightarrow> bstep N K s t"
  by (auto elim!: good_step.cases intro: bstep.move)

definition alive :: "nat \<Rightarrow> sys \<Rightarrow> bool" where
  "alive N s \<longleftrightarrow> (\<forall>p<N. pc (procs s p) \<noteq> Aborted \<and> pc (procs s p) \<noteq> AbortedLocked)"

definition all_done :: "nat \<Rightarrow> sys \<Rightarrow> bool" where
  "all_done N s \<longleftrightarrow> (\<forall>p<N. pc (procs s p) = Done)"

section \<open>The rank\<close>

primrec pc_pos :: "pc \<Rightarrow> nat" where
  "pc_pos C_SemOpen = 0" | "pc_pos C_Lock = 1" | "pc_pos C_Shm = 2" | "pc_pos C_Unlock = 3"
| "pc_pos J_Lock = 4" | "pc_pos J_Inc = 5" | "pc_pos J_Unlock = 6"
| "pc_pos P_Lock = 7" | "pc_pos P_Read = 7" | "pc_pos P_Unlock = 7"
| "pc_pos Work = 8" | "pc_pos W_Lock = 9" | "pc_pos W_Body = 10" | "pc_pos W_Unlock = 11"
| "pc_pos S_Lock = 12" | "pc_pos S_Read = 12" | "pc_pos S_Unlock = 12" | "pc_pos W_Flip = 13"
| "pc_pos D_Lock = 9" | "pc_pos D_Body = 10" | "pc_pos D_Unlock = 11" | "pc_pos D_Close = 12"
| "pc_pos Done = 13" | "pc_pos Aborted = 0" | "pc_pos AbortedLocked = 0"

definition prim :: "local \<Rightarrow> nat" where
  "prim l = pc_pos (pc l) + 6 * waits l"

text \<open>Whether the next poll of the shared memory succeeds.\<close>

definition joined :: "nat \<Rightarrow> shm_data option \<Rightarrow> bool" where
  "joined N m \<longleftrightarrow> (case m of None \<Rightarrow> False | Some d \<Rightarrow> (of_nat N :: u64) \<le> n_users d)"

definition released :: "shm_data option \<Rightarrow> local \<Rightarrow> bool" where
  "released m l \<longleftrightarrow> (case m of None \<Rightarrow> False | Some d \<Rightarrow> shared_sense d = sense l)"

lemma released_pc [simp]: "released m (l\<lparr>pc := x\<rparr>) = released m l"
  by (simp add: released_def split: option.split)

definition poll :: "nat \<Rightarrow> shm_data option \<Rightarrow> local \<Rightarrow> nat" where
  "poll N m l =
     (case pc l of
        P_Lock \<Rightarrow> if joined N m then 1 else 2
      | P_Read \<Rightarrow> if joined N m then 2 else 0
      | P_Unlock \<Rightarrow> if all_users_joined l then 3 else if joined N m then 0 else 1
      | S_Lock \<Rightarrow> if released m l then 1 else 2
      | S_Read \<Rightarrow> if released m l then 2 else 0
      | S_Unlock \<Rightarrow> if \<not> reversed l then 3 else if released m l then 0 else 1
      | _ \<Rightarrow> 0)"

lemma poll_le: "poll N m l \<le> 3"
  by (simp add: poll_def split: pc.split)

definition barrier_rank :: "nat \<Rightarrow> sys \<Rightarrow> nat" where
  "barrier_rank N s =
     (3 * N + 1) * (\<Sum>p<N. prim (procs s p)) + (\<Sum>p<N. poll N (shm (shd s)) (procs s p))"

text \<open>A step that is worth taking: anything but a poll that must fail.\<close>

definition useful :: "nat \<Rightarrow> shm_data option \<Rightarrow> local \<Rightarrow> bool" where
  "useful N m l \<longleftrightarrow>
     (case pc l of P_Lock \<Rightarrow> joined N m | S_Lock \<Rightarrow> released m l
      | Done \<Rightarrow> False | Aborted \<Rightarrow> False | AbortedLocked \<Rightarrow> False | _ \<Rightarrow> True)"

definition polling :: "local \<Rightarrow> bool" where
  "polling l \<longleftrightarrow> pc l \<in> {P_Lock, P_Read, P_Unlock, S_Lock, S_Read, S_Unlock}"

lemma plain_step:
  assumes "proc_step n K True sh l = Some (sh', l')" and "\<not> polling l"
  shows "prim l < prim l'"
  using assms
  by (cases "pc l"; auto simp: proc_step_eqs sem_post_Some_iff prim_def polling_def split: if_splits)

lemma polling_step_shm:
  assumes "proc_step n K True sh l = Some (sh', l')" and "polling l"
  shows "shm sh' = shm sh"
  using assms
  by (cases "pc l"; auto simp: proc_step_eqs sem_post_Some_iff polling_def)

lemma ctor_poll_step:
  assumes "proc_step (of_nat N) K True sh l = Some (sh', l')" and "useful N (shm sh) l"
    and "pc l = P_Lock \<or> pc l = P_Read \<or> pc l = P_Unlock"
  shows "prim l < prim l' \<or> prim l' = prim l \<and> poll N (shm sh) l < poll N (shm sh) l'"
  using assms(3)
proof (elim disjE)
  assume "pc l = P_Lock"
  then show ?thesis using assms(1,2)
    by (auto simp: proc_step_ctor sem_wait_Some_iff prim_def useful_def poll_def)
next
  assume "pc l = P_Read"
  then show ?thesis using assms(1)
    by (auto simp: proc_step_ctor prim_def poll_def joined_def)
next
  assume "pc l = P_Unlock"
  then show ?thesis using assms(1)
    by (auto simp: proc_step_ctor sem_post_Some_iff prim_def poll_def)
qed

lemma wait_poll_step:
  assumes "proc_step (of_nat N) K True sh l = Some (sh', l')" and "useful N (shm sh) l"
    and "pc l = S_Lock \<or> pc l = S_Read \<or> pc l = S_Unlock"
  shows "prim l < prim l' \<or> prim l' = prim l \<and> poll N (shm sh) l < poll N (shm sh) l'"
  using assms(3)
proof (elim disjE)
  assume "pc l = S_Lock"
  then show ?thesis using assms(1,2)
    by (auto simp: proc_step_wait sem_wait_Some_iff prim_def useful_def poll_def)
next
  assume "pc l = S_Read"
  then show ?thesis using assms(1)
    by (auto simp: proc_step_wait prim_def poll_def released_def)
next
  assume "pc l = S_Unlock"
  then show ?thesis using assms(1)
    by (auto simp: proc_step_wait sem_post_Some_iff prim_def poll_def)
qed

lemma useful_step:
  assumes "proc_step (of_nat N) K True sh l = Some (sh', l')" and "useful N (shm sh) l"
  shows "prim l < prim l' \<or>
    prim l' = prim l \<and> shm sh' = shm sh \<and> poll N (shm sh) l < poll N (shm sh) l'"
proof (cases "polling l")
  case True
  then have "pc l = P_Lock \<or> pc l = P_Read \<or> pc l = P_Unlock
      \<or> pc l = S_Lock \<or> pc l = S_Read \<or> pc l = S_Unlock" by (simp add: polling_def)
  then show ?thesis
    using ctor_poll_step [OF assms] wait_poll_step [OF assms] polling_step_shm [OF assms(1) True] by blast
qed (use plain_step [OF assms(1)] in simp)

section \<open>The rank of the system\<close>

lemma sum_upd:
  fixes f :: "'a \<Rightarrow> nat" and g :: "nat \<Rightarrow> 'a"
  assumes "p < N"
  shows "(\<Sum>q<N. f ((g(p := x)) q)) + f (g p) = (\<Sum>q<N. f (g q)) + f x"
proof -
  have "(\<Sum>q<N. f ((g(p := x)) q)) = f x + (\<Sum>q\<in>{..<N} - {p}. f (g q))"
    using assms by (subst sum.remove [of "{..<N}" p]) (auto intro!: sum.cong)
  moreover have "(\<Sum>q<N. f (g q)) = f (g p) + (\<Sum>q\<in>{..<N} - {p}. f (g q))"
    using assms by (intro sum.remove) auto
  ultimately show ?thesis by simp
qed

lemma sum_poll_le: "(\<Sum>p<N. poll N m (f p)) \<le> 3 * N"
  using sum_bounded_above [of "{..<N}" "\<lambda>p. poll N m (f p)" 3] poll_le by simp

lemma useful_rank:
  assumes "p < N" and "proc_step (of_nat N) K True (shd s) (procs s p) = Some (sh', l')"
    and "useful N (shm (shd s)) (procs s p)"
  shows "barrier_rank N s < barrier_rank N \<lparr>shd = sh', procs = (procs s)(p := l')\<rparr>"
proof -
  let ?f = "(procs s)(p := l')" and ?m = "shm (shd s)"
  have sum: "(\<Sum>q<N. prim (?f q)) + prim (procs s p) = (\<Sum>q<N. prim (procs s q)) + prim l'"
    by (rule sum_upd [OF assms(1)])
  from useful_step [OF assms(2,3)] show ?thesis
  proof (elim disjE conjE)
    assume "prim (procs s p) < prim l'"
    then have "Suc (\<Sum>q<N. prim (procs s q)) \<le> (\<Sum>q<N. prim (?f q))" using sum by linarith
    then have "(3 * N + 1) * Suc (\<Sum>q<N. prim (procs s q)) \<le> (3 * N + 1) * (\<Sum>q<N. prim (?f q))"
      by (rule mult_le_mono2)
    then show ?thesis using sum_poll_le [of N ?m "procs s"] by (simp add: barrier_rank_def)
  next
    assume e: "prim l' = prim (procs s p)" "shm sh' = ?m"
      and less: "poll N ?m (procs s p) < poll N ?m l'"
    have "(\<Sum>q<N. poll N ?m (?f q)) + poll N ?m (procs s p) =
        (\<Sum>q<N. poll N ?m (procs s q)) + poll N ?m l'"
      by (rule sum_upd [OF assms(1)])
    then show ?thesis using sum e less by (simp add: barrier_rank_def)
  qed
qed

text \<open>Positions are bounded by those of a process that is done.\<close>

lemma prim_le:
  assumes "phase_ok K G l"
  shows "prim l \<le> 13 + 6 * K"
  using assms by (cases "pc l") (auto simp: phase_ok_def prim_def)

definition rank_bound :: "nat \<Rightarrow> nat \<Rightarrow> nat" where
  "rank_bound N K = (3 * N + 1) * (N * (13 + 6 * K)) + 3 * N"

lemma barrier_rank_le:
  assumes "gen_inv N K G s"
  shows "barrier_rank N s \<le> rank_bound N K"
proof -
  have "prim (procs s p) \<le> 13 + 6 * K" if "p < N" for p
    using assms that prim_le [of K G] by (simp add: gen_inv_def)
  then have "(\<Sum>p<N. prim (procs s p)) \<le> N * (13 + 6 * K)"
    using sum_bounded_above [of "{..<N}" "\<lambda>p. prim (procs s p)" "13 + 6 * K"] by simp
  then show ?thesis using sum_poll_le [of N "shm (shd s)" "procs s"]
    unfolding barrier_rank_def rank_bound_def by (intro add_mono mult_le_mono) simp_all
qed

section \<open>Somebody can always do something useful\<close>

text \<open>Inside a critical section every step is possible and useful.\<close>

lemma crit_moves:
  assumes "in_crit l" and "pc l \<noteq> AbortedLocked" and "sem sh = Some v"
    and "before_shm l \<or> shm sh \<noteq> None"
  shows "useful N (shm sh) l \<and> proc_step n K True sh l \<noteq> None"
  using assms
  by (cases "pc l"; auto simp: in_crit_def before_shm_def useful_def proc_step_ctor proc_step_wait proc_step_dtor
      sem_post_def)

lemma outside_moves:
  assumes "useful N (shm sh) l" and "\<not> in_crit l" and "pc l = C_SemOpen \<longrightarrow> linked sh"
    and "pc l = C_SemOpen \<or> sem sh = Some (Suc v)"
  shows "proc_step n K True sh l \<noteq> None"
  using assms
  by (cases "pc l"; auto simp: in_crit_def useful_def proc_step_ctor proc_step_wait proc_step_dtor
      sem_wait_def)

text \<open>
  As soon as one process has started to wait or to leave, all have joined; before that, the users
  are exactly the processes that have joined.
\<close>

lemma is_user_early: "phase_ok K G l \<Longrightarrow> G < K \<Longrightarrow> is_user l = (\<not> before_join l)"
  by (cases "pc l") (auto simp: is_user_def before_join_def phase_ok_def)

lemma joined_early:
  assumes "gen_inv N K G s" and "join_inv N s" and "N < 2 ^ 64" and "G < K"
    and "\<forall>p<N. \<not> before_join (procs s p)" and "0 < N"
  shows "joined N (shm (shd s))"
proof -
  have "\<forall>p<N. is_user (procs s p)"
    using assms(1,4,5) is_user_early by (auto simp: gen_inv_def)
  then have all: "cnt N is_user (procs s) = N" by (simp only: cnt_all_iff)
  obtain d where d: "shm (shd s) = Some d"
    using assms(2,5,6) before_shm_join by (cases "shm (shd s)") (auto simp: join_inv_def)
  then have "unat (n_users d) = N" using assms(2) all by (simp add: join_inv_def)
  then show ?thesis using d assms(3) by (simp add: joined_def word_le_nat_alt unat_of_nat_64)
qed

lemma spinning_all_arrived:
  assumes "gen_inv N K G s" and "shm (shd s) = Some d"
    and "\<forall>p<N. pc (procs s p) = S_Lock \<and> waits (procs s p) = G"
  shows "N = 0"
proof -
  have "\<forall>p<N. arrived_in G (procs s p)"
    using assms(3) by (auto simp: arrived_in_def arrivals_def arrived_def)
  then have "cnt N (arrived_in G) (procs s) = N" by (simp only: cnt_all_iff)
  then show ?thesis using assms(1,2) by (simp add: gen_inv_def)
qed

text \<open>A process that is not released is still in the current generation.\<close>

lemma not_released:
  assumes "phase_ok K G l" and "pc l = S_Lock" and "shared_sense d = odd G" and "\<not> released (Some d) l"
  shows "waits l = G \<and> G < K"
  using assms by (auto simp: phase_ok_def released_def)

lemma someone_useful:
  assumes "gen_inv N K G s" and "join_inv N s" and "N < 2 ^ 64" and "0 < K"
    and "alive N s" and "\<not> all_done N s"
  shows "\<exists>p<N. useful N (shm (shd s)) (procs s p)"
proof (rule ccontr)
  assume "\<not> ?thesis"
  then have stuck: "\<not> useful N (shm (shd s)) (procs s p)" if "p < N" for p using that by blast
  have pcs: "pc (procs s p) = P_Lock \<and> \<not> joined N (shm (shd s))
      \<or> pc (procs s p) = S_Lock \<and> \<not> released (shm (shd s)) (procs s p) \<or> pc (procs s p) = Done"
    if "p < N" for p
    using stuck [OF that] assms(5) that
    by (cases "pc (procs s p)") (auto simp: useful_def alive_def)
  have ph: "phase_ok K G (procs s p)" if "p < N" for p using assms(1) that by (simp add: gen_inv_def)
  have nb: "\<forall>p<N. \<not> before_join (procs s p)"
  proof (intro allI impI)
    show "\<not> before_join (procs s p)" if "p < N" for p
      using pcs [OF that] by (auto simp: before_join_def)
  qed
  obtain r where r: "r < N" "pc (procs s r) \<noteq> Done" using assms(6) by (auto simp: all_done_def)
  obtain d where d: "shm (shd s) = Some d"
    using assms(2) nb r(1) before_shm_join by (cases "shm (shd s)") (auto simp: join_inv_def)
  have sense: "shared_sense d = odd G" using assms(1) d by (simp add: gen_inv_def)
  have G: "G < K"
    using pcs [OF r(1)] r(2) ph [OF r(1)] not_released [OF ph [OF r(1)] _ sense] assms(4) d
    by (auto simp: phase_ok_def)
  then have "joined N (shm (shd s))" using joined_early [OF assms(1-3) G nb] r(1) by simp
  then have "pc (procs s p) = S_Lock \<and> waits (procs s p) = G" if "p < N" for p
    using pcs [OF that] ph [OF that] not_released [OF ph [OF that] _ sense] d G
    by (auto simp: phase_ok_def)
  then show False using spinning_all_arrived [OF assms(1) d] r(1) by simp
qed

lemma someone_advances:
  assumes inv: "gen_inv N K G s" "join_inv N s" "lock_inv N s" and N: "N < 2 ^ 64" and K: "0 < K"
    and alive: "alive N s" and busy: "\<not> all_done N s"
  shows "\<exists>t. good_step N K s t \<and> barrier_rank N s < barrier_rank N t"
proof -
  have shm: "before_shm (procs s p) \<or> shm (shd s) \<noteq> None" if "p < N" for p
    using inv(2) that by (auto simp: join_inv_def split: option.splits)
  have "\<exists>p<N. useful N (shm (shd s)) (procs s p)
      \<and> proc_step (of_nat N) K True (shd s) (procs s p) \<noteq> None"
  proof (cases "\<exists>p<N. in_crit (procs s p)")
    case True
    then obtain p where p: "p < N" "in_crit (procs s p)" by blast
    moreover obtain v where "sem (shd s) = Some v"
      using inv(3) p by (cases "sem (shd s)") (auto simp: lock_inv_def in_crit_def)
    ultimately have "useful N (shm (shd s)) (procs s p)
        \<and> proc_step (of_nat N) K True (shd s) (procs s p) \<noteq> None"
      using crit_moves [OF p(2)] shm [OF p(1)] alive p(1) unfolding alive_def by blast
    then show ?thesis using p(1) by blast
  next
    case False
    then have none: "cnt N in_crit (procs s) = 0" by (simp add: cnt_0_iff)
    obtain p where p: "p < N" "useful N (shm (shd s)) (procs s p)"
      using someone_useful [OF inv(1,2) N K alive busy] by blast
    have "pc (procs s p) = C_SemOpen \<longrightarrow> linked (shd s)"
      using inv(2) p(1) by (auto simp: join_inv_def before_join_def)
    moreover have "pc (procs s p) = C_SemOpen \<or> sem (shd s) = Some (Suc 0)"
      using inv(3) none alive p(1) by (cases "sem (shd s)") (auto simp: lock_inv_def alive_def)
    ultimately show ?thesis using outside_moves [OF p(2)] False p by blast
  qed
  then obtain p sh' l' where "p < N" "useful N (shm (shd s)) (procs s p)"
      "proc_step (of_nat N) K True (shd s) (procs s p) = Some (sh', l')" by auto
  then show ?thesis using useful_rank good_step.good by blast
qed

section \<open>The names are removed\<close>

definition leaving :: "local \<Rightarrow> bool" where
  "leaving l \<longleftrightarrow> pc l = D_Unlock \<or> pc l = D_Close"

text \<open>When the last user has deregistered, it is about to remove the names or has done so.\<close>

definition unlink_inv :: "nat \<Rightarrow> sys \<Rightarrow> bool" where
  "unlink_inv N s \<longleftrightarrow>
     (\<exists>p<N. leaving (procs s p) \<or> pc (procs s p) = Done) \<longrightarrow>
     (\<exists>p<N. is_user (procs s p)) \<or> \<not> linked (shd s)
     \<or> (\<exists>p<N. leaving (procs s p) \<and> remaining_users (procs s p) = 1)"

lemma leaving_step:
  assumes "proc_step n K ok sh l = Some (sh', l')" and "pc l \<noteq> D_Body"
  shows "(leaving l' \<or> pc l' = Done \<longrightarrow> leaving l \<or> pc l = Done)
    \<and> (is_user l \<longrightarrow> is_user l')
    \<and> (linked sh' \<longrightarrow> linked sh)
    \<and> (leaving l \<and> remaining_users l = 1 \<longrightarrow> leaving l' \<and> remaining_users l' = 1 \<or> \<not> linked sh')"
  using assms
  by (cases "pc l"; auto simp: proc_step_eqs sem_post_Some_iff leaving_def is_user_def before_join_def
      split: if_splits)

lemma unlink_inv_step:
  assumes p: "p < N" and step: "proc_step (of_nat N) K ok (shd s) (procs s p) = Some (sh', l')"
    and inv: "unlink_inv N s" and join: "join_inv N s"
  shows "unlink_inv N \<lparr>shd = sh', procs = (procs s)(p := l')\<rparr>"
proof (cases "pc (procs s p) = D_Body")
  case True
  then obtain d where d: "shm (shd s) = Some d" and
      l': "l' = (procs s p)\<lparr>remaining_users := n_users d, pc := D_Unlock\<rparr>"
    using step by (auto simp: proc_step_dtor)
  show ?thesis
  proof (cases "\<exists>q<N. q \<noteq> p \<and> is_user (procs s q)")
    case True
    then show ?thesis by (auto simp: unlink_inv_def)
  next
    case False
    let ?f = "(procs s)(p := l')"
    have user: "is_user (procs s p)" "\<not> is_user l'"
      using \<open>pc (procs s p) = D_Body\<close> by (simp_all add: l' is_user_def before_join_def)
    have "cnt N is_user ?f = 0" using False user by (auto simp: cnt_0_iff)
    then have "cnt N is_user (procs s) = 1" using cnt_upd_dec [of p N is_user "procs s" l'] p user by simp
    then have "unat (n_users d) = 1" using join d by (simp add: join_inv_def)
    then have "n_users d = 1" by (simp add: word_unat_eq_iff)
    then have "leaving (?f p) \<and> remaining_users (?f p) = 1" by (simp add: l' leaving_def)
    then show ?thesis using p by (auto simp: unlink_inv_def)
  qed
next
  case False
  let ?s = "\<lparr>shd = sh', procs = (procs s)(p := l')\<rparr>"
  note keep = leaving_step [OF step False]
  show ?thesis unfolding unlink_inv_def
  proof
    assume "\<exists>q<N. leaving (procs ?s q) \<or> pc (procs ?s q) = Done"
    then have "\<exists>q<N. leaving (procs s q) \<or> pc (procs s q) = Done"
      using keep p by (auto split: if_splits)
    then consider (user) q where "q < N" "is_user (procs s q)" | (gone) "\<not> linked (shd s)"
      | (last) q where "q < N" "leaving (procs s q)" "remaining_users (procs s q) = 1"
      using inv unfolding unlink_inv_def by blast
    then show "(\<exists>q<N. is_user (procs ?s q)) \<or> \<not> linked (shd ?s)
        \<or> (\<exists>q<N. leaving (procs ?s q) \<and> remaining_users (procs ?s q) = 1)"
      by cases (use keep in \<open>auto split: if_splits\<close>)
  qed
qed

lemma unlink_inv_reachable:
  assumes "reachable N K s" and "N < 2 ^ 64"
  shows "unlink_inv N s"
  using assms(1) unfolding reachable_def
proof (induction rule: rtranclp_induct)
  case base
  show ?case by (simp add: unlink_inv_def init_sys_def init_local_def leaving_def)
next
  case (step s t)
  have "join_inv N s"
    using join_inv_reachable step.hyps(1) assms(2) unfolding reachable_def by blast
  with step show ?case by (auto elim!: bstep.cases intro: unlink_inv_step)
qed

section \<open>All processes can finish\<close>

definition barrier_ok :: "nat \<Rightarrow> nat \<Rightarrow> sys \<Rightarrow> bool" where
  "barrier_ok N K s \<longleftrightarrow> reachable N K s \<and> alive N s"

lemma alive_step: "good_step N K s t \<Longrightarrow> alive N s \<Longrightarrow> alive N t"
proof (elim good_step.cases)
  fix p s1 sh' l'
  assume a: "s = s1" "t = \<lparr>shd = sh', procs = (procs s1)(p := l')\<rparr>" "alive N s"
    and step: "proc_step (of_nat N) K True (shd s1) (procs s1 p) = Some (sh', l')"
  have "pc l' \<noteq> Aborted \<and> pc l' \<noteq> AbortedLocked"
    using step by (cases "pc (procs s1 p)") (auto simp: proc_step_eqs sem_post_Some_iff split: if_splits)
  then show "alive N t" using a by (simp add: alive_def)
qed

lemma barrier_can_finish:
  assumes "N < 2 ^ 64" and "0 < K"
  shows "can_finish init_sys (good_step N K) (barrier_ok N K)
    (\<lambda>s. rank_bound N K - barrier_rank N s) (all_done N)"
proof
  show "barrier_ok N K init_sys"
    by (simp add: barrier_ok_def reachable_def alive_def init_sys_def init_local_def)
  show ok: "barrier_ok N K t" if "barrier_ok N K s" "good_step N K s t" for s t
    using that alive_step good_bstep [OF that(2)]
    unfolding barrier_ok_def reachable_def by (blast intro: rtranclp.rtrancl_into_rtrancl)
  fix s
  assume s: "barrier_ok N K s" "\<not> all_done N s"
  then have r: "reachable N K s" "alive N s" by (simp_all add: barrier_ok_def)
  obtain G where G: "gen_inv N K G s" using gen_inv_reachable [OF r(1) assms(1)] by blast
  obtain t where t: "good_step N K s t" "barrier_rank N s < barrier_rank N t"
    using someone_advances [OF G join_inv_reachable [OF r(1) assms(1)] lock_inv_reachable [OF r(1)]
        assms r(2) s(2)] by blast
  have "reachable N K t" using ok [OF s(1) t(1)] by (simp add: barrier_ok_def)
  then have "barrier_rank N t \<le> rank_bound N K"
    using gen_inv_reachable [OF _ assms(1)] barrier_rank_le by blast
  then have "rank_bound N K - barrier_rank N t < rank_bound N K - barrier_rank N s"
    using t(2) by linarith
  then show "\<exists>t. rtranclp (good_step N K) s t
      \<and> rank_bound N K - barrier_rank N t < rank_bound N K - barrier_rank N s"
    using t(1) by blast
qed

text \<open>The benchmarks synchronise two processes, and at least once when the loop is not empty.\<close>

interpretation pair_finish: can_finish init_sys "good_step 2 (Suc k)" "barrier_ok 2 (Suc k)"
    "\<lambda>s. rank_bound 2 (Suc k) - barrier_rank 2 s" "all_done 2" for k
  by (rule barrier_can_finish) simp_all

lemma all_done_clean:
  assumes "reachable N K s" and "N < 2 ^ 64" and "all_done N s" and "0 < N"
  shows "\<not> linked (shd s) \<and> sem (shd s) = Some 1 \<and> (\<forall>p<N. waits (procs s p) = K)"
proof -
  have pcs: "pc (procs s p) = Done" if "p < N" for p using assms(3) that by (simp add: all_done_def)
  have "\<not> is_user (procs s p)" "\<not> leaving (procs s p)" "\<not> in_crit (procs s p)" if "p < N" for p
    using pcs [OF that] by (simp_all add: is_user_def leaving_def in_crit_def)
  moreover from this have "cnt N in_crit (procs s) = 0" by (simp add: cnt_0_iff)
  moreover obtain G where "gen_inv N K G s" using gen_inv_reachable [OF assms(1,2)] by blast
  then have "waits (procs s p) = K" if "p < N" for p
    using pcs [OF that] that by (auto simp: gen_inv_def phase_ok_def dest: spec [of _ p])
  ultimately show ?thesis
    using unlink_inv_reachable [OF assms(1,2)] lock_inv_reachable [OF assms(1)] pcs assms(4)
    by (cases "sem (shd s)") (auto simp: unlink_inv_def lock_inv_def)
qed

section \<open>Without a call of Wait\<close>

definition early_leaver :: sys where
  "early_leaver = sample_run 2 0 (replicate 7 0 @ replicate 7 1 @ replicate 8 0)"

definition starved :: "sys \<Rightarrow> bool" where
  "starved s \<longleftrightarrow> pc (procs s 0) = Done \<and> map_option n_users (shm (shd s)) = Some 1
     \<and> (pc (procs s 1) = P_Lock \<or> pc (procs s 1) = P_Read
        \<or> pc (procs s 1) = P_Unlock \<and> \<not> all_users_joined (procs s 1))"

lemma starved_step:
  assumes "bstep 2 K s t" and "starved s"
  shows "starved t"
  using assms(1)
proof cases
  case (move p ok sh' l')
  have "p \<noteq> 0"
  proof
    assume "p = 0"
    then show False using move(3) assms(2) by (simp add: starved_def proc_step_dtor)
  qed
  then have p: "p = 1" using move(2) by simp
  have "\<not> (2 :: u64) \<le> 1" by (simp add: word_le_nat_alt)
  then show ?thesis
    using p move assms(2)
    by (auto simp: starved_def proc_step_ctor sem_wait_Some_iff sem_post_Some_iff split: if_splits)
qed

lemma starved_steps: "rtranclp (bstep 2 K) s t \<Longrightarrow> starved s \<Longrightarrow> starved t"
  by (induction rule: rtranclp_induct) (auto intro: starved_step)

section \<open>Properties\<close>

text \<open>
  C5 (liveness). As long as the kernel refuses nothing, any number of processes that call
  \<^verbatim>\<open>Wait\<close> equally often, at least once, can always be brought to the end: no reachable state is a
  deadlock and no process is cut off in a polling loop. When all have finished, every one has
  completed all rounds, the semaphore is free, and the names of the semaphore and of the shared
  memory have been removed.
\<close>

theorem barrier_finishes:
  assumes "reachable N K s" and "N < 2 ^ 64" and "0 < K" and "alive N s"
  shows "\<exists>t. rtranclp (good_step N K) s t \<and> all_done N t
    \<and> (0 < N \<longrightarrow> \<not> linked (shd t) \<and> sem (shd t) = Some 1 \<and> (\<forall>p<N. waits (procs t p) = K))"
proof -
  note fin = barrier_can_finish [OF assms(2,3)]
  have "barrier_ok N K s" using assms(1,4) by (simp add: barrier_ok_def)
  then obtain t where t: "rtranclp (good_step N K) s t" "barrier_ok N K t" "all_done N t"
    using can_finish.finishes [OF fin] by blast
  then show ?thesis using all_done_clean [of N K t] assms(2) by (auto simp: barrier_ok_def)
qed

theorem barrier_finishes_witness:
  "\<exists>t. rtranclp (good_step 3 2) init_sys t \<and> all_done 3 t \<and> \<not> linked (shd t)"
  using barrier_finishes [of 3 2 init_sys]
  by (auto simp: reachable_def alive_def init_sys_def init_local_def)

text \<open>
  C6 (error). Without a call of \<^verbatim>\<open>Wait\<close> (the latency benchmark with a loop size of 0) this fails:
  the constructor polls the number of users, which a process that is already leaving decrements
  again. There is a reachable state of two processes, in which nothing has failed, from which the
  second one polls for ever whatever happens.
\<close>

theorem barrier_starves_without_wait:
  "reachable 2 0 early_leaver \<and> alive 2 early_leaver
   \<and> (\<forall>t. rtranclp (bstep 2 0) early_leaver t \<longrightarrow>
        pc (procs t 1) \<in> {P_Lock, P_Read, P_Unlock} \<and> \<not> all_done 2 t)"
proof -
  have s: "starved early_leaver" by code_simp
  have "pc (procs early_leaver 0) = Done" "pc (procs early_leaver 1) = P_Lock" by code_simp+
  then have "alive 2 early_leaver" by (auto simp: alive_def less_2_cases_iff)
  moreover have "pc (procs t 1) \<in> {P_Lock, P_Read, P_Unlock} \<and> \<not> all_done 2 t"
    if "rtranclp (bstep 2 0) early_leaver t" for t
  proof -
    have t: "starved t" by (rule starved_steps [OF that s])
    then have "pc (procs t 1) \<noteq> Done" by (auto simp: starved_def)
    then have "\<not> all_done 2 t" unfolding all_done_def by (metis one_less_numeral_iff semiring_norm(76))
    then show ?thesis using t by (auto simp: starved_def)
  qed
  ultimately show ?thesis by (auto simp: early_leaver_def intro: sample_run_reachable)
qed

theorem barrier_starves_without_wait_witness:
  "pc (procs early_leaver 1) \<noteq> Done"
  using barrier_starves_without_wait by fastforce

end
