(* ===== verification/Barrier_Groups.thy ===== *)
theory Barrier_Groups
  imports Barrier_Liveness
begin

text \<open>
  Groups of processes that use the barrier of the same id one after the other, as the benchmarks of
  \<^verbatim>\<open>akbench\<close> do: what a group leaves behind, what the next group finds, and
  \<^verbatim>\<open>SenseReversingBarrier::ClearResource\<close>.
\<close>

section \<open>The names between two groups\<close>

text \<open>
  Unlinking removes the names; the objects live on for those who hold them, and a name that does
  not exist is no error. (The name ending in \<^verbatim>\<open>_init_sem\<close> is never created.)
\<close>

definition ClearResource :: "shared \<Rightarrow> shared" where
  "ClearResource sh = sh\<lparr>linked := False\<rparr>"

text \<open>
  What the next group of processes starts from when the last one has ended, in whatever way: the
  objects that still have a name, and none when the names are gone.
\<close>

definition next_group :: "shared \<Rightarrow> sys" where
  "next_group sh =
     \<lparr>shd = (if linked sh then sh else \<lparr>sem = None, shm = None, linked = True\<rparr>),
      procs = (\<lambda>_. init_local)\<rparr>"

lemma next_group_unlinked: "\<not> linked sh \<Longrightarrow> next_group sh = init_sys"
  by (simp add: next_group_def init_sys_def)

section \<open>A semaphore that was left locked\<close>

definition locked_out :: "nat \<Rightarrow> sys \<Rightarrow> bool" where
  "locked_out N s \<longleftrightarrow> sem (shd s) = Some 0 \<and> linked (shd s)
     \<and> (\<forall>q<N. pc (procs s q) \<in> {C_SemOpen, C_Lock, Aborted})"

lemma locked_out_step:
  assumes "bstep N K s t" and "locked_out N s"
  shows "locked_out N t"
  using assms(1)
proof cases
  case (move p ok sh' l')
  have "pc (procs s p) \<in> {C_SemOpen, C_Lock, Aborted}" "sem (shd s) = Some 0" "linked (shd s)"
    using assms(2) move(2) by (simp_all add: locked_out_def)
  then have "sem sh' = Some 0 \<and> linked sh' \<and> pc l' \<in> {C_SemOpen, C_Lock, Aborted}"
    using move(3) by (auto simp: proc_step_eqs sem_wait_Some_iff split: if_splits)
  then show ?thesis using assms(2) move(1) by (simp add: locked_out_def)
qed

lemma locked_out_steps: "rtranclp (bstep N K) s t \<Longrightarrow> locked_out N s \<Longrightarrow> locked_out N t"
  by (induction rule: rtranclp_induct) (auto intro: locked_out_step)

lemma aborted_leaves_locked:
  assumes "reachable N K s" and "N < 2 ^ 64" and "p < N" and "pc (procs s p) = AbortedLocked"
  shows "locked_out M (next_group (shd s))"
proof -
  have crit: "in_crit (procs s p)" and early: "before_join (procs s p)"
    using assms(4) by (simp_all add: in_crit_def before_join_def)
  have "linked (shd s)"
    using join_inv_reachable [OF assms(1,2)] early assms(3) by (auto simp: join_inv_def)
  moreover have "0 < cnt N in_crit (procs s)"
    using crit assms(3) cnt_0_iff [of N in_crit "procs s"] by (metis gr0I)
  then have "sem (shd s) = Some 0"
    using lock_inv_reachable [OF assms(1)] assms(3,4)
    by (auto simp: lock_inv_def split: option.splits)
  ultimately show ?thesis by (simp add: locked_out_def next_group_def init_local_def)
qed

section \<open>Counters that were left behind\<close>

text \<open>
  Process 0 arrives in the first round and both processes are killed. Nothing was unlinked, so the
  first process of the next group finds two registered users and one arrival: it leaves the
  constructor and its first \<^verbatim>\<open>Wait\<close> before the other process has done anything.
\<close>

definition killed_in_round :: sys where
  "killed_in_round = sample_run 2 1 (construct_both @ [0, 0, 0, 0])"

lemma stale_counters_open_early:
  "reachable 2 1 killed_in_round
   \<and> (\<exists>t. rtranclp (bstep 2 1) (next_group (shd killed_in_round)) t
        \<and> left_rounds t 0 = 1 \<and> pc (procs t 1) = C_SemOpen)"
proof -
  let ?s = "next_group (shd killed_in_round)"
  have "case run_schedule 2 1 (replicate 15 0) ?s of None \<Rightarrow> False
      | Some t \<Rightarrow> left_rounds t 0 = 1 \<and> pc (procs t 1) = C_SemOpen" by code_simp
  then obtain t where "run_schedule 2 1 (replicate 15 0) ?s = Some t"
      "left_rounds t 0 = 1" "pc (procs t 1) = C_SemOpen"
    by (auto split: option.splits)
  moreover from this(1) have "rtranclp (bstep 2 1) ?s t" by (rule run_schedule_steps)
  moreover have "reachable 2 1 killed_in_round"
    unfolding killed_in_round_def by (rule sample_run_reachable)
  ultimately show ?thesis by blast
qed

section \<open>Properties\<close>

text \<open>
  C7 (error). A group whose processes have all finished leaves nothing behind. A process that aborts
  inside the critical section of the constructor leaves a locked semaphore: no process of a later
  group gets past it, whatever happens. After \<^verbatim>\<open>ClearResource\<close>, with which every benchmark
  begins, the next group starts like the first, wherever the last one has stopped.
\<close>

theorem barrier_left_over:
  assumes "reachable N K s" and "N < 2 ^ 64"
  shows "(0 < N \<and> all_done N s \<longrightarrow> next_group (shd s) = init_sys)
    \<and> (p < N \<and> pc (procs s p) = AbortedLocked \<and> rtranclp (bstep M L) (next_group (shd s)) t \<longrightarrow>
         (\<forall>q<M. pc (procs t q) \<in> {C_SemOpen, C_Lock, Aborted}))
    \<and> next_group (ClearResource (shd s)) = init_sys"
proof (intro conjI impI)
  show "next_group (shd s) = init_sys" if "0 < N \<and> all_done N s"
    using all_done_clean [OF assms] that by (simp add: next_group_unlinked)
  show "\<forall>q<M. pc (procs t q) \<in> {C_SemOpen, C_Lock, Aborted}"
    if "p < N \<and> pc (procs s p) = AbortedLocked \<and> rtranclp (bstep M L) (next_group (shd s)) t"
    using locked_out_steps aborted_leaves_locked [OF assms] that by (meson locked_out_def)
  show "next_group (ClearResource (shd s)) = init_sys"
    by (rule next_group_unlinked) (simp add: ClearResource_def)
qed

text \<open>The kernel refuses the shared memory of the first process.\<close>

theorem barrier_left_over_witness:
  "\<exists>s. reachable 2 1 s \<and> pc (procs s 0) = AbortedLocked
     \<and> pc (procs (next_group (shd s)) 1) \<in> {C_SemOpen, C_Lock, Aborted}
     \<and> next_group (ClearResource (shd s)) = init_sys"
proof -
  define s where "s = sample_run 2 1 [0, 0]"
  define t where "t = \<lparr>shd = shd s, procs = (procs s)(0 := (procs s 0)\<lparr>pc := AbortedLocked\<rparr>)\<rparr>"
  have "pc (procs s 0) = C_Shm" unfolding s_def by code_simp
  then have "bstep 2 1 s t"
    unfolding t_def by (intro bstep.move [where ok = False]) (simp_all add: proc_step_eqs)
  moreover have "reachable 2 1 s" unfolding s_def by (rule sample_run_reachable)
  ultimately have "reachable 2 1 t" unfolding reachable_def by (rule rtranclp.rtrancl_into_rtrancl [rotated])
  moreover have "pc (procs t 0) = AbortedLocked" by (simp add: t_def)
  moreover from calculation(1) have "(pc (procs t 0) = AbortedLocked \<longrightarrow>
      pc (procs (next_group (shd t)) 1) \<in> {C_SemOpen, C_Lock, Aborted})
      \<and> next_group (ClearResource (shd t)) = init_sys"
    using barrier_left_over [of 2 1 t 0 2 1 "next_group (shd t)"] by simp
  ultimately show ?thesis by blast
qed

end
