(* ===== verification/Spec2Isabelle.thy ===== *)
theory Spec2Isabelle
  imports Cli_Main Mpi_Bandwidth Barrier_Groups
begin

text \<open>
  akbench: a microbenchmark suite for inter-process communication, system calls and memory.

  \<^bold>\<open>The program.\<close> \<^verbatim>\<open>main\<close> of \<^verbatim>\<open>akbench/akbench.cc\<close> reads the options, validates them, runs one or
  all of the benchmarks and prints a table of results. A bandwidth benchmark forks; one process sends
  a payload of random bytes with a checksum, the other receives and verifies it, and both meet in a
  barrier that the program implements itself (\<^verbatim>\<open>barrier.cc\<close>). A latency benchmark lets two threads or
  processes hand a token to and fro, or repeats a system call. The measured durations go through
  the two statistics of \<^verbatim>\<open>common.cc\<close>. \<^verbatim>\<open>mpi_bandwidth.cc\<close> is a program of its own.

  \<^bold>\<open>Foundations.\<close> \<open>Prelude\<close>: the type \<open>outcome\<close> (a value, an exception, an abort by a failed check or a
  fatal log line, an exit, undefined behaviour, or not returning), the type \<open>act\<close> (an outcome with
  the trace of calls made), copies into buffers, counting of processes. \<open>Text_Format\<close>: decimal and
  hexadecimal text, searching in strings. \<open>Aklog\<close> is \<^verbatim>\<open>aklog.cc\<close>; \<open>Common_Data\<close> and \<open>Common_Stats\<close> are
  \<^verbatim>\<open>common.cc\<close> (payload, checksum, names; statistics); \<open>Getopt_Utils\<close> is \<^verbatim>\<open>getopt_utils.h\<close>.

  \<^bold>\<open>The barrier.\<close> \<open>Phase_Sync\<close> states what a barrier promises: a step relation on two counters per
  process and the locale \<open>phase_sync\<close> for whatever simulates it. \<open>Barrier\<close> holds the constructor,
  \<^verbatim>\<open>Wait\<close> and the destructor as steps on the shared memory and the members of one process, one step
  for each semaphore operation and each critical section. \<open>Barrier_Safety\<close> shows mutual exclusion, that
  nobody leaves the constructor early, and the refinement of the abstract barrier, for any number of
  processes below \<open>2\<^sup>6\<^sup>4\<close>. \<open>Barrier_Liveness\<close> shows that all processes can finish, and the case in
  which they can not; \<open>Barrier_Groups\<close> adds \<^verbatim>\<open>ClearResource\<close> and what one group of processes leaves to
  the next.

  \<^bold>\<open>Bandwidth.\<close> \<open>Iterations\<close> is the loop over warm-up and measured rounds; its locale \<open>measured_rounds\<close>
  says what a round must do so that the statistics are those of the measured rounds and the calls
  of the barrier are known. \<open>Stream_Loops\<close> has the inner loops that transfer a payload in pieces, with the
  locales \<open>sending\<close> and \<open>receiving\<close>. They are interpreted on the steps of every transport:
  \<open>Pipe_Bandwidth\<close>, \<open>Fifo_Bandwidth\<close>, \<open>Tcp_Bandwidth\<close>, \<open>Uds_Bandwidth\<close>, \<open>Mq_Bandwidth\<close>, each the file of
  that name. \<open>Double_Buffer\<close> is the protocol that \<^verbatim>\<open>mmap_bandwidth.cc\<close> and \<^verbatim>\<open>shm_bandwidth.cc\<close> share, with
  every single access to the shared region in any interleaving; \<open>Mapped_Rounds\<close>, \<open>Mmap_Bandwidth\<close> and
  \<open>Shm_Bandwidth\<close> are the two benchmarks around it. \<open>Memcpy_Bandwidth\<close> has both memcpy benchmarks, the
  threads of the second as byte writes in any order, and \<open>Mpi_Bandwidth\<close> the MPI program.

  \<^bold>\<open>Latency.\<close> \<open>Progress\<close> has the locales \<open>can_finish\<close> (from every state the end can be reached) and
  \<open>bounded_progress\<close> (every run ends); \<open>Round_Trip\<close> the locale \<open>round_trip\<close> (two parties strictly
  alternate) and the loop of the latency benchmarks. \<open>Atomic_Latency\<close> (both memory orders),
  \<open>Condition_Variable_Latency\<close>, \<open>Semaphore_Latency\<close> model the handshakes as step relations over all
  interleavings and interpret these locales; \<open>Latency_Results\<close> connects the reported number with the
  number of trips. \<open>Syscall_Latency\<close> and \<open>Barrier_Latency\<close> are the remaining two files.

  \<^bold>\<open>The command.\<close> \<open>Cli_Options\<close>: options, their parsing and validation. \<open>Json_Output\<close>: the table of
  results and its printing, against a reference printer of JSON values. \<open>Cli_Main\<close>: which benchmarks
  run, and \<^verbatim>\<open>main\<close> as a whole.

  \<^bold>\<open>How the environment enters.\<close> Sequential code is a function of what the kernel answers: a round is a
  record of the replies to its calls, in order, and of the elapsed time. All replies are covered,
  failures too; the theorems about successful runs state what a reliable channel answers (the bytes
  written are the bytes read, in pieces of any size) and have witnesses. Concurrent code is a step
  relation, and its theorems hold for every reachable state. The end-to-end theorems of the transports
  relate the traces of barrier calls of both processes, which is what the barrier theorems need.
  Random numbers, time, the process id, the text of a double and \<^verbatim>\<open>getopt_long\<close> are parameters.

  \<^bold>\<open>Numbers and bounds.\<close> Sizes and counters of type \<^verbatim>\<open>uint64_t\<close> are 64-bit words wherever they can
  wrap around, and natural numbers where only their value is read; the \<^verbatim>\<open>int\<close> option values carry their
  range, and overflow of \<^verbatim>\<open>int\<close> is undefined. A double is a real number or an IEEE special value: finite
  arithmetic is exact, division by zero and what follows from it is as in IEEE 754; rounding is not
  modelled. No definition needs fuel: loops recurse on the recorded replies, and a loop that has used
  them all up has the outcome \<open>Blocked\<close>, that is, it has not returned; the theorems exclude this case or
  state it.

  \<^bold>\<open>Not modelled.\<close> Log lines below FATAL and the effect of the log level on them (\<open>Aklog\<close> itself has
  both); signals and interrupted system calls; failing calls that remove names or
  close descriptors, whose answers the program ignores; the tests (\<^verbatim>\<open>*_test.cc\<close>), of which only the client loop of the barrier is used; scripts,
  build files and the other suites under \<^verbatim>\<open>benchmark_comparison\<close>. The MPI library is not part of the
  sources; \<open>Mpi_Bandwidth\<close> says what it is taken to promise.
\<close>

end
